(* ===== verification/Prelude.thy ===== *)
theory Prelude
  imports Main "HOL-Library.Word"
begin

text \<open>
  Shared vocabulary of the development: the result type of fallible C code, the two search loops
  that the runtime writes again and again (first match upwards, last match downwards), a
  counting loop over fallible bodies, the C integer conversions, and the invariant rule for
  transition systems. Nothing here is specific to the runtime; the component theories use the
  rules collected under \<open>res_simps\<close>, \<open>ends_intros\<close> and \<open>wf_simps\<close>.
\<close>

named_theorems res_simps \<open>rewriting of sequenced results\<close>
named_theorems ends_intros \<open>rules for the outcome of a fallible computation\<close>
named_theorems wf_simps \<open>shape of the tables after an update\<close>

section \<open>Results of fallible code\<close>

text \<open>
  The ways in which a C function of the runtime does not return to its caller:
  \<open>ExitFailure\<close> is \<open>exit(1)\<close> from \<open>err_check\<close>, \<open>AssertionFailed\<close> an \<open>assert\<close>,
  \<open>OutOfBounds\<close> an access outside a static array, \<open>NullPointer\<close> a dereference of a null
  pointer, \<open>Indeterminate\<close> the use of an object that was never written, \<open>Spinning\<close> a busy
  wait that the calling thread cannot leave by itself, \<open>DivisionByZero\<close> the trap of an
  integer division by zero, \<open>SignedOverflow\<close> an \<open>int\<close> sum out of range, and \<open>UncaughtException\<close> a
  C++ exception that ends the program.
\<close>

datatype msh_error = ExitFailure | AssertionFailed | OutOfBounds | NullPointer
  | Indeterminate | Spinning | DivisionByZero | SignedOverflow | UncaughtException

type_synonym 'a res = "msh_error + 'a"

fun bindR :: "'a res \<Rightarrow> ('a \<Rightarrow> 'b res) \<Rightarrow> 'b res" where
  "bindR (Inl e) f = Inl e"
| "bindR (Inr x) f = f x"

lemma bindR_eq_Inr [res_simps]:
  "bindR m f = Inr y \<longleftrightarrow> (\<exists>x. m = Inr x \<and> f x = Inr y)"
  by (cases m) auto

lemma bindR_assoc: "bindR (bindR m f) g = bindR m (\<lambda>x. bindR (f x) g)"
  by (cases m) auto

text \<open>
  \<open>ends m E P\<close>: the computation ends in an error that \<open>E\<close> allows or returns a value with
  \<open>P\<close>. With \<open>E = never\<close> this is total correctness: it does return.
\<close>

definition ends :: "'a res \<Rightarrow> (msh_error \<Rightarrow> bool) \<Rightarrow> ('a \<Rightarrow> bool) \<Rightarrow> bool" where
  "ends m E P \<longleftrightarrow> (case m of Inl e \<Rightarrow> E e | Inr x \<Rightarrow> P x)"

abbreviation never :: "msh_error \<Rightarrow> bool" where
  "never \<equiv> (\<lambda>_. False)"

abbreviation may_exit :: "msh_error \<Rightarrow> bool" where
  "may_exit \<equiv> (\<lambda>e. e = ExitFailure)"

lemma ends_Inl [simp]: "ends (Inl e) E P \<longleftrightarrow> E e"
  by (simp add: ends_def)

lemma ends_Inr [simp]: "ends (Inr x) E P \<longleftrightarrow> P x"
  by (simp add: ends_def)

lemma ends_never: "ends m never P \<longleftrightarrow> (\<exists>x. m = Inr x \<and> P x)"
  by (cases m) auto

lemma ends_mono: "ends m E P \<Longrightarrow> (\<And>e. E e \<Longrightarrow> E' e) \<Longrightarrow> (\<And>x. P x \<Longrightarrow> Q x) \<Longrightarrow> ends m E' Q"
  by (cases m) auto

lemma ends_conj: "ends m E P \<Longrightarrow> ends m E' Q \<Longrightarrow> ends m E (\<lambda>x. P x \<and> Q x)"
  by (cases m) auto

lemma ends_bindR: "ends (bindR m f) E P \<longleftrightarrow> ends m E (\<lambda>x. ends (f x) E P)"
  by (cases m) auto

lemma ends_bindI [ends_intros]:
  "ends m E Q \<Longrightarrow> (\<And>x. Q x \<Longrightarrow> ends (f x) E P) \<Longrightarrow> ends (bindR m f) E P"
  by (cases m) auto

lemma ends_InrD: "ends m E P \<Longrightarrow> m = Inr x \<Longrightarrow> P x"
  by simp

section \<open>Counting loops with a fallible body\<close>

fun foldR :: "('i \<Rightarrow> 's \<Rightarrow> 's res) \<Rightarrow> 'i list \<Rightarrow> 's \<Rightarrow> 's res" where
  "foldR f [] s = Inr s"
| "foldR f (i # is) s = bindR (f i s) (foldR f is)"

lemma foldR_rule:
  assumes "\<And>i s. i \<in> set is \<Longrightarrow> I s \<Longrightarrow> ends (f i s) E I" and "I s"
  shows "ends (foldR f is s) E I"
  using assms by (induction "is" arbitrary: s) (auto intro!: ends_bindI)

lemma foldR_upt_rule:
  assumes step: "\<And>k s. i \<le> k \<Longrightarrow> k < n \<Longrightarrow> I k s \<Longrightarrow> ends (f k s) E (I (Suc k))"
    and start: "I i s" and le: "i \<le> n"
  shows "ends (foldR f [i..<n] s) E (I n)"
  using le start step
proof (induction "n - i" arbitrary: i s)
  case 0
  then show ?case by simp
next
  case (Suc d)
  then have lt: "i < n" and d: "d = n - Suc i" by auto
  have "ends (f i s) E (I (Suc i))" using Suc.prems lt by simp
  moreover have "ends (foldR f [Suc i..<n] s') E (I n)" if "I (Suc i) s'" for s'
    using Suc.hyps(1) [OF d] that Suc.prems(3) lt by simp
  ultimately show ?case using lt by (simp add: upt_conv_Cons ends_bindI)
qed

section \<open>Search loops\<close>

text \<open>\<open>for (j = i; j < n; j++) if (P(j)) return j;\<close>\<close>

function first_pos :: "(nat \<Rightarrow> bool) \<Rightarrow> nat \<Rightarrow> nat \<Rightarrow> nat option" where
  "first_pos P i n = (if i < n then if P i then Some i else first_pos P (Suc i) n else None)"
  by pat_completeness auto
termination
  by (relation "measure (\<lambda>(P, i, n). n - i)") auto

declare first_pos.simps [simp del]

text \<open>\<open>for (j = n - 1; j > 0; j--) if (P(j)) return j;\<close>\<close>

fun last_pos :: "(nat \<Rightarrow> bool) \<Rightarrow> nat \<Rightarrow> nat option" where
  "last_pos P 0 = None"
| "last_pos P (Suc j) = (if 0 < j then if P j then Some j else last_pos P j else None)"

lemma first_pos_Some:
  "first_pos P i n = Some k \<longleftrightarrow> i \<le> k \<and> k < n \<and> P k \<and> (\<forall>j. i \<le> j \<and> j < k \<longrightarrow> \<not> P j)"
proof (induction P i n rule: first_pos.induct)
  case (1 P i n)
  show ?case
  proof (cases "i < n \<and> \<not> P i")
    case True
    then have "(\<forall>j. Suc i \<le> j \<and> j < k \<longrightarrow> \<not> P j) = (\<forall>j. i \<le> j \<and> j < k \<longrightarrow> \<not> P j)"
      by (metis Suc_leI Suc_leD le_neq_implies_less)
    moreover have "(Suc i \<le> k \<and> P k) = (i \<le> k \<and> P k)"
      using True by (metis Suc_leI Suc_leD le_neq_implies_less)
    ultimately show ?thesis using "1.IH" True
      by (subst first_pos.simps) auto
  next
    case False
    then show ?thesis by (subst first_pos.simps) (auto simp: le_less)
  qed
qed

lemma first_pos_None: "first_pos P i n = None \<longleftrightarrow> (\<forall>j. i \<le> j \<and> j < n \<longrightarrow> \<not> P j)"
proof (induction P i n rule: first_pos.induct)
  case (1 P i n)
  have "(\<forall>j. i \<le> j \<and> j < n \<longrightarrow> \<not> P j) =
      (i < n \<longrightarrow> \<not> P i \<and> (\<forall>j. Suc i \<le> j \<and> j < n \<longrightarrow> \<not> P j))"
    by (auto simp: Suc_le_eq dest: le_neq_implies_less)
  with "1.IH" show ?case
    by (subst first_pos.simps) auto
qed

lemma last_pos_Some:
  "last_pos P n = Some k \<longleftrightarrow> 0 < k \<and> k < n \<and> P k \<and> (\<forall>j. k < j \<and> j < n \<longrightarrow> \<not> P j)"
  by (induction P n rule: last_pos.induct) (auto simp: less_Suc_eq)

lemma last_pos_None: "last_pos P n = None \<longleftrightarrow> (\<forall>j. 0 < j \<and> j < n \<longrightarrow> \<not> P j)"
  by (induction P n rule: last_pos.induct) (auto simp: less_Suc_eq)

lemma first_pos_cong:
  "(\<And>j. i \<le> j \<Longrightarrow> j < n \<Longrightarrow> P j = Q j) \<Longrightarrow> first_pos P i n = first_pos Q i n"
proof (induction P i n rule: first_pos.induct)
  case (1 P i n)
  then show ?case
    by (simp add: first_pos.simps [of P i n] first_pos.simps [of Q i n])
qed

section \<open>C integer conversions\<close>

text \<open>
  C integers are modelled as \<^typ>\<open>int\<close> with the conversion written at every assignment to a
  narrower type. Conversion to a signed type wraps, as gcc defines it; conversion to
  \<open>size_t\<close> is reduction modulo \<open>2 ^ 64\<close>.
\<close>

definition to_short :: "int \<Rightarrow> int" where
  "to_short = signed_take_bit 15"

definition to_int :: "int \<Rightarrow> int" where
  "to_int = signed_take_bit 31"

definition to_size_t :: "int \<Rightarrow> int" where
  "to_size_t x = x mod 2 ^ 64"

lemma to_short_id: "- 32768 \<le> x \<Longrightarrow> x < 32768 \<Longrightarrow> to_short x = x"
  by (simp add: to_short_def signed_take_bit_int_eq_self)

lemma to_int_id: "- 2147483648 \<le> x \<Longrightarrow> x < 2147483648 \<Longrightarrow> to_int x = x"
  by (simp add: to_int_def signed_take_bit_int_eq_self)

lemma to_size_t_id: "0 \<le> x \<Longrightarrow> x < 2 ^ 64 \<Longrightarrow> to_size_t x = x"
  by (simp add: to_size_t_def)

section \<open>Invariants of transition systems\<close>

text \<open>
  The interface between a step relation and its invariant. Every concurrent protocol of the
  runtime is an instance.
\<close>

locale inv_system =
  fixes start :: "'s \<Rightarrow> bool" and step :: "'s \<Rightarrow> 's \<Rightarrow> bool" and inv :: "'s \<Rightarrow> bool"
  assumes inv_start: "start s \<Longrightarrow> inv s"
    and inv_step: "inv s \<Longrightarrow> step s t \<Longrightarrow> inv t"
begin

lemma inv_run:
  assumes "step\<^sup>*\<^sup>* s t" and "inv s"
  shows "inv t"
  using assms by (induction rule: rtranclp_induct) (auto intro: inv_step)

lemma inv_reachable: "start s \<Longrightarrow> step\<^sup>*\<^sup>* s t \<Longrightarrow> inv t"
  using inv_run inv_start by blast

end

section \<open>Lists updated by position\<close>

lemma map_upt_nth_eq: "length xs = n \<Longrightarrow> map (\<lambda>i. xs ! i) [0..<n] = xs"
  using map_nth by blast

lemma nth_replicate_update:
  "i < n \<Longrightarrow> (replicate n x)[j := v] ! i = (if i = j then v else x)"
  by (auto simp: nth_list_update)

definition swap_nth :: "'a list \<Rightarrow> nat \<Rightarrow> nat \<Rightarrow> 'a list" where
  "swap_nth xs a b = xs[a := xs ! b, b := xs ! a]"

lemma length_swap_nth [simp]: "length (swap_nth xs a b) = length xs"
  by (simp add: swap_nth_def)

lemma nth_swap_nth:
  "a < length xs \<Longrightarrow> b < length xs \<Longrightarrow>
   swap_nth xs a b ! i = (if i = b then xs ! a else if i = a then xs ! b else xs ! i)"
  by (auto simp: swap_nth_def nth_list_update)

lemma swap_nth_zip:
  "a < length xs \<Longrightarrow> b < length xs \<Longrightarrow> length ys = length xs \<Longrightarrow>
   zip (swap_nth xs a b) (swap_nth ys a b) = swap_nth (zip xs ys) a b"
  by (simp add: swap_nth_def zip_update)

lemma swap_nth_map:
  "a < length xs \<Longrightarrow> b < length xs \<Longrightarrow> map f (swap_nth xs a b) = swap_nth (map f xs) a b"
  by (simp add: swap_nth_def map_update)

text \<open>Exchanging an entry with a later one across a gap of filtered-out entries keeps the order.\<close>

lemma filter_swap_nth:
  assumes "a < b" and "b < length xs" and gap: "\<And>j. a \<le> j \<Longrightarrow> j < b \<Longrightarrow> \<not> P (xs ! j)"
  shows "filter P (swap_nth xs a b) = filter P xs"
proof -
  define us vs ws where "us = take a xs" and "vs = drop (Suc a) (take b xs)"
    and "ws = drop (Suc b) xs"
  have len: "length us = a" "length vs = b - Suc a" using assms(1,2) by (auto simp: us_def vs_def)
  have "take b xs = us @ xs ! a # vs"
    using assms(1,2) id_take_nth_drop [of a "take b xs"] by (simp add: us_def vs_def)
  then have xs: "xs = us @ xs ! a # vs @ xs ! b # ws"
    using assms(2) id_take_nth_drop [of b xs] by (simp add: ws_def)
  have "\<not> P v" if "v \<in> set vs" for v
    using that gap assms(1,2) by (auto simp: vs_def in_set_conv_nth)
  then have "filter P vs = []" by (simp add: filter_empty_conv)
  moreover have "swap_nth xs a b = us @ xs ! b # vs @ xs ! a # ws"
  proof -
    have b: "b = length us + Suc (length vs)" using assms(1) len by simp
    have "xs[a := xs ! b] = us @ xs ! b # vs @ xs ! b # ws"
      by (subst (1) xs) (simp add: list_update_append len)
    then show ?thesis by (simp add: swap_nth_def list_update_append b)
  qed
  ultimately show ?thesis using gap [of a] assms(1) by (subst (2) xs) simp
qed

end
