(* ===== verification/Layout.thy ===== *)
theory Layout
  imports Prelude
begin

text \<open>
  The data model of \<open>libmsh/msh.h\<close>: its capacity constants, its four structs as records, and
  their byte layout. The binary instrumentation addresses the fields of \<open>yield_ctx\<close> and of
  \<open>primary_thread_ctx\<close> by byte offsets relative to \<open>%gs\<close>, so the layout is part of the
  interface: sizes and offsets are computed here from the field lists by the C rules for
  \<open>packed\<close> and \<open>aligned\<close>, and the records hold the values.
\<close>

section \<open>Capacities\<close>

definition CRT_STACK_SZ :: nat where "CRT_STACK_SZ = 2 ^ 20"
definition MAX_THREAD_NUM :: nat where "MAX_THREAD_NUM = 128"
definition MAX_ACTIVE_CRT_NUM_PER_APPLICATION :: nat
  where "MAX_ACTIVE_CRT_NUM_PER_APPLICATION = 512"
definition MAX_CRT_PER_THREAD :: nat where "MAX_CRT_PER_THREAD = 128"
definition MAX_REG_SET_NUM :: nat where "MAX_REG_SET_NUM = 15"
definition NUM_OF_LINES_FOR_LOOP_COUNTER :: nat where "NUM_OF_LINES_FOR_LOOP_COUNTER = 4"

text \<open>
  \<open>NSLOT\<close> is the bound \<open>MAX_CRT_PER_THREAD + 1\<close> that every array of a thread's positions and every
  loop over them is written with; position 0 belongs to the primary.
\<close>

definition NSLOT :: nat where "NSLOT = MAX_CRT_PER_THREAD + 1"

lemmas capacities = CRT_STACK_SZ_def MAX_THREAD_NUM_def MAX_ACTIVE_CRT_NUM_PER_APPLICATION_def
  MAX_CRT_PER_THREAD_def MAX_REG_SET_NUM_def NUM_OF_LINES_FOR_LOOP_COUNTER_def NSLOT_def

lemma NSLOT_pos [simp]: "0 < NSLOT"
  by (simp add: NSLOT_def)

lemma less_NSLOT: "p < NSLOT \<longleftrightarrow> p \<le> MAX_CRT_PER_THREAD"
  by (auto simp: NSLOT_def)

section \<open>Struct layout\<close>

text \<open>A field is its name, its size and its alignment in bytes.\<close>

type_synonym field = "string \<times> nat \<times> nat"

definition round_up :: "nat \<Rightarrow> nat \<Rightarrow> nat" where
  "round_up n a = ((n + a - 1) div a) * a"

fun field_end :: "bool \<Rightarrow> field list \<Rightarrow> nat \<Rightarrow> nat" where
  "field_end packed [] off = off"
| "field_end packed ((f, sz, al) # fs) off =
     field_end packed fs ((if packed then off else round_up off al) + sz)"

fun field_offset :: "bool \<Rightarrow> field list \<Rightarrow> nat \<Rightarrow> string \<Rightarrow> nat option" where
  "field_offset packed [] off name = None"
| "field_offset packed ((f, sz, al) # fs) off name =
     (let here = (if packed then off else round_up off al)
      in if f = name then Some here else field_offset packed fs (here + sz) name)"

definition struct_size :: "bool \<Rightarrow> nat \<Rightarrow> field list \<Rightarrow> nat" where
  "struct_size packed aligned fs = round_up (field_end packed fs 0) aligned"

definition x86_registers_fields :: "field list" where
  "x86_registers_fields = map (\<lambda>f. (f, 8, 8))
     [''rax'', ''rbx'', ''rcx'', ''rdx'', ''rsi'', ''rdi'', ''rbp'', ''rsp'',
      ''r8'', ''r9'', ''r10'', ''r11'', ''r12'', ''r13'', ''r14'', ''r15''] @
     map (\<lambda>f. (f, 2 * 8, 8)) [''XMM0'', ''XMM1'', ''XMM2'', ''XMM3'']"

definition sizeof_x86_registers :: nat where
  "sizeof_x86_registers = struct_size False 8 x86_registers_fields"

definition yield_ctx_fields :: "field list" where
  "yield_ctx_fields =
     [(''sp'', 8, 8), (''ip'', 8, 8), (''special_next'', 2, 2), (''normal_next'', 2, 2)]"

definition sizeof_yield_ctx :: nat where
  "sizeof_yield_ctx = struct_size True 4 yield_ctx_fields"

definition coroutine_ctx_fields :: "field list" where
  "coroutine_ctx_fields =
     [(''lib_handle'', 8, 8), (''entry'', 8, 8), (''pad'', 8, 1), (''stack'', CRT_STACK_SZ, 1),
      (''ret_to_sched'', 8, 8), (''pad2'', 32, 1), (''argc'', 4, 4), (''argv'', 8, 8),
      (''yc'', 8, 8), (''finished'', 1, 1), (''init'', 8, 8), (''inited'', 1, 1)]"

definition sizeof_coroutine_ctx :: nat where
  "sizeof_coroutine_ctx = struct_size True 16 coroutine_ctx_fields"

definition primary_thread_ctx_fields :: "field list" where
  "primary_thread_ctx_fields =
     [(''ycs'', NSLOT * sizeof_yield_ctx, 4),
      (''loop_counter'', NSLOT * (NUM_OF_LINES_FOR_LOOP_COUNTER * 64), 1),
      (''regs'', NSLOT * (MAX_REG_SET_NUM * sizeof_x86_registers), 8),
      (''idx_list'', NSLOT * 4, 4), (''scav_num'', 4, 4),
      (''reallocatable'', 1, 1), (''reallocated'', 1, 1)]"

definition sizeof_primary_thread_ctx :: nat where
  "sizeof_primary_thread_ctx = struct_size False 64 primary_thread_ctx_fields"

lemmas layout_defs = round_up_def struct_size_def sizeof_x86_registers_def
  x86_registers_fields_def yield_ctx_fields_def sizeof_yield_ctx_def coroutine_ctx_fields_def
  sizeof_coroutine_ctx_def primary_thread_ctx_fields_def sizeof_primary_thread_ctx_def capacities

lemma sizeof_yield_ctx_eq [simp]: "sizeof_yield_ctx = 20"
  by (simp add: layout_defs)

lemma sizeof_coroutine_ctx_eq: "sizeof_coroutine_ctx = 1048672"
  by (simp add: layout_defs)

lemma sizeof_x86_registers_eq: "sizeof_x86_registers = 192"
  by (simp add: layout_defs)

lemma primary_fields_end:
  "field_end False primary_thread_ctx_fields 0 = 407650"
  unfolding primary_thread_ctx_fields_def sizeof_x86_registers_eq sizeof_yield_ctx_eq
  by (simp add: round_up_def capacities)

lemma sizeof_primary_thread_ctx_eq: "sizeof_primary_thread_ctx = 407680"
  by (simp add: sizeof_primary_thread_ctx_def struct_size_def primary_fields_end round_up_def)

section \<open>The structs as records\<close>

type_synonym handle = nat

record x86_registers =
  rax :: "64 word"
  rbx :: "64 word"
  rcx :: "64 word"
  rdx :: "64 word"
  rsi :: "64 word"
  rdi :: "64 word"
  rbp :: "64 word"
  rsp :: "64 word"
  r8 :: "64 word"
  r9 :: "64 word"
  r10 :: "64 word"
  r11 :: "64 word"
  r12 :: "64 word"
  r13 :: "64 word"
  r14 :: "64 word"
  r15 :: "64 word"
  XMM0 :: "64 word \<times> 64 word"
  XMM1 :: "64 word \<times> 64 word"
  XMM2 :: "64 word \<times> 64 word"
  XMM3 :: "64 word \<times> 64 word"

record yield_ctx =
  sp :: "64 word"
  ip :: "64 word"
  special_next :: int
  normal_next :: int

text \<open>
  A pointer to a yield context is the thread and the position of the slot it points to,
  \<open>&PRIM_TABLE[t].ycs[p]\<close>. A function pointer is an address; \<open>None\<close> is the null pointer.
\<close>

type_synonym yc_ptr = "(nat \<times> nat) option"

record coroutine_ctx =
  lib_handle :: "handle option"
  entry :: "64 word option"
  stack :: "nat \<Rightarrow> 8 word"
  ret_to_sched :: "64 word"
  argc :: int
  argv :: "string list"
  yc :: yc_ptr
  finished :: bool
  init :: "64 word option"
  inited :: bool

record primary_thread_ctx =
  ycs :: "yield_ctx list"
  loop_counter :: "8 word list list"
  regs :: "x86_registers list list"
  idx_list :: "int list"
  scav_num :: int
  reallocatable :: bool
  reallocated :: bool

text \<open>Static storage starts zeroed.\<close>

definition zero_yield_ctx :: yield_ctx where
  "zero_yield_ctx = \<lparr>sp = 0, ip = 0, special_next = 0, normal_next = 0\<rparr>"

definition zero_x86_registers :: x86_registers where
  "zero_x86_registers = \<lparr>rax = 0, rbx = 0, rcx = 0, rdx = 0, rsi = 0, rdi = 0, rbp = 0, rsp = 0,
     r8 = 0, r9 = 0, r10 = 0, r11 = 0, r12 = 0, r13 = 0, r14 = 0, r15 = 0,
     XMM0 = (0, 0), XMM1 = (0, 0), XMM2 = (0, 0), XMM3 = (0, 0)\<rparr>"

definition zero_coroutine_ctx :: coroutine_ctx where
  "zero_coroutine_ctx = \<lparr>lib_handle = None, entry = None, stack = (\<lambda>_. 0), ret_to_sched = 0,
     argc = 0, argv = [], yc = None, finished = False, init = None, inited = False\<rparr>"

definition zero_primary_thread_ctx :: primary_thread_ctx where
  "zero_primary_thread_ctx = \<lparr>ycs = replicate NSLOT zero_yield_ctx,
     loop_counter = replicate NSLOT (replicate (NUM_OF_LINES_FOR_LOOP_COUNTER * 64) 0),
     regs = replicate NSLOT (replicate MAX_REG_SET_NUM zero_x86_registers),
     idx_list = replicate NSLOT 0, scav_num = 0, reallocatable = False, reallocated = False\<rparr>"

section \<open>Positions and byte offsets\<close>

text \<open>
  \<open>normal_next\<close> and \<open>special_next\<close> hold a position as the byte offset of its slot from
  \<open>%gs\<close>: \<open>sizeof(struct yield_ctx) * pos\<close> is a \<open>size_t\<close> stored in a \<open>short\<close>. Reading it back
  divides the \<open>short\<close>, converted to \<open>size_t\<close>, by the size.
\<close>

definition offset_of_pos :: "nat \<Rightarrow> int" where
  "offset_of_pos pos = to_short (to_size_t (int sizeof_yield_ctx * int pos))"

definition pos_of_offset :: "int \<Rightarrow> int" where
  "pos_of_offset off = to_short (to_size_t off div int sizeof_yield_ctx)"

lemma offset_of_pos_eq: "pos \<le> NSLOT \<Longrightarrow> offset_of_pos pos = 20 * int pos"
  by (simp add: offset_of_pos_def to_size_t_id to_short_id capacities)

lemma offset_of_pos_0 [simp]: "offset_of_pos 0 = 0"
  by (simp add: offset_of_pos_eq)

lemma offset_of_pos_nonneg: "pos \<le> NSLOT \<Longrightarrow> offset_of_pos pos \<noteq> - 1"
  by (simp add: offset_of_pos_eq)

text \<open>
  C30. Positions survive the trip through the \<open>short\<close> fields: for every slot of a thread the
  stored byte offset is non-negative (so it never collides with the end marker -1), fits a
  \<open>short\<close> without wrapping, stays inside the slot array, and divides back to the position.
\<close>

theorem position_offset_roundtrip:
  assumes "pos < NSLOT"
  shows "pos_of_offset (offset_of_pos pos) = int pos \<and>
    offset_of_pos pos = int (sizeof_yield_ctx * pos) \<and>
    0 \<le> offset_of_pos pos \<and> offset_of_pos pos + 20 \<le> int (NSLOT * sizeof_yield_ctx)"
proof -
  have "int pos \<le> 128" using assms by (simp add: capacities)
  then show ?thesis
    using assms
    by (simp add: offset_of_pos_eq pos_of_offset_def to_size_t_id to_short_id capacities)
qed

theorem position_offset_roundtrip_witness:
  "128 < NSLOT \<and> pos_of_offset (offset_of_pos 128) = 128 \<and> offset_of_pos 128 = 2560"
proof -
  have h: "128 < NSLOT" by (simp add: capacities)
  show ?thesis using h position_offset_roundtrip [OF h] by auto
qed

text \<open>A finished slot's marker -1 does not divide back to a slot: it is read as -13108.\<close>

lemma pos_of_offset_minus_one: "pos_of_offset (- 1) = - 13108"
  by (simp add: pos_of_offset_def to_size_t_def to_short_def)

section \<open>Offsets inside the structs\<close>

definition offsetof_yield_ctx :: "string \<Rightarrow> nat" where
  "offsetof_yield_ctx f = the (field_offset True yield_ctx_fields 0 f)"

definition offsetof_coroutine_ctx :: "string \<Rightarrow> nat" where
  "offsetof_coroutine_ctx f = the (field_offset True coroutine_ctx_fields 0 f)"

definition offsetof_primary_thread_ctx :: "string \<Rightarrow> nat" where
  "offsetof_primary_thread_ctx f = the (field_offset False primary_thread_ctx_fields 0 f)"

lemmas offsetof_primary_unfold = offsetof_primary_thread_ctx_def primary_thread_ctx_fields_def
  sizeof_x86_registers_eq sizeof_yield_ctx_eq

lemma offsetof_primary:
  "offsetof_primary_thread_ctx ''ycs'' = 0"
  "offsetof_primary_thread_ctx ''loop_counter'' = 2580"
  "offsetof_primary_thread_ctx ''regs'' = 35608"
  "offsetof_primary_thread_ctx ''idx_list'' = 407128"
  "offsetof_primary_thread_ctx ''scav_num'' = 407644"
  unfolding offsetof_primary_unfold by (simp_all add: round_up_def capacities)

lemma offsetof_ret_to_sched: "offsetof_coroutine_ctx ''ret_to_sched'' = 1048600"
  by (simp add: offsetof_coroutine_ctx_def coroutine_ctx_fields_def capacities)

text \<open>
  The offsets that the instrumented code and the runtime share: the yield context is 20
  bytes with \<open>sp\<close>, \<open>ip\<close>, \<open>special_next\<close>, \<open>normal_next\<close> at 0, 8, 16 and 18, so that three of
  them fit a 64-byte cache line; the slot array is at the start of the thread context, whose
  size is a multiple of a cache line; and the word behind the last entry of \<open>idx_list\<close> is
  \<open>scav_num\<close>.
\<close>

lemma shared_layout:
  "sizeof_yield_ctx = 20 \<and> 3 * sizeof_yield_ctx \<le> 64 \<and>
   map offsetof_yield_ctx [''sp'', ''ip'', ''special_next'', ''normal_next''] = [0, 8, 16, 18] \<and>
   offsetof_primary_thread_ctx ''ycs'' = 0 \<and> sizeof_primary_thread_ctx mod 64 = 0 \<and>
   offsetof_primary_thread_ctx ''scav_num'' =
     offsetof_primary_thread_ctx ''idx_list'' + 4 * NSLOT"
  by (simp add: offsetof_primary sizeof_primary_thread_ctx_eq capacities
      offsetof_yield_ctx_def yield_ctx_fields_def)

section \<open>Stack addresses\<close>

lemma unat_offset_mod:
  fixes base :: "64 word"
  assumes "unat base mod m = 0" and dvd: "m dvd 2 ^ 64"
  shows "unat (base + of_nat k) mod m = k mod m"
proof -
  have "unat (base + of_nat k) mod m = (unat base + k mod 2 ^ 64) mod m"
    using dvd by (simp add: unat_word_ariths unat_of_nat mod_mod_cancel)
  also have "\<dots> = (unat base mod m + (k mod 2 ^ 64) mod m) mod m"
    by (rule mod_add_eq [symmetric])
  also have "\<dots> = k mod m"
    using assms by (simp add: mod_mod_cancel)
  finally show ?thesis .
qed

text \<open>
  \<open>&SCAV_TABLE[idx].ret_to_sched\<close>, the initial stack pointer of a scavenger, where
  \<open>SCAV_TABLE\<close> starts at \<open>base\<close>; and \<open>&PRIM_TABLE[i].ycs\<close>.
\<close>

definition ret_to_sched_addr :: "64 word \<Rightarrow> nat \<Rightarrow> 64 word" where
  "ret_to_sched_addr base idx =
     base + of_nat (idx * sizeof_coroutine_ctx + offsetof_coroutine_ctx ''ret_to_sched'')"

definition ycs_addr :: "64 word \<Rightarrow> nat \<Rightarrow> 64 word" where
  "ycs_addr base i =
     base + of_nat (i * sizeof_primary_thread_ctx + offsetof_primary_thread_ctx ''ycs'')"

text \<open>
  \<open>tl_yield_ctx_at(pos)\<close>: the address of slot \<open>pos\<close> of thread \<open>t\<close>, whose \<open>gsbase\<close> is \<open>&PRIM_TABLE[t]\<close>.
\<close>

definition slot_addr :: "64 word \<Rightarrow> nat \<Rightarrow> nat \<Rightarrow> 64 word" where
  "slot_addr base t pos = base + of_nat (t * sizeof_primary_thread_ctx) + of_nat (sizeof_yield_ctx * pos)"

lemma unat_slot_addr:
  assumes "unat base + MAX_THREAD_NUM * sizeof_primary_thread_ctx \<le> 2 ^ 64"
    and t: "t < MAX_THREAD_NUM" and p: "p < NSLOT"
  shows "unat (slot_addr base t p) = unat base + t * sizeof_primary_thread_ctx + sizeof_yield_ctx * p"
    "sizeof_yield_ctx * p + sizeof_yield_ctx \<le> offsetof_primary_thread_ctx ''loop_counter''"
proof -
  show lc: "sizeof_yield_ctx * p + sizeof_yield_ctx \<le> offsetof_primary_thread_ctx ''loop_counter''"
    using p by (simp add: offsetof_primary sizeof_yield_ctx_eq capacities)
  have small: "offsetof_primary_thread_ctx ''loop_counter'' \<le> sizeof_primary_thread_ctx"
    by (simp add: offsetof_primary sizeof_primary_thread_ctx_eq)
  have "Suc t * sizeof_primary_thread_ctx \<le> MAX_THREAD_NUM * sizeof_primary_thread_ctx"
    using t by (intro mult_le_mono1) simp
  then have lt: "unat base + (t * sizeof_primary_thread_ctx + sizeof_yield_ctx * p) < 2 ^ 64"
    using assms(1) lc small by (simp add: sizeof_yield_ctx_eq)
  have eq: "slot_addr base t p = base + of_nat (t * sizeof_primary_thread_ctx + sizeof_yield_ctx * p)"
    by (simp add: slot_addr_def)
  have "unat (of_nat (t * sizeof_primary_thread_ctx + sizeof_yield_ctx * p) :: 64 word) =
      t * sizeof_primary_thread_ctx + sizeof_yield_ctx * p"
    using lt by (simp add: unat_of_nat del: of_nat_add of_nat_mult)
  then show "unat (slot_addr base t p) = unat base + t * sizeof_primary_thread_ctx + sizeof_yield_ctx * p"
    unfolding eq using lt by (subst unat_plus_if_size) (simp add: word_size)
qed

text \<open>
  C31. The slots of all threads are separate memory: wherever the thread table lies without
  wrapping around the address space, the 20 bytes of every slot are inside the \<open>ycs\<close> array of its
  own thread context, before \<open>loop_counter\<close>, and two different slots, of one thread or of two,
  do not overlap. This is what lets the model update one slot without touching another.
\<close>

theorem slots_do_not_overlap:
  assumes "unat base + MAX_THREAD_NUM * sizeof_primary_thread_ctx \<le> 2 ^ 64"
    and "t < MAX_THREAD_NUM" and "p < NSLOT" and "u < MAX_THREAD_NUM" and "q < NSLOT"
    and "(t, p) \<noteq> (u, q)"
  shows "unat (ycs_addr base t) \<le> unat (slot_addr base t p) \<and>
    unat (slot_addr base t p) + sizeof_yield_ctx \<le>
      unat (ycs_addr base t) + offsetof_primary_thread_ctx ''loop_counter'' \<and>
    (unat (slot_addr base t p) + sizeof_yield_ctx \<le> unat (slot_addr base u q) \<or>
     unat (slot_addr base u q) + sizeof_yield_ctx \<le> unat (slot_addr base t p))"
proof -
  let ?C = sizeof_primary_thread_ctx and ?Y = sizeof_yield_ctx
  note a = unat_slot_addr [OF assms(1-3)] and b = unat_slot_addr [OF assms(1,4,5)]
  have "ycs_addr base t = slot_addr base t 0" by (simp add: ycs_addr_def slot_addr_def offsetof_primary)
  then have y: "unat (ycs_addr base t) = unat base + t * ?C"
    using unat_slot_addr(1) [OF assms(1,2) NSLOT_pos] by simp
  have lc: "offsetof_primary_thread_ctx ''loop_counter'' \<le> ?C"
    by (simp add: offsetof_primary sizeof_primary_thread_ctx_eq)
  consider "t < u" | "u < t" | "t = u" "p < q" | "t = u" "q < p" 
    using assms(6) nat_neq_iff [of t u] nat_neq_iff [of p q] by blast
  then have "t * ?C + ?Y * p + ?Y \<le> u * ?C + ?Y * q \<or> u * ?C + ?Y * q + ?Y \<le> t * ?C + ?Y * p"
  proof cases
    case 1
    then have "Suc t * ?C \<le> u * ?C" by (intro mult_le_mono1) simp
    then show ?thesis using a(2) lc by simp
  next
    case 2
    then have "Suc u * ?C \<le> t * ?C" by (intro mult_le_mono1) simp
    then show ?thesis using b(2) lc by simp
  next
    case 3
    then have "?Y * Suc p \<le> ?Y * q" by (intro mult_le_mono2) simp
    then show ?thesis using 3 by simp
  next
    case 4
    then have "?Y * Suc q \<le> ?Y * p" by (intro mult_le_mono2) simp
    then show ?thesis using 4 by simp
  qed
  then show ?thesis using a b y by auto
qed

theorem slots_do_not_overlap_witness:
  "unat (slot_addr 4096 3 128) + sizeof_yield_ctx \<le> unat (slot_addr 4096 4 0) \<or>
   unat (slot_addr 4096 4 0) + sizeof_yield_ctx \<le> unat (slot_addr 4096 3 128)"
  using slots_do_not_overlap [of 4096 3 128 4 0]
  by (simp add: sizeof_primary_thread_ctx_eq capacities)

text \<open>
  C32. A scavenger starts with the stack alignment the x86-64 ABI gives a called function: the
  table is 16-byte aligned (the struct's attribute), hence the initial stack pointer, which
  points at the return address \<open>ret_to_sched\<close>, is 8 modulo 16.
\<close>

theorem scavenger_entry_stack_alignment:
  assumes "unat base mod 16 = 0"
  shows "unat (ret_to_sched_addr base idx) mod 16 = 8"
proof -
  have "idx * 1048672 + 1048600 = 8 + 16 * (idx * 65542 + 65537)" by simp
  then have "(idx * 1048672 + 1048600) mod 16 = 8" by (simp only: mod_mult_self2) simp
  then show ?thesis
    unfolding ret_to_sched_addr_def sizeof_coroutine_ctx_eq offsetof_ret_to_sched
    by (subst unat_offset_mod [OF assms]) simp_all
qed

theorem scavenger_entry_stack_alignment_witness:
  "unat (4096 :: 64 word) mod 16 = 0 \<and> unat (ret_to_sched_addr 4096 3) mod 16 = 8"
proof -
  have h: "unat (4096 :: 64 word) mod 16 = 0" by simp
  show ?thesis using h scavenger_entry_stack_alignment [OF h] by simp
qed

lemma ycs_addr_aligned:
  assumes "unat base mod 64 = 0"
  shows "unat (ycs_addr base i) mod 64 = 0"
proof -
  have "i * 407680 = 64 * (i * 6370)" by simp
  then have "i * 407680 mod 64 = 0" by (simp only: mod_mult_self1_is_0)
  then show ?thesis
    unfolding ycs_addr_def sizeof_primary_thread_ctx_eq offsetof_primary
    by (subst unat_offset_mod [OF assms]) simp_all
qed

end
