(* ===== verification/Index_List.thy ===== *)
theory Index_List
  imports Layout
begin

text \<open>
  The macros \<open>push_back_to_list\<close> and \<open>pop_back_from_list\<close> of \<open>libmsh/msh.c\<close> on a thread's
  index list. Slot 0 is reserved for the primary, -1 marks a free slot. The theory gives the
  macros as functions, states the contract of a bounded stack as a locale, and shows that on
  packed lists (no hole before an occupied slot) the macros implement it.
\<close>

section \<open>The macros\<close>

text \<open>
  The output argument \<open>pos\<close> is \<open>None\<close> where the macro leaves the caller's -1 in it.
\<close>

definition push_back_to_list :: "int list \<Rightarrow> nat \<Rightarrow> int \<Rightarrow> int list \<times> nat option" where
  "push_back_to_list list sz item =
     (case first_pos (\<lambda>i. list ! i = - 1) 1 sz of
        None \<Rightarrow> (list, None)
      | Some i \<Rightarrow> (list[i := item], Some i))"

definition pop_back_from_list :: "int list \<Rightarrow> nat \<Rightarrow> int list \<times> (int \<times> nat) option" where
  "pop_back_from_list list sz =
     (case last_pos (\<lambda>i. list ! i \<noteq> - 1) sz of
        None \<Rightarrow> (list, None)
      | Some i \<Rightarrow> (list[i := - 1], Some (list ! i, i)))"

section \<open>Contents and packing\<close>

definition items :: "int list \<Rightarrow> int list" where
  "items list = filter (\<lambda>x. x \<noteq> - 1) (tl list)"

definition packed :: "int list \<Rightarrow> bool" where
  "packed list \<longleftrightarrow> (\<forall>x \<in> set (dropWhile (\<lambda>x. x \<noteq> - 1) (tl list)). x = - 1)"

lemma packed_decomp:
  assumes "packed l" and "l \<noteq> []"
  shows "l = hd l # items l @ replicate (length l - 1 - length (items l)) (- 1)"
proof -
  let ?P = "\<lambda>x :: int. x \<noteq> - 1"
  define a b where "a = takeWhile ?P (tl l)" and "b = dropWhile ?P (tl l)"
  have ab: "tl l = a @ b" by (simp add: a_def b_def)
  have "\<forall>x \<in> set b. x = - 1" using assms(1) unfolding packed_def b_def .
  then have b: "b = replicate (length b) (- 1)" by (rule replicate_length_same [symmetric])
  have "filter ?P a = a" by (auto simp: a_def filter_id_conv dest: set_takeWhileD)
  moreover have "filter ?P b = []" by (subst b) simp
  ultimately have i: "items l = a" by (simp add: items_def ab)
  have "length b = length l - 1 - length a"
    using ab by (metis add_diff_cancel_left' length_append length_tl)
  with ab b i assms(2) show ?thesis by (metis list.collapse)
qed

lemma items_no_free [simp]: "- 1 \<notin> set (items l)"
  by (simp add: items_def)

lemma items_build [simp]:
  "- 1 \<notin> set xs \<Longrightarrow> items (h # xs @ replicate k (- 1)) = xs"
  by (auto simp: items_def filter_id_conv filter_empty_conv)

lemma packed_build [simp]:
  "- 1 \<notin> set xs \<Longrightarrow> packed (h # xs @ replicate k (- 1))"
  by (auto simp: packed_def dropWhile_append split: if_splits dest: set_dropWhileD)

lemma length_items_less: "l \<noteq> [] \<Longrightarrow> length (items l) < length l"
  unfolding items_def
  by (metis length_filter_le length_tl diff_less length_greater_0_conv le_less_trans zero_less_one)

lemma packed_occupied:
  assumes "packed l" and "0 < i" and "i < length l"
  shows "l ! i \<noteq> - 1 \<longleftrightarrow> i \<le> length (items l)"
proof -
  have "l \<noteq> []" using assms(3) by auto
  note d = packed_decomp [OF assms(1) this]
  obtain j where j: "i = Suc j" using assms(2) by (cases i) auto
  show ?thesis
  proof (cases "j < length (items l)")
    case True
    then have "l ! i \<in> set (items l)"
      by (subst d) (simp add: j nth_append)
    then show ?thesis using True j items_no_free [of l] by (auto simp: Suc_le_eq)
  next
    case False
    then have "l ! i = - 1"
      using assms(3) by (subst d) (simp add: j nth_append)
    then show ?thesis using False j by simp
  qed
qed

text \<open>The converse: a list whose occupied slots are an initial segment is packed.\<close>

lemma packedI:
  assumes occ: "\<And>i. 0 < i \<Longrightarrow> i < length l \<Longrightarrow> l ! i \<noteq> - 1 \<longleftrightarrow> i \<le> k"
    and k: "k < length l"
  shows "packed l \<and> items l = take k (tl l)"
proof -
  let ?xs = "take k (tl l)"
  have "l ! Suc j \<noteq> - 1" if "j < k" for j using occ [of "Suc j"] that k by auto
  then have n: "- 1 \<notin> set ?xs"
    using k by (auto simp: in_set_conv_nth nth_tl)
  have "drop k (tl l) = replicate (length l - 1 - k) (- 1)"
  proof (rule nth_equalityI)
    fix j assume "j < length (drop k (tl l))"
    then show "drop k (tl l) ! j = replicate (length l - 1 - k) (- 1) ! j"
      using occ [of "Suc (k + j)"] by (simp add: nth_tl)
  qed simp
  then have "l = hd l # ?xs @ replicate (length l - 1 - k) (- 1)"
    using k by (metis append_take_drop_id list.collapse list.size(3) not_less_zero)
  then show ?thesis using n packed_build items_build by metis
qed

lemma packed_no_hole:
  assumes ne: "l \<noteq> []"
    and no_hole: "\<And>p q. 0 < p \<Longrightarrow> p < q \<Longrightarrow> q < length l \<Longrightarrow> l ! p = - 1 \<Longrightarrow> l ! q = - 1"
  shows "packed l"
proof -
  let ?tw = "takeWhile (\<lambda>x. x \<noteq> - 1) (tl l)"
  let ?k = "length ?tw"
  have k: "?k < length l"
    using length_takeWhile_le [of _ "tl l"] ne by (metis diff_less le_less_trans length_greater_0_conv
        length_tl zero_less_one)
  have "l ! i \<noteq> - 1 \<longleftrightarrow> i \<le> ?k" if i: "0 < i" "i < length l" for i
  proof -
    obtain j where j: "i = Suc j" using i(1) by (cases i) auto
    have tl_nth: "tl l ! m = l ! Suc m" if "Suc m < length l" for m
      using that by (simp add: nth_tl)
    show ?thesis
    proof (cases "j < ?k")
      case True
      then have "?tw ! j = tl l ! j" by (rule takeWhile_nth)
      moreover have "?tw ! j \<in> set ?tw" using True by (rule nth_mem)
      ultimately show ?thesis using True j i tl_nth by (auto dest: set_takeWhileD)
    next
      case False
      then have "?k < length (tl l)" using i j by simp
      then have "l ! Suc ?k = - 1" using nth_length_takeWhile [of "\<lambda>x. x \<noteq> - 1" "tl l"] tl_nth by simp
      then have "l ! i = - 1" using no_hole [of "Suc ?k" i] False i j by (cases "i = Suc ?k") auto
      then show ?thesis using False j by simp
    qed
  qed
  then show ?thesis using packedI [OF _ k] by blast
qed

section \<open>The contract of a bounded stack\<close>

locale bounded_stack =
  fixes push :: "'q \<Rightarrow> 'a \<Rightarrow> 'q \<times> nat option" and pop :: "'q \<Rightarrow> 'q \<times> ('a \<times> nat) option"
    and contents :: "'q \<Rightarrow> 'a list" and inv :: "'q \<Rightarrow> bool"
    and item :: "'a \<Rightarrow> bool" and cap :: nat
  assumes push_room: "inv q \<Longrightarrow> item x \<Longrightarrow> length (contents q) < cap \<Longrightarrow>
      \<exists>q'. push q x = (q', Some (Suc (length (contents q)))) \<and> inv q' \<and>
        contents q' = contents q @ [x]"
    and push_full: "inv q \<Longrightarrow> length (contents q) = cap \<Longrightarrow> push q x = (q, None)"
    and pop_some: "inv q \<Longrightarrow> contents q \<noteq> [] \<Longrightarrow>
      \<exists>q'. pop q = (q', Some (last (contents q), length (contents q))) \<and> inv q' \<and>
        contents q' = butlast (contents q)"
    and pop_none: "inv q \<Longrightarrow> contents q = [] \<Longrightarrow> pop q = (q, None)"
    and push_back_popped: "inv q \<Longrightarrow> pop q = (q', Some (x, p)) \<Longrightarrow> push q' x = (q, Some p)"
    and contents_item: "inv q \<Longrightarrow> x \<in> set (contents q) \<Longrightarrow> item x"
    and contents_cap: "inv q \<Longrightarrow> length (contents q) \<le> cap"
begin

lemma pop_pushed:
  assumes "inv q" and "item x" and "push q x = (q', Some p)"
  shows "\<exists>q''. pop q' = (q'', Some (x, p)) \<and> contents q'' = contents q"
proof -
  have "length (contents q) \<noteq> cap" using push_full [OF assms(1)] assms(3) by auto
  then have "length (contents q) < cap" using contents_cap [OF assms(1)] by simp
  then obtain q1 where "push q x = (q1, Some (Suc (length (contents q))))" "inv q1"
      "contents q1 = contents q @ [x]"
    using push_room assms(1,2) by blast
  then show ?thesis using pop_some [of q1] assms(3) by auto
qed

text \<open>One item moves from the top of one stack to the top of another, or nothing moves.\<close>

lemma transfer_top:
  assumes "inv q" and "inv r" and "contents q \<noteq> []"
  shows "\<exists>q' x p. pop q = (q', Some (x, p)) \<and> inv q' \<and> contents q = contents q' @ [x] \<and>
    (if length (contents r) < cap
     then \<exists>r'. push r x = (r', Some (Suc (length (contents r)))) \<and> inv r' \<and>
       contents r' = contents r @ [x]
     else push r x = (r, None) \<and> push q' x = (q, Some p))"
proof -
  obtain q' where q': "pop q = (q', Some (last (contents q), length (contents q)))" "inv q'"
      "contents q' = butlast (contents q)"
    using pop_some assms(1,3) by blast
  have "item (last (contents q))" using contents_item assms(1,3) by simp
  then show ?thesis
    using q' assms push_room [OF assms(2)] push_full [OF assms(2)] contents_cap [OF assms(2)]
      push_back_popped [OF assms(1) q'(1)]
    by (auto simp: le_less)
qed

end

section \<open>The macros implement it on packed lists\<close>

definition slot_inv :: "int list \<Rightarrow> bool" where
  "slot_inv l \<longleftrightarrow> length l = NSLOT \<and> packed l"

lemma slot_inv_decomp:
  assumes "slot_inv l"
  obtains h xs k where "l = h # xs @ replicate k (- 1)" "- 1 \<notin> set xs" "items l = xs"
    "length xs + k = MAX_CRT_PER_THREAD"
proof -
  have ne: "l \<noteq> []" using assms by (auto simp: slot_inv_def NSLOT_def)
  have "length (items l) \<le> MAX_CRT_PER_THREAD"
    using length_items_less [OF ne] assms by (simp add: slot_inv_def NSLOT_def)
  then show thesis
    using that [OF packed_decomp [OF _ ne]] assms by (auto simp: slot_inv_def NSLOT_def)
qed

lemma slot_invI:
  "l = h # xs @ replicate k (- 1) \<Longrightarrow> - 1 \<notin> set xs \<Longrightarrow> length xs + k = MAX_CRT_PER_THREAD \<Longrightarrow>
   slot_inv l \<and> items l = xs"
  by (simp add: slot_inv_def NSLOT_def)

lemma nth_slots:
  "0 < i \<Longrightarrow> i \<le> length xs + k \<Longrightarrow> - 1 \<notin> set xs \<Longrightarrow>
   (h # xs @ replicate k (- 1 :: int)) ! i \<noteq> - 1 \<longleftrightarrow> i \<le> length xs"
  using packed_occupied [OF packed_build [of xs h k], of i] by simp

lemma first_free_slot:
  assumes "- 1 \<notin> set xs" and "length xs + k = m"
  shows "first_pos (\<lambda>i. (h # xs @ replicate k (- 1 :: int)) ! i = - 1) 1 (m + 1) =
    (if k = 0 then None else Some (Suc (length xs)))"
proof -
  define l where "l = h # xs @ replicate k (- 1 :: int)"
  have occ: "l ! i \<noteq> - 1 \<longleftrightarrow> i \<le> length xs" if "1 \<le> i" "i < m + 1" for i
    using nth_slots [of i xs k h] assms that by (simp add: l_def)
  show ?thesis
  proof (cases "k = 0")
    case True
    with occ assms(2) have "first_pos (\<lambda>i. l ! i = - 1) 1 (m + 1) = None"
      unfolding first_pos_None by auto
    with True show ?thesis by (simp add: l_def)
  next
    case False
    have "l ! Suc (length xs) = - 1" using occ [of "Suc (length xs)"] False assms(2) by simp
    with occ False assms(2) have "first_pos (\<lambda>i. l ! i = - 1) 1 (m + 1) = Some (Suc (length xs))"
      unfolding first_pos_Some by auto
    with False show ?thesis by (simp add: l_def)
  qed
qed

lemma last_used_slot:
  assumes "- 1 \<notin> set xs" and "length xs + k = m"
  shows "last_pos (\<lambda>i. (h # xs @ replicate k (- 1 :: int)) ! i \<noteq> - 1) (m + 1) =
    (if xs = [] then None else Some (length xs))"
proof -
  define l where "l = h # xs @ replicate k (- 1 :: int)"
  have occ: "l ! i \<noteq> - 1 \<longleftrightarrow> i \<le> length xs" if "0 < i" "i < m + 1" for i
    using nth_slots [of i xs k h] assms that by (simp add: l_def)
  show ?thesis
  proof (cases "xs = []")
    case True
    with occ have "last_pos (\<lambda>i. l ! i \<noteq> - 1) (m + 1) = None"
      unfolding last_pos_None by auto
    with True show ?thesis by (simp add: l_def)
  next
    case False
    then have "0 < length xs" by simp
    with occ assms(2) have "last_pos (\<lambda>i. l ! i \<noteq> - 1) (m + 1) = Some (length xs)"
      unfolding last_pos_Some by auto
    with False show ?thesis by (simp add: l_def)
  qed
qed

lemma push_slots:
  assumes "- 1 \<notin> set xs" and "length xs + k = MAX_CRT_PER_THREAD"
  shows "push_back_to_list (h # xs @ replicate k (- 1)) NSLOT x =
    (case k of 0 \<Rightarrow> (h # xs, None)
     | Suc k' \<Rightarrow> (h # (xs @ [x]) @ replicate k' (- 1), Some (Suc (length xs))))"
  using first_free_slot [OF assms, of h]
  by (cases k) (simp_all add: push_back_to_list_def list_update_append NSLOT_def)

lemma pop_slots:
  assumes "- 1 \<notin> set (xs @ [x])" and "length (xs @ [x]) + k = MAX_CRT_PER_THREAD"
  shows "pop_back_from_list (h # (xs @ [x]) @ replicate k (- 1)) NSLOT =
    (h # xs @ replicate (Suc k) (- 1), Some (x, Suc (length xs)))"
  using last_used_slot [OF assms, of h]
  by (simp add: pop_back_from_list_def list_update_append nth_append NSLOT_def)

lemma pop_no_slots:
  assumes "k = MAX_CRT_PER_THREAD"
  shows "pop_back_from_list (h # replicate k (- 1)) NSLOT = (h # replicate k (- 1), None)"
  using last_used_slot [of "[]" k MAX_CRT_PER_THREAD h] assms
  by (simp add: pop_back_from_list_def NSLOT_def)

interpretation slots: bounded_stack "\<lambda>l. push_back_to_list l NSLOT" "\<lambda>l. pop_back_from_list l NSLOT"
  items slot_inv "\<lambda>x. x \<noteq> - 1" MAX_CRT_PER_THREAD
proof (unfold_locales, goal_cases)
  case (1 q x)
  then obtain h xs k where q: "q = h # xs @ replicate k (- 1)" "- 1 \<notin> set xs" "items q = xs"
      "length xs + k = MAX_CRT_PER_THREAD" by (elim slot_inv_decomp)
  with 1 obtain k' where "k = Suc k'" by (cases k) auto
  with q 1 show ?case
    using slot_invI [OF refl, of "xs @ [x]" k' h] push_slots [of xs k h x] by simp
next
  case (2 q x)
  then obtain h xs k where q: "q = h # xs @ replicate k (- 1)" "- 1 \<notin> set xs" "items q = xs"
      "length xs + k = MAX_CRT_PER_THREAD" by (elim slot_inv_decomp)
  with 2 show ?case using push_slots [of xs k h x] by simp
next
  case (3 q)
  then obtain h xs k where q: "q = h # xs @ replicate k (- 1)" "- 1 \<notin> set xs" "items q = xs"
      "length xs + k = MAX_CRT_PER_THREAD" by (elim slot_inv_decomp)
  with 3 obtain ys x where "xs = ys @ [x]" by (metis append_butlast_last_id)
  with q show ?case using pop_slots [of ys x k h] slot_invI [of _ h ys "Suc k"] by auto
next
  case (4 q)
  then show ?case using pop_no_slots [OF refl] by (elim slot_inv_decomp) simp
next
  case (5 q q' x p)
  then obtain h xs k where q: "q = h # xs @ replicate k (- 1)" "- 1 \<notin> set xs" "items q = xs"
      "length xs + k = MAX_CRT_PER_THREAD" by (elim slot_inv_decomp)
  show ?case
  proof (cases "xs = []")
    case True
    with 5 q show ?thesis using pop_no_slots [of k h] by simp
  next
    case False
    then obtain ys y where "xs = ys @ [y]" by (metis append_butlast_last_id)
    with 5 q show ?thesis using pop_slots [of ys y k h] push_slots [of ys "Suc k" h y] by auto
  qed
next
  case (6 q x)
  then show ?case using items_no_free by metis
next
  case (7 q)
  then show ?case by (elim slot_inv_decomp) simp
qed

text \<open>
  C28. The rollback of \<open>realloc_scav\<close>: on a packed index list, pushing back the entry that was
  just popped restores the list exactly, in the slot it came from (so the slot's yield context
  and register set still belong to it).
\<close>

theorem popped_entry_rolls_back:
  assumes "slot_inv l" and "pop_back_from_list l NSLOT = (l', Some (x, p))"
  shows "push_back_to_list l' NSLOT x = (l, Some p)"
  using assms by (rule slots.push_back_popped)

theorem popped_entry_rolls_back_witness:
  "let l = - 1 # [7, 9] @ replicate 126 (- 1) in
   slot_inv l \<and> pop_back_from_list l NSLOT = (- 1 # [7] @ replicate 127 (- 1), Some (9, 2)) \<and>
   push_back_to_list (- 1 # [7] @ replicate 127 (- 1)) NSLOT 9 = (l, Some 2)"
proof -
  let ?l = "- 1 # [7, 9] @ replicate 126 (- 1) :: int list"
  have s: "slot_inv ?l"
    using slot_invI [OF refl, of "[7, 9]" 126 "- 1"] by (simp add: capacities)
  have p: "pop_back_from_list ?l NSLOT = (- 1 # [7] @ replicate 127 (- 1), Some (9, 2))"
    using pop_slots [of "[7]" 9 126 "- 1"] by (simp add: capacities eval_nat_numeral)
  show ?thesis using s p popped_entry_rolls_back [OF s p] by (simp add: Let_def)
qed

end
