(* ===== verification/Spinlock.thy ===== *)
theory Spinlock
  imports Prelude
begin

text \<open>
  \<open>libmsh/spinlock.h\<close>: the test-and-set lock that guards the scavenger table. First the
  operations as one thread runs them alone, then the same operations as interleaved atomic steps
  of any number of threads: \<open>xchgb\<close> is one step, each read of the lock byte in the inner loop
  is one step, the releasing store is one step.
\<close>

section \<open>The operations\<close>

type_synonym spinlock = "8 word"

definition BUSY :: spinlock where "BUSY = 1"
definition SPINLOCK_INITIALIZER :: spinlock where "SPINLOCK_INITIALIZER = 0"

text \<open>\<open>xchgb\<close> swaps the byte in memory with the register: the old byte is the result.\<close>

definition xchg_8 :: "spinlock \<Rightarrow> spinlock \<Rightarrow> spinlock \<times> spinlock" where
  "xchg_8 mem x = (mem, x)"

text \<open>
  Run by one thread alone, \<open>spin_lock\<close> returns with the lock taken when the exchange yields 0;
  otherwise it stays in \<open>while (*lock)\<close>, because nobody else stores to the lock.
\<close>

definition spin_lock :: "spinlock \<Rightarrow> spinlock res" where
  "spin_lock lock = (let (old, new) = xchg_8 lock BUSY in if old = 0 then Inr new else Inl Spinning)"

definition spin_unlock :: "spinlock \<Rightarrow> spinlock" where
  "spin_unlock lock = 0"

definition spin_trylock :: "spinlock \<Rightarrow> spinlock \<times> spinlock" where
  "spin_trylock lock = xchg_8 lock BUSY"

lemma spin_lock_free [simp]: "spin_lock 0 = Inr BUSY"
  by (simp add: spin_lock_def xchg_8_def)

lemma spin_lock_eq_Inr: "spin_lock l = Inr l' \<longleftrightarrow> l = 0 \<and> l' = BUSY"
  by (auto simp: spin_lock_def xchg_8_def)

section \<open>Interleaved threads\<close>

text \<open>
  Where a thread is: outside, about to exchange, in the inner wait loop, or holding the lock.
\<close>

datatype lock_pc = Outside | Exchange | Wait | Holding

record lock_sys =
  lock_byte :: spinlock
  pcs :: "nat \<Rightarrow> lock_pc"

inductive lock_step :: "lock_sys \<Rightarrow> lock_sys \<Rightarrow> bool" where
  call: "pcs s i = Outside \<Longrightarrow> lock_step s (s\<lparr>pcs := (pcs s)(i := Exchange)\<rparr>)"
| xchg: "pcs s i = Exchange \<Longrightarrow> xchg_8 (lock_byte s) BUSY = (old, new) \<Longrightarrow>
    lock_step s (s\<lparr>lock_byte := new, pcs := (pcs s)(i := (if old = 0 then Holding else Wait))\<rparr>)"
| relax: "pcs s i = Wait \<Longrightarrow> lock_byte s \<noteq> 0 \<Longrightarrow> lock_step s s"
| retry: "pcs s i = Wait \<Longrightarrow> lock_byte s = 0 \<Longrightarrow>
    lock_step s (s\<lparr>pcs := (pcs s)(i := Exchange)\<rparr>)"
| unlock: "pcs s i = Holding \<Longrightarrow>
    lock_step s (s\<lparr>lock_byte := spin_unlock (lock_byte s), pcs := (pcs s)(i := Outside)\<rparr>)"

definition lock_start :: "lock_sys \<Rightarrow> bool" where
  "lock_start s \<longleftrightarrow> lock_byte s = SPINLOCK_INITIALIZER \<and> (\<forall>i. pcs s i = Outside)"

text \<open>The byte is busy exactly while one thread holds the lock.\<close>

definition lock_inv :: "lock_sys \<Rightarrow> bool" where
  "lock_inv s \<longleftrightarrow> (lock_byte s = 0 \<longrightarrow> (\<forall>i. pcs s i \<noteq> Holding)) \<and>
     (lock_byte s \<noteq> 0 \<longrightarrow> lock_byte s = BUSY \<and> (\<exists>i. pcs s i = Holding)) \<and>
     (\<forall>i j. pcs s i = Holding \<longrightarrow> pcs s j = Holding \<longrightarrow> i = j)"

text \<open>A thread that moves between program points outside the critical section changes nothing.\<close>

lemma lock_inv_move:
  assumes "lock_inv s" and "pcs s i \<noteq> Holding" and "p \<noteq> Holding"
  shows "lock_inv (s\<lparr>pcs := (pcs s)(i := p)\<rparr>)"
proof -
  have "pcs (s\<lparr>pcs := (pcs s)(i := p)\<rparr>) k = Holding \<longleftrightarrow> pcs s k = Holding" for k
    using assms(2,3) by simp
  then show ?thesis using assms(1) unfolding lock_inv_def by simp
qed

lemma lock_inv_xchg:
  assumes "lock_inv s" and "pcs s i = Exchange" and "xchg_8 (lock_byte s) BUSY = (old, new)"
  shows "lock_inv (s\<lparr>lock_byte := new, pcs := (pcs s)(i := (if old = 0 then Holding else Wait))\<rparr>)"
proof (cases "lock_byte s = 0")
  case True
  with assms show ?thesis by (auto simp: lock_inv_def xchg_8_def BUSY_def)
next
  case False
  with assms have "new = lock_byte s" "old \<noteq> 0" by (auto simp: lock_inv_def xchg_8_def)
  then show ?thesis using lock_inv_move [OF assms(1), of i Wait] assms(2) by simp
qed

lemma lock_inv_unlock:
  assumes "lock_inv s" and "pcs s i = Holding"
  shows "lock_inv (s\<lparr>lock_byte := spin_unlock (lock_byte s), pcs := (pcs s)(i := Outside)\<rparr>)"
  using assms by (auto simp: lock_inv_def spin_unlock_def)

lemma lock_inv_step: "lock_step s t \<Longrightarrow> lock_inv s \<Longrightarrow> lock_inv t"
  by (induction rule: lock_step.induct)
    (simp_all add: lock_inv_move lock_inv_xchg lock_inv_unlock)

interpretation spin: inv_system lock_start lock_step lock_inv
proof unfold_locales
  show "lock_inv s" if "lock_start s" for s
    using that by (simp add: lock_start_def SPINLOCK_INITIALIZER_def lock_inv_def)
  show "lock_inv t" if "lock_inv s" and "lock_step s t" for s t
    using that(2,1) by (rule lock_inv_step)
qed

text \<open>
  C8. Mutual exclusion: however the threads interleave, two threads never hold the spinlock at
  the same time.
\<close>

theorem spinlock_mutual_exclusion:
  assumes "lock_start s" and "lock_step\<^sup>*\<^sup>* s t"
    and "pcs t i = Holding" and "pcs t j = Holding"
  shows "i = j"
  using spin.inv_reachable [OF assms(1,2)] assms(3,4)
  by (auto simp: lock_inv_def split: if_splits)

definition two_callers :: "lock_sys" where
  "two_callers = \<lparr>lock_byte = 0, pcs = (\<lambda>_. Outside)\<rparr>"

definition one_holder :: "lock_sys" where
  "one_holder = \<lparr>lock_byte = BUSY, pcs = (\<lambda>_. Outside)(0 := Holding)\<rparr>"

lemma one_holder_reachable: "lock_step\<^sup>*\<^sup>* two_callers one_holder"
proof -
  let ?m = "\<lparr>lock_byte = 0, pcs = (\<lambda>_. Outside)(0 := Exchange)\<rparr>"
  have "lock_step two_callers ?m"
    using lock_step.call [of two_callers 0] by (simp add: two_callers_def)
  moreover have "lock_step ?m one_holder"
    using lock_step.xchg [of ?m 0] by (simp add: one_holder_def xchg_8_def)
  ultimately show ?thesis by auto
qed

theorem spinlock_mutual_exclusion_witness:
  "lock_start two_callers \<and> lock_step\<^sup>*\<^sup>* two_callers one_holder \<and>
   {j. pcs one_holder j = Holding} = {0}"
proof -
  have s: "lock_start two_callers"
    by (simp add: lock_start_def two_callers_def SPINLOCK_INITIALIZER_def)
  have h: "pcs one_holder 0 = Holding" by (simp add: one_holder_def)
  show ?thesis
    using s h one_holder_reachable spinlock_mutual_exclusion [OF s one_holder_reachable h] by blast
qed

section \<open>Progress\<close>

lemma exchange_acquires:
  assumes "pcs s i = Exchange" and "lock_byte s = 0"
  shows "\<exists>u. lock_step s u \<and> pcs u i = Holding"
  using lock_step.xchg [OF assms(1), of 0 BUSY] assms(2) by (fastforce simp: xchg_8_def)

lemma waiter_acquires_free:
  assumes "pcs s i \<in> {Exchange, Wait}" and "lock_byte s = 0"
  shows "\<exists>u. lock_step\<^sup>*\<^sup>* s u \<and> pcs u i = Holding"
proof (cases "pcs s i = Exchange")
  case True
  then show ?thesis using exchange_acquires assms(2) by blast
next
  case False
  with assms have w: "pcs s i = Wait" by simp
  let ?m = "s\<lparr>pcs := (pcs s)(i := Exchange)\<rparr>"
  have "lock_step s ?m" using w assms(2) by (rule lock_step.retry)
  moreover obtain u where "lock_step ?m u" "pcs u i = Holding"
    using exchange_acquires [of ?m i] assms(2) by auto
  ultimately show ?thesis by (meson converse_rtranclp_into_rtranclp r_into_rtranclp)
qed

text \<open>
  C29. No deadlock: from every reachable state a thread that has called \<open>spin_lock\<close> can still
  get the lock (if it is taken, its holder's release enables the waiter).
\<close>

theorem spinlock_waiter_can_acquire:
  assumes "lock_start s" and "lock_step\<^sup>*\<^sup>* s t" and "pcs t i \<in> {Exchange, Wait}"
  shows "\<exists>u. lock_step\<^sup>*\<^sup>* t u \<and> pcs u i = Holding"
proof (cases "lock_byte t = 0")
  case True
  then show ?thesis using assms(3) waiter_acquires_free by blast
next
  case False
  with spin.inv_reachable [OF assms(1,2)] obtain h where h: "pcs t h = Holding"
    by (auto simp: lock_inv_def)
  let ?m = "t\<lparr>lock_byte := spin_unlock (lock_byte t), pcs := (pcs t)(h := Outside)\<rparr>"
  have "lock_step t ?m" using h by (rule lock_step.unlock)
  moreover obtain u where "lock_step\<^sup>*\<^sup>* ?m u" "pcs u i = Holding"
    using waiter_acquires_free [of ?m i] assms(3) h by (cases "i = h") (auto simp: spin_unlock_def)
  ultimately show ?thesis by (meson converse_rtranclp_into_rtranclp)
qed

theorem spinlock_waiter_can_acquire_witness:
  "lock_start two_callers \<and>
   (let t = two_callers\<lparr>pcs := (\<lambda>_. Outside)(0 := Exchange)\<rparr>
    in lock_step\<^sup>*\<^sup>* two_callers t \<and> (\<exists>u. lock_step\<^sup>*\<^sup>* t u \<and> pcs u 0 = Holding))"
proof -
  let ?t = "two_callers\<lparr>pcs := (\<lambda>_. Outside)(0 := Exchange)\<rparr>"
  have s: "lock_start two_callers"
    by (simp add: lock_start_def two_callers_def SPINLOCK_INITIALIZER_def)
  have r: "lock_step\<^sup>*\<^sup>* two_callers ?t"
    using lock_step.call [of two_callers 0] by (auto simp: two_callers_def)
  have p: "pcs ?t 0 \<in> {Exchange, Wait}" by simp
  show ?thesis using s r spinlock_waiter_can_acquire [OF s r p] by (simp add: Let_def)
qed

text \<open>\<open>spin_trylock\<close> answers 0 exactly when it took the lock, and never frees a taken one.\<close>

lemma spin_trylock_spec:
  "spin_trylock l = (old, l') \<Longrightarrow> l' = BUSY \<and> (old = 0 \<longleftrightarrow> l = 0)"
  by (auto simp: spin_trylock_def xchg_8_def)

end
