(* ===== verification/Runtime_State.thy ===== *)
theory Runtime_State
  imports Index_List Spinlock
begin

text \<open>
  The state of the runtime: the static tables and variables of \<open>libmsh/msh.c\<close>, the memory of the
  scavengers' exported symbols, the code the runtime calls but does not contain (dynamic linker,
  \<open>wordexp\<close>, files, environment, a scavenger's \<open>init\<close>), and the access macros. The second half
  states how the tables fit together (\<open>shape\<close>) and relates the index lists to the scavenger
  table (\<open>coherent\<close>).
\<close>

section \<open>The state\<close>

text \<open>
  What \<open>dlsym\<close> finds in a scavenger's shared object: the variables that the runtime writes. They
  are keyed by the library handle, because two table entries loaded from one file get one handle.
\<close>

record lib_syms =
  sym_argc :: int
  sym_argv :: "string list"
  sym_crt_pos :: int
  sym_loop_counter_loc :: int

text \<open>
  \<open>cleanup_jmpbuf\<close> records for which threads \<open>setjmp\<close> has filled the buffer. A store through
  \<open>SCAV_TABLE[i]\<close> with \<open>i\<close> outside the table does not touch any variable of this record; it is
  noted in \<open>stray_writes\<close>.
\<close>

record msh_state =
  SCAV_TABLE :: "coroutine_ctx list"
  PRIM_TABLE :: "primary_thread_ctx list"
  scav_table_lock :: spinlock
  dummy :: bool
  finished_scav_cnt :: int
  max_scav_per_thread :: int
  scav_pool_path :: string
  cleanup_jmpbuf :: "nat \<Rightarrow> bool"
  libs :: "handle \<Rightarrow> lib_syms"
  stray_writes :: "int list"

text \<open>
  Code outside the repository. \<open>dlsym\<close> is \<open>None\<close> where \<open>dlerror\<close> reports an error;
  \<open>wordexp\<close> is \<open>None\<close> where it fails; \<open>fopen\<close> gives a file's contents; \<open>run_init\<close> is the effect of
  a scavenger's \<open>init\<close> function, called at a position of a thread, on that thread's context.
  \<open>run_scav\<close> is what a scavenger that is run to completion at a position leaves in the memory its
  instrumented code writes there: stack and instruction pointer, saved registers and loop counter of
  that position. The last fields are addresses the linker chooses.
\<close>

record env =
  dlopen :: "string option \<Rightarrow> handle option"
  dlsym :: "handle \<Rightarrow> string \<Rightarrow> 64 word option"
  wordexp :: "string \<Rightarrow> string list option"
  fopen :: "string \<Rightarrow> string option"
  getenv :: "string \<Rightarrow> string option"
  run_init :: "64 word \<Rightarrow> nat \<Rightarrow> primary_thread_ctx \<Rightarrow> primary_thread_ctx"
  run_scav :: "handle \<Rightarrow> nat \<Rightarrow> primary_thread_ctx \<Rightarrow>
    64 word \<times> 64 word \<times> x86_registers list \<times> 8 word list"
  scav_base :: "64 word"
  prim_base :: "64 word"
  ret_to_scheduler_addr :: "64 word"

definition zero_state :: msh_state where
  "zero_state = \<lparr>SCAV_TABLE = replicate MAX_ACTIVE_CRT_NUM_PER_APPLICATION zero_coroutine_ctx,
     PRIM_TABLE = replicate MAX_THREAD_NUM zero_primary_thread_ctx,
     scav_table_lock = SPINLOCK_INITIALIZER, dummy = False, finished_scav_cnt = 0,
     max_scav_per_thread = 1, scav_pool_path = [], cleanup_jmpbuf = (\<lambda>_. False),
     libs = (\<lambda>_. \<lparr>sym_argc = 0, sym_argv = [], sym_crt_pos = 0, sym_loop_counter_loc = 0\<rparr>),
     stray_writes = []\<rparr>"

section \<open>Access\<close>

abbreviation prim :: "msh_state \<Rightarrow> nat \<Rightarrow> primary_thread_ctx" where
  "prim s t \<equiv> PRIM_TABLE s ! t"

definition prim_upd ::
  "nat \<Rightarrow> (primary_thread_ctx \<Rightarrow> primary_thread_ctx) \<Rightarrow> msh_state \<Rightarrow> msh_state" where
  "prim_upd t f s = s\<lparr>PRIM_TABLE := (PRIM_TABLE s)[t := f (prim s t)]\<rparr>"

text \<open>\<open>tl_yield_ctx_at(pos)\<close> for the thread whose context \<open>%gs\<close> points to.\<close>

definition tl_yield_ctx_at :: "msh_state \<Rightarrow> nat \<Rightarrow> nat \<Rightarrow> yield_ctx" where
  "tl_yield_ctx_at s t pos = ycs (prim s t) ! pos"

definition yc_upd :: "nat \<Rightarrow> nat \<Rightarrow> (yield_ctx \<Rightarrow> yield_ctx) \<Rightarrow> msh_state \<Rightarrow> msh_state" where
  "yc_upd t pos f = prim_upd t (\<lambda>c. c\<lparr>ycs := (ycs c)[pos := f (ycs c ! pos)]\<rparr>)"

text \<open>
  \<open>tl_get_crt_idx_at(pos)\<close>. One entry behind the end of \<open>idx_list\<close> is the field \<open>scav_num\<close>
  (lemma \<open>shared_layout\<close>), which is what reading position \<open>MAX_CRT_PER_THREAD + 1\<close> yields.
\<close>

definition tl_get_crt_idx_at :: "msh_state \<Rightarrow> nat \<Rightarrow> nat \<Rightarrow> int" where
  "tl_get_crt_idx_at s t pos =
     (if pos = NSLOT then scav_num (prim s t) else idx_list (prim s t) ! pos)"

definition tl_set_crt_id_at :: "nat \<Rightarrow> nat \<Rightarrow> int \<Rightarrow> msh_state \<Rightarrow> msh_state" where
  "tl_set_crt_id_at t pos val = prim_upd t (\<lambda>c. c\<lparr>idx_list := (idx_list c)[pos := val]\<rparr>)"

definition scav_in_range :: "int \<Rightarrow> bool" where
  "scav_in_range i \<longleftrightarrow> 0 \<le> i \<and> i < int MAX_ACTIVE_CRT_NUM_PER_APPLICATION"

abbreviation scav :: "msh_state \<Rightarrow> int \<Rightarrow> coroutine_ctx" where
  "scav s i \<equiv> SCAV_TABLE s ! nat i"

definition scav_get :: "msh_state \<Rightarrow> int \<Rightarrow> coroutine_ctx res" where
  "scav_get s i = (if scav_in_range i then Inr (scav s i) else Inl OutOfBounds)"

definition scav_upd :: "int \<Rightarrow> (coroutine_ctx \<Rightarrow> coroutine_ctx) \<Rightarrow> msh_state \<Rightarrow> msh_state" where
  "scav_upd i f s =
     (if scav_in_range i then s\<lparr>SCAV_TABLE := (SCAV_TABLE s)[nat i := f (scav s i)]\<rparr>
      else s\<lparr>stray_writes := stray_writes s @ [i]\<rparr>)"

definition lib_upd :: "handle \<Rightarrow> (lib_syms \<Rightarrow> lib_syms) \<Rightarrow> msh_state \<Rightarrow> msh_state" where
  "lib_upd h f s = s\<lparr>libs := (libs s)(h := f (libs s h))\<rparr>"

definition lock_scav_table :: "msh_state \<Rightarrow> msh_state res" where
  "lock_scav_table s = bindR (spin_lock (scav_table_lock s)) (\<lambda>l. Inr (s\<lparr>scav_table_lock := l\<rparr>))"

definition unlock_scav_table :: "msh_state \<Rightarrow> msh_state" where
  "unlock_scav_table s = s\<lparr>scav_table_lock := spin_unlock (scav_table_lock s)\<rparr>"

lemma lock_scav_table_free:
  "scav_table_lock s = 0 \<Longrightarrow> lock_scav_table s = Inr (s\<lparr>scav_table_lock := BUSY\<rparr>)"
  by (simp add: lock_scav_table_def)

section \<open>Shape of the tables\<close>

definition prim_shape :: "primary_thread_ctx \<Rightarrow> bool" where
  "prim_shape c \<longleftrightarrow> length (ycs c) = NSLOT \<and> length (loop_counter c) = NSLOT \<and>
     length (regs c) = NSLOT \<and> length (idx_list c) = NSLOT"

definition shape :: "msh_state \<Rightarrow> bool" where
  "shape s \<longleftrightarrow> length (SCAV_TABLE s) = MAX_ACTIVE_CRT_NUM_PER_APPLICATION \<and>
     length (PRIM_TABLE s) = MAX_THREAD_NUM \<and> (\<forall>t < MAX_THREAD_NUM. prim_shape (prim s t))"

lemma shapeD:
  assumes "shape s"
  shows "length (SCAV_TABLE s) = MAX_ACTIVE_CRT_NUM_PER_APPLICATION"
    "length (PRIM_TABLE s) = MAX_THREAD_NUM"
    "t < MAX_THREAD_NUM \<Longrightarrow> prim_shape (prim s t)"
  using assms by (auto simp: shape_def)

lemma zero_state_shape: "shape zero_state"
  by (simp add: shape_def zero_state_def prim_shape_def zero_primary_thread_ctx_def)

text \<open>A context update that keeps the lengths keeps the shape; the rest of the state is framed.\<close>

lemma prim_upd_simps [simp]:
  "SCAV_TABLE (prim_upd t f s) = SCAV_TABLE s"
  "scav_table_lock (prim_upd t f s) = scav_table_lock s"
  "dummy (prim_upd t f s) = dummy s"
  "finished_scav_cnt (prim_upd t f s) = finished_scav_cnt s"
  "max_scav_per_thread (prim_upd t f s) = max_scav_per_thread s"
  "scav_pool_path (prim_upd t f s) = scav_pool_path s"
  "cleanup_jmpbuf (prim_upd t f s) = cleanup_jmpbuf s"
  "libs (prim_upd t f s) = libs s"
  "stray_writes (prim_upd t f s) = stray_writes s"
  "length (PRIM_TABLE (prim_upd t f s)) = length (PRIM_TABLE s)"
  by (simp_all add: prim_upd_def)

lemma prim_prim_upd:
  "shape s \<Longrightarrow> t < MAX_THREAD_NUM \<Longrightarrow>
   prim (prim_upd t f s) u = (if u = t then f (prim s t) else prim s u)"
  by (simp add: prim_upd_def shape_def nth_list_update)

lemma shape_prim_upd:
  "shape s \<Longrightarrow> t < MAX_THREAD_NUM \<Longrightarrow> prim_shape (f (prim s t)) \<Longrightarrow> shape (prim_upd t f s)"
  using prim_prim_upd [of s t f] by (simp add: shape_def)

lemma scav_upd_simps [simp]:
  "PRIM_TABLE (scav_upd i f s) = PRIM_TABLE s"
  "scav_table_lock (scav_upd i f s) = scav_table_lock s"
  "dummy (scav_upd i f s) = dummy s"
  "finished_scav_cnt (scav_upd i f s) = finished_scav_cnt s"
  "max_scav_per_thread (scav_upd i f s) = max_scav_per_thread s"
  "cleanup_jmpbuf (scav_upd i f s) = cleanup_jmpbuf s"
  "libs (scav_upd i f s) = libs s"
  "length (SCAV_TABLE (scav_upd i f s)) = length (SCAV_TABLE s)"
  by (simp_all add: scav_upd_def)

lemma shape_scav_upd [simp]: "shape (scav_upd i f s) = shape s"
  by (simp add: shape_def)

lemma scav_scav_upd:
  "shape s \<Longrightarrow> scav_in_range i \<Longrightarrow> scav_in_range j \<Longrightarrow>
   scav (scav_upd i f s) j = (if j = i then f (scav s i) else scav s j)"
  by (auto simp: scav_upd_def shape_def scav_in_range_def nth_list_update)

lemma stray_scav_upd:
  "stray_writes (scav_upd i f s) = (if scav_in_range i then stray_writes s else stray_writes s @ [i])"
  by (simp add: scav_upd_def)

lemma lib_upd_simps [simp]:
  "PRIM_TABLE (lib_upd h f s) = PRIM_TABLE s"
  "SCAV_TABLE (lib_upd h f s) = SCAV_TABLE s"
  "scav_table_lock (lib_upd h f s) = scav_table_lock s"
  "dummy (lib_upd h f s) = dummy s"
  "finished_scav_cnt (lib_upd h f s) = finished_scav_cnt s"
  "max_scav_per_thread (lib_upd h f s) = max_scav_per_thread s"
  "cleanup_jmpbuf (lib_upd h f s) = cleanup_jmpbuf s"
  "stray_writes (lib_upd h f s) = stray_writes s"
  "libs (lib_upd h f s) = (libs s)(h := f (libs s h))"
  "shape (lib_upd h f s) = shape s"
  by (simp_all add: lib_upd_def shape_def)

lemma shape_lock [simp]: "shape (s\<lparr>scav_table_lock := l\<rparr>) = shape s"
  by (simp add: shape_def)

end
