(* ===== verification/Hosting.thy ===== *)
theory Hosting
  imports Runtime_State
begin

text \<open>
  The abstract specification of scavenger management: which scavenger sits at which slot of which
  primary thread, which slots are live, which scavengers have finished. The concrete tables keep
  this information twice (the index lists of the threads and the \<open>yc\<close> pointers of the
  scavenger table) and a third time in the \<open>normal_next\<close> markers; \<open>coherent\<close> says that the
  three agree, and \<open>abs\<close> reads the specification state off the concrete one. The operations of
  the runtime refine \<open>assign\<close>, \<open>release\<close> and \<open>move\<close>.
\<close>

section \<open>Specification state and operations\<close>

record hosting =
  slot_idx :: "nat \<Rightarrow> nat \<Rightarrow> int"
  slot_live :: "nat \<Rightarrow> nat \<Rightarrow> bool"
  host :: "int \<Rightarrow> (nat \<times> nat) option"
  gone :: "int \<Rightarrow> bool"
  linked :: "int \<Rightarrow> bool"

definition upd2 :: "(nat \<Rightarrow> nat \<Rightarrow> 'a) \<Rightarrow> nat \<Rightarrow> nat \<Rightarrow> 'a \<Rightarrow> nat \<Rightarrow> nat \<Rightarrow> 'a" where
  "upd2 f t p v = f(t := (f t)(p := v))"

lemma upd2_apply [simp]: "upd2 f t p v u q = (if u = t \<and> q = p then v else f u q)"
  by (simp add: upd2_def)

definition assign :: "int \<Rightarrow> nat \<Rightarrow> nat \<Rightarrow> hosting \<Rightarrow> hosting" where
  "assign i t p h = h\<lparr>slot_idx := upd2 (slot_idx h) t p i, slot_live := upd2 (slot_live h) t p True,
     host := (host h)(i := Some (t, p))\<rparr>"

definition release :: "nat \<Rightarrow> nat \<Rightarrow> hosting \<Rightarrow> hosting" where
  "release t p h = (let i = slot_idx h t p in
     h\<lparr>slot_idx := upd2 (slot_idx h) t p (- 1), slot_live := upd2 (slot_live h) t p False,
       host := (host h)(i := None), gone := (gone h)(i := True)\<rparr>)"

definition move :: "nat \<Rightarrow> nat \<Rightarrow> nat \<Rightarrow> nat \<Rightarrow> hosting \<Rightarrow> hosting" where
  "move t p u q h = (let i = slot_idx h t p in
     h\<lparr>slot_idx := upd2 (upd2 (slot_idx h) t p (- 1)) u q i,
       slot_live := upd2 (upd2 (slot_live h) t p False) u q True,
       host := (host h)(i := Some (u, q))\<rparr>)"

section \<open>Coherence\<close>

abbreviation slot :: "nat \<Rightarrow> nat \<Rightarrow> bool" where
  "slot t p \<equiv> t < MAX_THREAD_NUM \<and> 0 < p \<and> p < NSLOT"

definition coherent :: "hosting \<Rightarrow> bool" where
  "coherent h \<longleftrightarrow>
     (\<forall>t < MAX_THREAD_NUM. slot_idx h t 0 = - 1) \<and>
     (\<forall>t p. slot t p \<longrightarrow> slot_idx h t p \<noteq> - 1 \<longrightarrow>
        scav_in_range (slot_idx h t p) \<and> host h (slot_idx h t p) = Some (t, p) \<and>
        \<not> gone h (slot_idx h t p) \<and> linked h (slot_idx h t p)) \<and>
     (\<forall>i t p. scav_in_range i \<longrightarrow> host h i = Some (t, p) \<longrightarrow> slot t p \<and> slot_idx h t p = i) \<and>
     (\<forall>t p. slot t p \<longrightarrow> (slot_live h t p \<longleftrightarrow> slot_idx h t p \<noteq> - 1))"

lemma coherentD:
  assumes "coherent h"
  shows "t < MAX_THREAD_NUM \<Longrightarrow> slot_idx h t 0 = - 1"
    and "slot t p \<Longrightarrow> slot_idx h t p \<noteq> - 1 \<Longrightarrow> scav_in_range (slot_idx h t p)"
    and "slot t p \<Longrightarrow> slot_idx h t p \<noteq> - 1 \<Longrightarrow> host h (slot_idx h t p) = Some (t, p)"
    and "slot t p \<Longrightarrow> slot_idx h t p \<noteq> - 1 \<Longrightarrow> \<not> gone h (slot_idx h t p)"
    and "slot t p \<Longrightarrow> slot_idx h t p \<noteq> - 1 \<Longrightarrow> linked h (slot_idx h t p)"
    and "scav_in_range i \<Longrightarrow> host h i = Some (t, p) \<Longrightarrow> slot t p \<and> slot_idx h t p = i"
    and "slot t p \<Longrightarrow> slot_live h t p \<longleftrightarrow> slot_idx h t p \<noteq> - 1"
  using assms unfolding coherent_def by blast+

lemma not_in_range_minus_one [simp]: "\<not> scav_in_range (- 1)"
  by (simp add: scav_in_range_def)

text \<open>A scavenger sits in one slot at most.\<close>

lemma coherent_unique:
  assumes "coherent h" and "slot t p" and "slot u q"
    and "slot_idx h t p = slot_idx h u q" and "slot_idx h t p \<noteq> - 1"
  shows "t = u \<and> p = q"
  using coherentD(3) [OF assms(1,2)] coherentD(3) [OF assms(1,3)] assms(4,5)
  by (metis option.inject prod.inject)

lemma coherentI:
  assumes "\<And>t. t < MAX_THREAD_NUM \<Longrightarrow> slot_idx h t 0 = - 1"
    and "\<And>t p. slot t p \<Longrightarrow> slot_idx h t p \<noteq> - 1 \<Longrightarrow>
      scav_in_range (slot_idx h t p) \<and> host h (slot_idx h t p) = Some (t, p) \<and>
      \<not> gone h (slot_idx h t p) \<and> linked h (slot_idx h t p)"
    and "\<And>i t p. scav_in_range i \<Longrightarrow> host h i = Some (t, p) \<Longrightarrow> slot t p \<and> slot_idx h t p = i"
    and "\<And>t p. slot t p \<Longrightarrow> slot_live h t p \<longleftrightarrow> slot_idx h t p \<noteq> - 1"
  shows "coherent h"
  using assms unfolding coherent_def by blast

lemma coherent_assign:
  assumes "coherent h" and "slot t p" and "slot_idx h t p = - 1"
    and "scav_in_range i" and "host h i = None" and "\<not> gone h i" and "linked h i"
  shows "coherent (assign i t p h)"
proof -
  have "i \<noteq> - 1" using assms(4) by auto
  moreover have "slot_idx h u q \<noteq> i" if "slot u q" for u q
    using coherentD(3) [OF assms(1) that] assms(5) \<open>i \<noteq> - 1\<close> by auto
  ultimately show ?thesis
    using assms unfolding coherent_def assign_def by auto
qed

lemma coherent_release:
  assumes coh: "coherent h" and sl: "slot t p" and occ: "slot_idx h t p \<noteq> - 1"
  shows "coherent (release t p h)"
proof -
  define i where "i = slot_idx h t p"
  have other: "slot_idx h u q \<noteq> i" if "slot u q" "(u, q) \<noteq> (t, p)" for u q
    using coherent_unique [OF coh that(1) sl] that(2) occ i_def by metis
  have at: "slot_idx (release t p h) u q = (if u = t \<and> q = p then - 1 else slot_idx h u q)" for u q
    by (simp add: release_def Let_def)
  show ?thesis
  proof (rule coherentI)
    fix u q assume u: "slot u q" "slot_idx (release t p h) u q \<noteq> - 1"
    then have "(u, q) \<noteq> (t, p)" "slot_idx h u q \<noteq> - 1" by (auto simp: at split: if_splits)
    then show "scav_in_range (slot_idx (release t p h) u q) \<and>
        host (release t p h) (slot_idx (release t p h) u q) = Some (u, q) \<and>
        \<not> gone (release t p h) (slot_idx (release t p h) u q) \<and>
        linked (release t p h) (slot_idx (release t p h) u q)"
      using coherentD [OF coh] u(1) other [of u q] by (auto simp: release_def Let_def i_def)
  next
    fix j u q assume "scav_in_range j" "host (release t p h) j = Some (u, q)"
    then show "slot u q \<and> slot_idx (release t p h) u q = j"
      using coherentD(6) [OF coh, of j u q] by (auto simp: release_def Let_def i_def split: if_splits)
  qed (use coherentD(1,7) [OF coh] sl in \<open>auto simp: release_def Let_def\<close>)
qed

lemma coherent_move:
  assumes coh: "coherent h" and from_slot: "slot t p" and to_slot: "slot u q"
    and occ: "slot_idx h t p \<noteq> - 1" and free: "slot_idx h u q = - 1"
  shows "coherent (move t p u q h)"
proof -
  define i where "i = slot_idx h t p"
  have other: "slot_idx h v r \<noteq> i" if "slot v r" "(v, r) \<noteq> (t, p)" for v r
    using coherent_unique [OF coh that(1) from_slot] that(2) occ i_def by metis
  have ne: "(u, q) \<noteq> (t, p)" using occ free by auto
  have at: "slot_idx (move t p u q h) v r =
      (if (v, r) = (u, q) then i else if (v, r) = (t, p) then - 1 else slot_idx h v r)" for v r
    by (simp add: move_def Let_def i_def)
  have hst: "host (move t p u q h) j = (if j = i then Some (u, q) else host h j)" for j
    by (simp add: move_def Let_def i_def)
  have gl: "gone (move t p u q h) = gone h" "linked (move t p u q h) = linked h"
    by (simp_all add: move_def Let_def)
  show ?thesis
  proof (rule coherentI)
    fix v r assume v: "slot v r" "slot_idx (move t p u q h) v r \<noteq> - 1"
    show "scav_in_range (slot_idx (move t p u q h) v r) \<and>
        host (move t p u q h) (slot_idx (move t p u q h) v r) = Some (v, r) \<and>
        \<not> gone (move t p u q h) (slot_idx (move t p u q h) v r) \<and>
        linked (move t p u q h) (slot_idx (move t p u q h) v r)"
    proof (cases "(v, r) = (u, q)")
      case True
      then show ?thesis
        using coherentD(2,4,5) [OF coh from_slot occ] by (simp add: at hst gl i_def)
    next
      case False
      with v have tp: "(v, r) \<noteq> (t, p)" "slot_idx h v r \<noteq> - 1" by (auto simp: at split: if_splits)
      then have "slot_idx (move t p u q h) v r = slot_idx h v r" using False by (auto simp: at)
      then show ?thesis
        using coherentD(2-5) [OF coh v(1) tp(2)] other [OF v(1) tp(1)] by (simp add: hst gl)
    qed
  next
    fix j v r assume j: "scav_in_range j" "host (move t p u q h) j = Some (v, r)"
    show "slot v r \<and> slot_idx (move t p u q h) v r = j"
    proof (cases "j = i")
      case True
      then show ?thesis using j(2) to_slot at [of u q] by (simp add: hst)
    next
      case False
      then have hj: "slot v r" "slot_idx h v r = j"
        using coherentD(6) [OF coh j(1), of v r] j(2) by (simp_all add: hst)
      then have "(v, r) \<noteq> (u, q)" "(v, r) \<noteq> (t, p)"
        using free j(1) False i_def by auto
      then show ?thesis using hj at [of v r] by auto
    qed
  next
    fix v r assume "slot v r"
    then show "slot_live (move t p u q h) v r \<longleftrightarrow> slot_idx (move t p u q h) v r \<noteq> - 1"
      using coherentD(7) [OF coh] occ by (auto simp: at move_def Let_def i_def)
  qed (use coherentD(1) [OF coh] to_slot in \<open>auto simp: at\<close>)
qed

section \<open>Abstraction\<close>

abbreviation idx_of :: "msh_state \<Rightarrow> nat \<Rightarrow> nat \<Rightarrow> int" where
  "idx_of s t p \<equiv> idx_list (prim s t) ! p"

abbreviation next_of :: "msh_state \<Rightarrow> nat \<Rightarrow> nat \<Rightarrow> int" where
  "next_of s t p \<equiv> normal_next (ycs (prim s t) ! p)"

definition abs :: "env \<Rightarrow> msh_state \<Rightarrow> hosting" where
  "abs E s = \<lparr>slot_idx = (\<lambda>t p. if t < MAX_THREAD_NUM \<and> p < NSLOT then idx_of s t p else - 1),
     slot_live = (\<lambda>t p. slot t p \<and> next_of s t p \<noteq> - 1),
     host = (\<lambda>i. if scav_in_range i then yc (scav s i) else None),
     gone = (\<lambda>i. scav_in_range i \<and> finished (scav s i)),
     linked = (\<lambda>i. scav_in_range i \<and>
       (\<exists>h. lib_handle (scav s i) = Some h \<and> dlsym E h ''crt_pos'' \<noteq> None))\<rparr>"

lemma abs_lock [simp]: "abs E (s\<lparr>scav_table_lock := l\<rparr>) = abs E s"
  by (simp add: abs_def fun_eq_iff)

text \<open>
  The invariant of the runtime between two of its calls: tables of the right size, the three
  representations in agreement (\<open>tables_ok\<close>, which also holds inside a critical section), and the
  table lock free.
\<close>

definition tables_ok :: "env \<Rightarrow> msh_state \<Rightarrow> bool" where
  "tables_ok E s \<longleftrightarrow> shape s \<and> coherent (abs E s)"

definition msh_inv :: "env \<Rightarrow> msh_state \<Rightarrow> bool" where
  "msh_inv E s \<longleftrightarrow> shape s \<and> scav_table_lock s = 0 \<and> coherent (abs E s)"

lemma tables_ok_lock [simp]: "tables_ok E (s\<lparr>scav_table_lock := l\<rparr>) = tables_ok E s"
  by (simp add: tables_ok_def)

lemma msh_inv_tables: "msh_inv E s \<longleftrightarrow> tables_ok E s \<and> scav_table_lock s = 0"
  by (auto simp: msh_inv_def tables_ok_def)

end
