(* ===== verification/Slots.thy ===== *)
theory Slots
  imports Hosting
begin

text \<open>
  The operations of \<open>libmsh/msh.c\<close> on the slots of one primary thread: exchanging two slots,
  finishing a coroutine, the ring of \<open>special_next\<close> links, the \<open>normal_next\<close> of the primary, the
  two searches, and packing. The thread \<open>t\<close> is \<open>msh_tid\<close>; \<open>%gs\<close> points to its context.
\<close>

section \<open>Operations\<close>

subsection \<open>Exchanging two slots\<close>

text \<open>
  The loop that redirects links compares \<open>normal_next\<close> with the positions themselves, and the
  exported \<open>crt_pos\<close> is set to the position.
\<close>

definition redirect :: "nat \<Rightarrow> nat \<Rightarrow> yield_ctx \<Rightarrow> yield_ctx" where
  "redirect a b y =
     (if normal_next y = int a then y\<lparr>normal_next := to_short (int b)\<rparr>
      else if normal_next y = int b then y\<lparr>normal_next := to_short (int a)\<rparr> else y)"

definition set_crt_pos_symbol :: "env \<Rightarrow> int \<Rightarrow> nat \<Rightarrow> msh_state \<Rightarrow> msh_state res" where
  "set_crt_pos_symbol E idx pos s =
     (if idx = - 1 then Inr s
      else bindR (scav_get s idx) (\<lambda>c.
        case lib_handle c of
          None \<Rightarrow> Inl AssertionFailed
        | Some h \<Rightarrow> (case dlsym E h ''crt_pos'' of
              None \<Rightarrow> Inl NullPointer
            | Some _ \<Rightarrow> Inr (lib_upd h (\<lambda>l. l\<lparr>sym_crt_pos := int pos\<rparr>) s))))"

definition tl_swap_crts :: "env \<Rightarrow> nat \<Rightarrow> nat \<Rightarrow> nat \<Rightarrow> msh_state \<Rightarrow> msh_state res" where
  "tl_swap_crts E t a_pos b_pos s =
     bindR (lock_scav_table s) (\<lambda>s.
       let a_idx = tl_get_crt_idx_at s t a_pos;
           b_idx = tl_get_crt_idx_at s t b_pos;
           s = tl_set_crt_id_at t a_pos b_idx s;
           s = tl_set_crt_id_at t b_pos a_idx s;
           s = prim_upd t (\<lambda>c. c\<lparr>ycs := swap_nth (ycs c) a_pos b_pos\<rparr>) s;
           s = scav_upd a_idx (\<lambda>x. x\<lparr>yc := Some (t, b_pos)\<rparr>) s;
           s = scav_upd b_idx (\<lambda>x. x\<lparr>yc := Some (t, a_pos)\<rparr>) s;
           s = prim_upd t (\<lambda>c. c\<lparr>ycs := map (redirect a_pos b_pos) (ycs c)\<rparr>) s;
           s = prim_upd t (\<lambda>c. c\<lparr>regs := swap_nth (regs c) a_pos b_pos\<rparr>) s
       in bindR (set_crt_pos_symbol E a_idx b_pos s) (\<lambda>s.
          bindR (set_crt_pos_symbol E b_idx a_pos s) (\<lambda>s.
          Inr (unlock_scav_table s))))"

subsection \<open>Finishing a coroutine\<close>

text \<open>\<open>dlclose\<close> drops the linker's reference to the library; no variable of the state changes.\<close>

definition tl_finish_crt :: "nat \<Rightarrow> nat \<Rightarrow> msh_state \<Rightarrow> msh_state res" where
  "tl_finish_crt t crt_pos s =
     (let crt_idx = tl_get_crt_idx_at s t crt_pos;
          s = yc_upd t crt_pos (\<lambda>y. y\<lparr>normal_next := - 1\<rparr>) s
      in if crt_idx = - 1 then Inr s
         else bindR (lock_scav_table s) (\<lambda>s.
           let s = tl_set_crt_id_at t crt_pos (- 1) s;
               s = scav_upd crt_idx (\<lambda>x. x\<lparr>yc := None\<rparr>) s;
               s = scav_upd crt_idx (\<lambda>x. x\<lparr>finished := True\<rparr>) s
           in bindR (scav_get s crt_idx) (\<lambda>c. Inr (unlock_scav_table s))))"

subsection \<open>Links\<close>

definition special_step :: "nat \<Rightarrow> nat \<Rightarrow> msh_state \<Rightarrow> msh_state" where
  "special_step t pos s =
     (let s = (if pos = MAX_CRT_PER_THREAD then yc_upd t pos (\<lambda>y. y\<lparr>special_next := 0\<rparr>) s else s);
          idx_next = tl_get_crt_idx_at s t (pos + 1)
      in if idx_next = - 1 then yc_upd t pos (\<lambda>y. y\<lparr>special_next := 0\<rparr>) s
         else yc_upd t pos (\<lambda>y. y\<lparr>special_next := offset_of_pos (pos + 1)\<rparr>) s)"

definition set_special_next :: "nat \<Rightarrow> msh_state \<Rightarrow> msh_state" where
  "set_special_next t s = fold (special_step t) [1..<NSLOT] s"

definition tl_next_available_crt :: "msh_state \<Rightarrow> nat \<Rightarrow> nat" where
  "tl_next_available_crt s t =
     (case first_pos (\<lambda>pos. normal_next (ycs (prim s t) ! pos) \<noteq> - 1) 1 NSLOT of
        Some pos \<Rightarrow> pos | None \<Rightarrow> 0)"

definition tl_update_next_map :: "nat \<Rightarrow> msh_state \<Rightarrow> msh_state" where
  "tl_update_next_map t s =
     (if normal_next (ycs (prim s t) ! 0) = - 1 then s
      else yc_upd t 0 (\<lambda>y. y\<lparr>normal_next := offset_of_pos (tl_next_available_crt s t)\<rparr>) s)"

definition tl_find_unfinished_crt :: "msh_state \<Rightarrow> nat \<Rightarrow> nat" where
  "tl_find_unfinished_crt s t =
     (case first_pos (\<lambda>pos. tl_get_crt_idx_at s t pos \<noteq> - 1) 1 NSLOT of
        Some pos \<Rightarrow> pos | None \<Rightarrow> 0)"

subsection \<open>Packing\<close>

definition pack_step :: "env \<Rightarrow> nat \<Rightarrow> nat \<Rightarrow> msh_state \<Rightarrow> msh_state res" where
  "pack_step E t pos s =
     (if tl_get_crt_idx_at s t pos = - 1
      then case first_pos (\<lambda>next_pos. tl_get_crt_idx_at s t next_pos \<noteq> - 1) (pos + 1) NSLOT of
             Some next_pos \<Rightarrow> tl_swap_crts E t pos next_pos s
           | None \<Rightarrow> Inr s
      else Inr s)"

definition tl_pack_crts :: "env \<Rightarrow> nat \<Rightarrow> msh_state \<Rightarrow> msh_state res" where
  "tl_pack_crts E t s =
     (if normal_next (tl_yield_ctx_at s t 0) = - 1 then Inr s
      else bindR (foldR (pack_step E t) [1..<NSLOT] s) (\<lambda>s. Inr (set_special_next t s)))"

section \<open>Effect on the specification state\<close>

text \<open>What an operation on thread \<open>t\<close> leaves alone.\<close>

definition frame :: "nat \<Rightarrow> msh_state \<Rightarrow> msh_state \<Rightarrow> bool" where
  "frame t s s' \<longleftrightarrow> (\<forall>u. u \<noteq> t \<longrightarrow> prim s' u = prim s u) \<and>
     reallocatable (prim s' t) = reallocatable (prim s t) \<and>
     reallocated (prim s' t) = reallocated (prim s t) \<and> scav_num (prim s' t) = scav_num (prim s t) \<and>
     max_scav_per_thread s' = max_scav_per_thread s \<and> dummy s' = dummy s \<and>
     finished_scav_cnt s' = finished_scav_cnt s \<and> cleanup_jmpbuf s' = cleanup_jmpbuf s"

lemma frame_refl [simp]: "frame t s s"
  by (simp add: frame_def)

lemma frame_trans: "frame t s s' \<Longrightarrow> frame t s' s'' \<Longrightarrow> frame t s s''"
  by (simp add: frame_def)

lemma get_idx: "p < NSLOT \<Longrightarrow> tl_get_crt_idx_at s t p = idx_of s t p"
  by (simp add: tl_get_crt_idx_at_def)

lemma abs_sel:
  "t < MAX_THREAD_NUM \<Longrightarrow> p < NSLOT \<Longrightarrow> slot_idx (abs E s) t p = idx_of s t p"
  "slot t p \<Longrightarrow> slot_live (abs E s) t p \<longleftrightarrow> next_of s t p \<noteq> - 1"
  "scav_in_range i \<Longrightarrow> host (abs E s) i = yc (scav s i)"
  "scav_in_range i \<Longrightarrow> gone (abs E s) i = finished (scav s i)"
  "scav_in_range i \<Longrightarrow> linked (abs E s) i \<longleftrightarrow>
     (\<exists>h. lib_handle (scav s i) = Some h \<and> dlsym E h ''crt_pos'' \<noteq> None)"
  by (simp_all add: abs_def)

lemma msh_invD:
  assumes "msh_inv E s"
  shows "shape s" "scav_table_lock s = 0" "coherent (abs E s)"
    "length (PRIM_TABLE s) = MAX_THREAD_NUM"
    "length (SCAV_TABLE s) = MAX_ACTIVE_CRT_NUM_PER_APPLICATION"
    "t < MAX_THREAD_NUM \<Longrightarrow> prim_shape (prim s t)"
  using assms by (auto simp: msh_inv_def shape_def)

lemma tables_okD:
  assumes "tables_ok E s"
  shows "shape s" "coherent (abs E s)" "length (PRIM_TABLE s) = MAX_THREAD_NUM"
    "length (SCAV_TABLE s) = MAX_ACTIVE_CRT_NUM_PER_APPLICATION"
    "t < MAX_THREAD_NUM \<Longrightarrow> prim_shape (prim s t)"
  using assms by (auto simp: tables_ok_def shape_def)

text \<open>What the invariant says about an occupied slot, in terms of the tables.\<close>

lemma tables_facts:
  assumes inv: "tables_ok E s" and sl: "slot t p" and occ: "idx_of s t p \<noteq> - 1"
  shows "scav_in_range (idx_of s t p)" "yc (scav s (idx_of s t p)) = Some (t, p)"
    "\<not> finished (scav s (idx_of s t p))"
    "\<exists>h x. lib_handle (scav s (idx_of s t p)) = Some h \<and> dlsym E h ''crt_pos'' = Some x"
    "next_of s t p \<noteq> - 1"
proof -
  let ?i = "idx_of s t p"
  have i: "slot_idx (abs E s) t p = ?i" using sl by (simp add: abs_sel)
  note c = tables_okD(2) [OF inv]
  have occ': "slot_idx (abs E s) t p \<noteq> - 1" using i occ by simp
  show r: "scav_in_range ?i" using coherentD(2) [OF c sl occ'] i by simp
  show "yc (scav s ?i) = Some (t, p)" using coherentD(3) [OF c sl occ'] i r by (simp add: abs_sel)
  show "\<not> finished (scav s ?i)" using coherentD(4) [OF c sl occ'] i r by (simp add: abs_sel)
  show "\<exists>h x. lib_handle (scav s ?i) = Some h \<and> dlsym E h ''crt_pos'' = Some x"
    using coherentD(5) [OF c sl occ'] i r by (simp add: abs_sel)
  show "next_of s t p \<noteq> - 1" using coherentD(7) [OF c sl] occ' sl by (simp add: abs_sel)
qed

lemma tables_free:
  assumes inv: "tables_ok E s" and sl: "slot t p"
  shows "next_of s t p = - 1 \<longleftrightarrow> idx_of s t p = - 1"
  using coherentD(7) [OF tables_okD(2) [OF inv] sl] sl by (simp add: abs_sel)

lemma tables_primary_slot: "tables_ok E s \<Longrightarrow> t < MAX_THREAD_NUM \<Longrightarrow> idx_of s t 0 = - 1"
  using coherentD(1) [OF tables_okD(2), of E s t] by (simp add: abs_sel)

lemma msh_inv_tables_ok: "msh_inv E s \<Longrightarrow> tables_ok E s"
  by (simp add: msh_inv_tables)

lemmas hosted_facts = tables_facts [OF msh_inv_tables_ok]
lemmas free_facts = tables_free [OF msh_inv_tables_ok]
lemmas primary_slot = tables_primary_slot [OF msh_inv_tables_ok]

section \<open>Exchanging a free slot with an occupied one\<close>

definition swap_ctx :: "nat \<Rightarrow> nat \<Rightarrow> primary_thread_ctx \<Rightarrow> primary_thread_ctx" where
  "swap_ctx a b c = c\<lparr>idx_list := swap_nth (idx_list c) a b,
     ycs := map (redirect a b) (swap_nth (ycs c) a b), regs := swap_nth (regs c) a b\<rparr>"

text \<open>
  The whole effect of \<open>tl_swap_crts\<close> as packing calls it. The store through
  \<open>SCAV_TABLE[a_idx]\<close> with \<open>a_idx = -1\<close> is the stray write.
\<close>

lemma tl_swap_crts_free:
  assumes inv: "msh_inv E s" and a: "slot t a" and b: "slot t b"
    and free: "idx_of s t a = - 1" and occ: "idx_of s t b \<noteq> - 1"
    and h: "lib_handle (scav s (idx_of s t b)) = Some h"
  shows "tl_swap_crts E t a b s =
    Inr (s\<lparr>PRIM_TABLE := (PRIM_TABLE s)[t := swap_ctx a b (prim s t)],
      SCAV_TABLE := (SCAV_TABLE s)[nat (idx_of s t b) := (scav s (idx_of s t b))\<lparr>yc := Some (t, a)\<rparr>],
      libs := (libs s)(h := (libs s h)\<lparr>sym_crt_pos := int a\<rparr>),
      stray_writes := stray_writes s @ [- 1]\<rparr>)"
proof -
  note hf = hosted_facts [OF inv b occ]
  have t: "t < length (PRIM_TABLE s)" using a msh_invD(4) [OF inv] by simp
  have n: "nat (idx_of s t b) < length (SCAV_TABLE s)"
    using hf(1) msh_invD(5) [OF inv] by (simp add: scav_in_range_def nat_less_iff)
  have sym: "\<exists>x. dlsym E h ''crt_pos'' = Some x" using hf(4) h by auto
  show ?thesis
    using a b free occ h t n sym hf(1) msh_invD(2) [OF inv]
    by (auto simp: tl_swap_crts_def lock_scav_table_free Let_def get_idx tl_set_crt_id_at_def
        set_crt_pos_symbol_def scav_get_def scav_upd_def prim_upd_def unlock_scav_table_def
        spin_unlock_def lib_upd_def swap_ctx_def swap_nth_def [of "idx_list _"])
qed

text \<open>The occupied slots of a thread in order, with the context that belongs to each.\<close>

definition hosted ::
  "primary_thread_ctx \<Rightarrow> (int \<times> (64 word \<times> 64 word) \<times> x86_registers list) list" where
  "hosted c = filter (\<lambda>x. fst x \<noteq> - 1)
     (zip (idx_list c) (zip (map (\<lambda>y. (sp y, ip y)) (ycs c)) (regs c)))"

lemma redirect_sel [simp]: "sp (redirect a b y) = sp y" "ip (redirect a b y) = ip y"
    "special_next (redirect a b y) = special_next y"
  by (simp_all add: redirect_def)

lemma redirect_live:
  "a < NSLOT \<Longrightarrow> b < NSLOT \<Longrightarrow> normal_next (redirect a b y) = - 1 \<longleftrightarrow> normal_next y = - 1"
  by (auto simp: redirect_def to_short_id capacities)

lemma hosted_swap_ctx:
  assumes "prim_shape c" and "a < b" and "b < NSLOT"
    and gap: "\<And>j. a \<le> j \<Longrightarrow> j < b \<Longrightarrow> idx_list c ! j = - 1"
  shows "hosted (swap_ctx a b c) = hosted c"
proof -
  let ?ctx = "map (\<lambda>y. (sp y, ip y)) (ycs c)"
  have len: "length (idx_list c) = NSLOT" "length ?ctx = NSLOT" "length (regs c) = NSLOT"
    using assms(1) by (auto simp: prim_shape_def)
  have ctx: "map (\<lambda>y. (sp y, ip y)) (map (redirect a b) (swap_nth (ycs c) a b)) = swap_nth ?ctx a b"
    using len assms(2,3) by (simp add: comp_def swap_nth_map)
  have "hosted (swap_ctx a b c) = filter (\<lambda>x. fst x \<noteq> - 1)
      (swap_nth (zip (idx_list c) (zip ?ctx (regs c))) a b)"
    unfolding hosted_def swap_ctx_def using len assms(2,3) ctx
    by (simp add: swap_nth_zip)
  also have "\<dots> = hosted c"
    unfolding hosted_def
    by (rule filter_swap_nth) (use len assms(2,3) gap in auto)
  finally show ?thesis .
qed

lemma prim_shape_swap_ctx: "prim_shape c \<Longrightarrow> prim_shape (swap_ctx a b c)"
  by (simp add: prim_shape_def swap_ctx_def)

text \<open>
  Exchanging a free slot \<open>a\<close> with an occupied slot \<open>b\<close> is the specification's \<open>move\<close>.
\<close>

lemma tl_swap_crts_refines_move:
  assumes inv: "msh_inv E s" and a: "slot t a" and b: "slot t b"
    and free: "idx_of s t a = - 1" and occ: "idx_of s t b \<noteq> - 1"
  shows "ends (tl_swap_crts E t a b s) never (\<lambda>s'. msh_inv E s' \<and>
    abs E s' = move t b t a (abs E s) \<and> frame t s s' \<and> prim s' t = swap_ctx a b (prim s t) \<and>
    stray_writes s' = stray_writes s @ [- 1])"
proof -
  let ?i = "idx_of s t b"
  note hf = hosted_facts [OF inv b occ]
  obtain h where h: "lib_handle (scav s ?i) = Some h" using hf(4) by blast
  define s' where "s' = s\<lparr>PRIM_TABLE := (PRIM_TABLE s)[t := swap_ctx a b (prim s t)],
      SCAV_TABLE := (SCAV_TABLE s)[nat ?i := (scav s ?i)\<lparr>yc := Some (t, a)\<rparr>],
      libs := (libs s)(h := (libs s h)\<lparr>sym_crt_pos := int a\<rparr>),
      stray_writes := stray_writes s @ [- 1]\<rparr>"
  have prim': "prim s' u = (if u = t then swap_ctx a b (prim s t) else prim s u)" for u
    using a msh_invD(4) [OF inv] by (simp add: s'_def nth_list_update)
  have scav': "yc (scav s' j) = (if j = ?i then Some (t, a) else yc (scav s j))"
      "finished (scav s' j) = finished (scav s j)" "lib_handle (scav s' j) = lib_handle (scav s j)"
    if "scav_in_range j" for j
    using that hf(1) msh_invD(5) [OF inv]
    by (auto simp: s'_def scav_in_range_def nth_list_update split: if_splits)
  have sh: "prim_shape (prim s t)" using msh_invD(6) [OF inv] a by simp
  have shape': "shape s'"
    using msh_invD [OF inv] prim' prim_shape_swap_ctx by (simp add: shape_def) (simp add: s'_def)
  have idx': "idx_of s' u p = upd2 (upd2 (idx_of s) t b (- 1)) t a ?i u p" if "p < NSLOT" for u p
    using that sh a b free occ
    by (auto simp: prim' swap_ctx_def prim_shape_def nth_swap_nth)
  have next': "next_of s' u p = - 1 \<longleftrightarrow>
      (if u = t \<and> p = a then False else if u = t \<and> p = b then True else next_of s u p = - 1)"
    if "p < NSLOT" for u p
    using that sh a b hf(5) free_facts [OF inv a] free
    by (auto simp: prim' swap_ctx_def prim_shape_def nth_swap_nth redirect_live)
  have abs': "abs E s' = move t b t a (abs E s)"
    using a b hf(1) occ idx' next' scav'
    by (auto simp: abs_def move_def Let_def fun_eq_iff)
  have "coherent (abs E s')"
    unfolding abs' using coherent_move [OF msh_invD(3) [OF inv] b a] free occ a b
    by (simp add: abs_sel)
  then have "msh_inv E s'" using shape' msh_invD(2) [OF inv] by (simp add: msh_inv_def s'_def)
  moreover have "frame t s s'" by (simp add: frame_def prim' swap_ctx_def) (simp add: s'_def)
  moreover have "tl_swap_crts E t a b s = Inr s'"
    unfolding s'_def by (rule tl_swap_crts_free [OF inv a b free occ h])
  ultimately show ?thesis using abs' prim' by (simp add: s'_def)
qed

section \<open>Changes that keep the specification state\<close>

lemma msh_inv_same_view:
  assumes inv: "msh_inv E s" and "shape s'" and "scav_table_lock s' = 0"
    and sc: "SCAV_TABLE s' = SCAV_TABLE s"
    and ix: "\<And>u p. u < MAX_THREAD_NUM \<Longrightarrow> p < NSLOT \<Longrightarrow> idx_of s' u p = idx_of s u p"
    and nx: "\<And>u p. slot u p \<Longrightarrow> next_of s' u p = - 1 \<longleftrightarrow> next_of s u p = - 1"
  shows "msh_inv E s'"
proof -
  have "slot_idx (abs E s') = slot_idx (abs E s)" "host (abs E s') = host (abs E s)"
      "gone (abs E s') = gone (abs E s)" "linked (abs E s') = linked (abs E s)"
    using ix sc by (auto simp: abs_def fun_eq_iff)
  moreover have "slot_live (abs E s') u p = slot_live (abs E s) u p" if "slot u p" for u p
    using nx [OF that] by (simp add: abs_def)
  ultimately have "coherent (abs E s')"
    using msh_invD(3) [OF inv] unfolding coherent_def by simp
  with assms(2,3) show ?thesis by (simp add: msh_inv_def)
qed

lemma yc_upd_simps [simp]:
  "SCAV_TABLE (yc_upd t p f s) = SCAV_TABLE s"
  "scav_table_lock (yc_upd t p f s) = scav_table_lock s"
  "libs (yc_upd t p f s) = libs s"
  "max_scav_per_thread (yc_upd t p f s) = max_scav_per_thread s"
  "dummy (yc_upd t p f s) = dummy s"
  "cleanup_jmpbuf (yc_upd t p f s) = cleanup_jmpbuf s"
  "finished_scav_cnt (yc_upd t p f s) = finished_scav_cnt s"
  "stray_writes (yc_upd t p f s) = stray_writes s"
  by (simp_all add: yc_upd_def)

lemma prim_yc_upd:
  "shape s \<Longrightarrow> t < MAX_THREAD_NUM \<Longrightarrow> prim (yc_upd t p f s) u =
    (if u = t then (prim s t)\<lparr>ycs := (ycs (prim s t))[p := f (ycs (prim s t) ! p)]\<rparr> else prim s u)"
  by (simp add: yc_upd_def prim_prim_upd)

lemma shape_yc_upd: "shape s \<Longrightarrow> t < MAX_THREAD_NUM \<Longrightarrow> shape (yc_upd t p f s)"
  unfolding yc_upd_def by (rule shape_prim_upd) (auto simp: shape_def prim_shape_def)

lemma frame_yc_upd: "shape s \<Longrightarrow> t < MAX_THREAD_NUM \<Longrightarrow> frame t s (yc_upd t p f s)"
  by (simp add: frame_def prim_yc_upd)

lemma msh_inv_yc_upd:
  assumes inv: "msh_inv E s" and t: "t < MAX_THREAD_NUM" and p: "p < NSLOT"
    and f: "0 < p \<Longrightarrow> normal_next (f (ycs (prim s t) ! p)) = - 1 \<longleftrightarrow> next_of s t p = - 1"
  shows "msh_inv E (yc_upd t p f s)"
proof (rule msh_inv_same_view [OF inv])
  have "length (ycs (prim s t)) = NSLOT" using msh_invD(6) [OF inv t] by (simp add: prim_shape_def)
  then show "next_of (yc_upd t p f s) u q = - 1 \<longleftrightarrow> next_of s u q = - 1" if "slot u q" for u q
    using that f p t msh_invD(1) [OF inv] by (auto simp: prim_yc_upd nth_list_update)
qed (use msh_invD [OF inv] t in \<open>auto simp: prim_yc_upd intro: shape_yc_upd\<close>)

section \<open>Finishing\<close>

lemma tl_finish_crt_primary:
  assumes inv: "msh_inv E s" and t: "t < MAX_THREAD_NUM"
  shows "tl_finish_crt t 0 s = Inr (yc_upd t 0 (\<lambda>y. y\<lparr>normal_next := - 1\<rparr>) s)"
  using primary_slot [OF inv t] by (simp add: tl_finish_crt_def get_idx)

lemma tl_finish_crt_hosted:
  assumes inv: "msh_inv E s" and sl: "slot t p" and occ: "idx_of s t p \<noteq> - 1"
  shows "tl_finish_crt t p s =
    Inr (s\<lparr>PRIM_TABLE := (PRIM_TABLE s)[t := (prim s t)\<lparr>
        ycs := (ycs (prim s t))[p := (ycs (prim s t) ! p)\<lparr>normal_next := - 1\<rparr>],
        idx_list := (idx_list (prim s t))[p := - 1]\<rparr>],
      SCAV_TABLE := (SCAV_TABLE s)[nat (idx_of s t p) :=
        (scav s (idx_of s t p))\<lparr>yc := None, finished := True\<rparr>]\<rparr>)"
proof -
  note hf = hosted_facts [OF inv sl occ]
  have t: "t < length (PRIM_TABLE s)" using sl msh_invD(4) [OF inv] by simp
  have n: "nat (idx_of s t p) < length (SCAV_TABLE s)"
    using hf(1) msh_invD(5) [OF inv] by (simp add: scav_in_range_def nat_less_iff)
  show ?thesis
    using sl occ t n hf(1) msh_invD(2) [OF inv]
    by (auto simp: tl_finish_crt_def lock_scav_table_free Let_def get_idx tl_set_crt_id_at_def
        scav_get_def scav_upd_def prim_upd_def yc_upd_def unlock_scav_table_def spin_unlock_def)
qed

text \<open>Finishing a hosted scavenger is the specification's \<open>release\<close>.\<close>

lemma tl_finish_crt_refines_release:
  assumes inv: "msh_inv E s" and sl: "slot t p" and occ: "idx_of s t p \<noteq> - 1"
  shows "ends (tl_finish_crt t p s) never (\<lambda>s'. msh_inv E s' \<and>
    abs E s' = release t p (abs E s) \<and> frame t s s' \<and> stray_writes s' = stray_writes s \<and>
    libs s' = libs s \<and> prim s' t = (prim s t)\<lparr>
      ycs := (ycs (prim s t))[p := (ycs (prim s t) ! p)\<lparr>normal_next := - 1\<rparr>],
      idx_list := (idx_list (prim s t))[p := - 1]\<rparr>)"
proof -
  let ?i = "idx_of s t p"
  note hf = hosted_facts [OF inv sl occ]
  define c' where "c' = (prim s t)\<lparr>
        ycs := (ycs (prim s t))[p := (ycs (prim s t) ! p)\<lparr>normal_next := - 1\<rparr>],
        idx_list := (idx_list (prim s t))[p := - 1]\<rparr>"
  define s' where "s' = s\<lparr>PRIM_TABLE := (PRIM_TABLE s)[t := c'],
      SCAV_TABLE := (SCAV_TABLE s)[nat ?i := (scav s ?i)\<lparr>yc := None, finished := True\<rparr>]\<rparr>"
  have prim': "prim s' u = (if u = t then c' else prim s u)" for u
    using sl msh_invD(4) [OF inv] by (simp add: s'_def nth_list_update)
  have scav': "yc (scav s' j) = (if j = ?i then None else yc (scav s j))"
      "finished (scav s' j) = (j = ?i \<or> finished (scav s j))"
      "lib_handle (scav s' j) = lib_handle (scav s j)"
    if "scav_in_range j" for j
    using that hf(1) msh_invD(5) [OF inv]
    by (auto simp: s'_def scav_in_range_def nth_list_update split: if_splits)
  have sh: "prim_shape (prim s t)" using msh_invD(6) [OF inv] sl by simp
  then have "prim_shape c'" by (simp add: prim_shape_def c'_def)
  then have shape': "shape s'"
    using msh_invD [OF inv] prim' by (simp add: shape_def) (simp add: s'_def)
  have abs': "abs E s' = release t p (abs E s)"
    using sl hf(1) occ scav' sh
    by (auto simp: abs_def release_def Let_def fun_eq_iff prim' c'_def prim_shape_def nth_list_update)
  have "coherent (abs E s')"
    unfolding abs' using coherent_release [OF msh_invD(3) [OF inv] sl] occ sl by (simp add: abs_sel)
  then have "msh_inv E s'" using shape' msh_invD(2) [OF inv] by (simp add: msh_inv_def s'_def)
  moreover have "frame t s s'" by (simp add: frame_def prim' c'_def) (simp add: s'_def)
  moreover have "tl_finish_crt t p s = Inr s'"
    unfolding s'_def c'_def by (rule tl_finish_crt_hosted [OF inv sl occ])
  ultimately show ?thesis using abs' prim' c'_def by (simp add: s'_def)
qed

section \<open>Placing a scavenger\<close>

text \<open>A state that differs by a scavenger placed in a free slot realises the specification's \<open>assign\<close>.\<close>

lemma refines_assign:
  assumes ok: "tables_ok E s" and sl: "slot t p" and free: "idx_of s t p = - 1"
    and i: "scav_in_range i" "yc (scav s i) = None" "\<not> finished (scav s i)"
    and lib: "lib_handle (scav s i) = Some h" "dlsym E h ''crt_pos'' \<noteq> None"
    and sh': "shape s'"
    and idx': "\<And>u r. r < NSLOT \<Longrightarrow> idx_of s' u r = (if u = t \<and> r = p then i else idx_of s u r)"
    and next': "\<And>u r. slot u r \<Longrightarrow> next_of s' u r = - 1 \<longleftrightarrow>
      (if u = t \<and> r = p then False else next_of s u r = - 1)"
    and yc': "\<And>j. scav_in_range j \<Longrightarrow> yc (scav s' j) = (if j = i then Some (t, p) else yc (scav s j))"
    and fin': "\<And>j. scav_in_range j \<Longrightarrow> finished (scav s' j) = finished (scav s j)"
    and lib': "\<And>j. scav_in_range j \<Longrightarrow> lib_handle (scav s' j) = lib_handle (scav s j)"
  shows "tables_ok E s'" "abs E s' = assign i t p (abs E s)"
proof -
  show abs': "abs E s' = assign i t p (abs E s)"
    using sl i(1) idx' next' yc' fin' lib' by (auto simp: abs_def assign_def fun_eq_iff)
  have "coherent (abs E s')"
    unfolding abs' by (rule coherent_assign [OF tables_okD(2) [OF ok] sl])
      (use sl free i lib in \<open>auto simp: abs_sel\<close>)
  then show "tables_ok E s'" using sh' by (simp add: tables_ok_def)
qed

end
