(* ===== verification/Samples.thy ===== *)
theory Samples
  imports Slots
begin

text \<open>
  Concrete states for the instances of the theorems: an idle runtime whose scavenger table is
  fully loaded, scavengers placed one by one in chosen slots, and a linker that finds every
  symbol.
\<close>

definition rich_env :: env where
  "rich_env = \<lparr>dlopen = (\<lambda>_. Some 1), dlsym = (\<lambda>_ _. Some 64), wordexp = (\<lambda>w. Some [w]),
     fopen = (\<lambda>_. None), getenv = (\<lambda>_. None), run_init = (\<lambda>_ _ c. c),
     run_scav = (\<lambda>_ pos c. (sp (ycs c ! pos) - 16, ip (ycs c ! pos) + 4, regs c ! pos, [])), scav_base = 0, prim_base = 0,
     ret_to_scheduler_addr = 4096\<rparr>"

definition idle_ctx :: primary_thread_ctx where
  "idle_ctx = zero_primary_thread_ctx\<lparr>
     ycs := zero_yield_ctx # replicate MAX_CRT_PER_THREAD (zero_yield_ctx\<lparr>normal_next := - 1\<rparr>),
     idx_list := replicate NSLOT (- 1)\<rparr>"

text \<open>The entry at index \<open>i\<close> has handle \<open>i + 1\<close>, so no two scavengers share a library.\<close>

definition idle_state :: "int \<Rightarrow> msh_state" where
  "idle_state cap = zero_state\<lparr>max_scav_per_thread := cap, PRIM_TABLE := replicate MAX_THREAD_NUM idle_ctx,
     SCAV_TABLE := map (\<lambda>i. zero_coroutine_ctx\<lparr>lib_handle := Some (of_nat (i + 1)), entry := Some 8192\<rparr>)
       [0..<MAX_ACTIVE_CRT_NUM_PER_APPLICATION]\<rparr>"

definition place :: "int \<Rightarrow> nat \<Rightarrow> nat \<Rightarrow> msh_state \<Rightarrow> msh_state" where
  "place i t p s = scav_upd i (\<lambda>x. x\<lparr>yc := Some (t, p)\<rparr>)
     (yc_upd t p (\<lambda>y. y\<lparr>normal_next := 0\<rparr>) (tl_set_crt_id_at t p i s))"

definition placed :: "int \<Rightarrow> (int \<times> nat \<times> nat) list \<Rightarrow> msh_state" where
  "placed cap l = foldr (\<lambda>(i, t, p). place i t p) l (idle_state cap)"

definition placeable :: "(int \<times> nat \<times> nat) list \<Rightarrow> bool" where
  "placeable l \<longleftrightarrow> distinct (map fst l) \<and> distinct (map snd l) \<and>
     list_all (\<lambda>(i, t, p). scav_in_range i \<and> slot t p) l"

lemma placed_simps [simp]:
  "placed cap [] = idle_state cap"
  "placed cap ((i, t, p) # l) = place i t p (placed cap l)"
  by (simp_all add: placed_def)

lemma idle_reads:
  "t < MAX_THREAD_NUM \<Longrightarrow> prim (idle_state cap) t = idle_ctx"
  "scav_in_range i \<Longrightarrow> yc (scav (idle_state cap) i) = None"
  "scav_in_range i \<Longrightarrow> \<not> finished (scav (idle_state cap) i)"
  "scav_in_range i \<Longrightarrow> lib_handle (scav (idle_state cap) i) = Some (nat i + 1)"
  "scav_in_range i \<Longrightarrow> init (scav (idle_state cap) i) = None"
  by (auto simp: idle_state_def scav_in_range_def zero_coroutine_ctx_def nat_less_iff)

lemma idle_ctx_reads:
  "prim_shape idle_ctx" "p < NSLOT \<Longrightarrow> idx_list idle_ctx ! p = - 1"
  "0 < p \<Longrightarrow> p < NSLOT \<Longrightarrow> normal_next (ycs idle_ctx ! p) = - 1" "ycs idle_ctx ! 0 = zero_yield_ctx"
  by (auto simp: idle_ctx_def prim_shape_def zero_primary_thread_ctx_def NSLOT_def nth_Cons split: nat.splits)

lemma idle_state_shape: "shape (idle_state cap)"
  using idle_ctx_reads(1) by (simp add: shape_def idle_reads) (simp add: idle_state_def)

lemma idle_state_ok: "tables_ok E (idle_state cap)"
proof -
  have "coherent (abs E (idle_state cap))"
    by (rule coherentI) (auto simp: abs_def idle_reads idle_ctx_reads NSLOT_pos)
  then show ?thesis using idle_state_shape by (simp add: tables_ok_def)
qed

text \<open>A placement list determines the tables.\<close>

definition agrees :: "(int \<times> nat \<times> nat) list \<Rightarrow> msh_state \<Rightarrow> bool" where
  "agrees l s \<longleftrightarrow>
     (\<forall>u q. u < MAX_THREAD_NUM \<and> q < NSLOT \<longrightarrow> idx_of s u q =
        (case map_of (map (\<lambda>(i, t, p). ((t, p), i)) l) (u, q) of Some i \<Rightarrow> i | None \<Rightarrow> - 1)) \<and>
     (\<forall>j. scav_in_range j \<longrightarrow> yc (scav s j) = map_of l j \<and> \<not> finished (scav s j) \<and>
        lib_handle (scav s j) = Some (nat j + 1) \<and> init (scav s j) = None) \<and>
     (\<forall>u < MAX_THREAD_NUM. ycs (prim s u) ! 0 = zero_yield_ctx \<and> \<not> reallocatable (prim s u) \<and>
        \<not> reallocated (prim s u) \<and> scav_num (prim s u) = 0) \<and>
     scav_table_lock s = 0 \<and> stray_writes s = [] \<and> cleanup_jmpbuf s = (\<lambda>_. False)"

lemma agrees_idle: "agrees [] (idle_state cap)"
  by (simp add: agrees_def idle_reads idle_ctx_reads)
    (simp add: idle_state_def zero_state_def idle_ctx_def zero_primary_thread_ctx_def
      SPINLOCK_INITIALIZER_def)

lemma prim_place:
  "shape s \<Longrightarrow> t < MAX_THREAD_NUM \<Longrightarrow> prim (place i t p s) u =
    (if u = t then (prim s t)\<lparr>idx_list := (idx_list (prim s t))[p := i],
       ycs := (ycs (prim s t))[p := (ycs (prim s t) ! p)\<lparr>normal_next := 0\<rparr>]\<rparr> else prim s u)"
  by (simp add: place_def yc_upd_def tl_set_crt_id_at_def prim_upd_def shape_def nth_list_update)

lemma scav_place:
  "shape s \<Longrightarrow> scav_in_range i \<Longrightarrow> scav_in_range j \<Longrightarrow>
   scav (place i t p s) j = (if j = i then (scav s i)\<lparr>yc := Some (t, p)\<rparr> else scav s j)"
  by (auto simp: place_def yc_upd_def tl_set_crt_id_at_def prim_upd_def scav_upd_def shape_def
      scav_in_range_def nth_list_update)

lemma place_rest:
  "scav_in_range i \<Longrightarrow> scav_table_lock (place i t p s) = scav_table_lock s"
  "scav_in_range i \<Longrightarrow> stray_writes (place i t p s) = stray_writes s"
  "scav_in_range i \<Longrightarrow> cleanup_jmpbuf (place i t p s) = cleanup_jmpbuf s"
  "max_scav_per_thread (place i t p s) = max_scav_per_thread s"
  "libs (place i t p s) = libs s"
  by (simp_all add: place_def tl_set_crt_id_at_def stray_scav_upd)

lemma shape_place: "shape s \<Longrightarrow> t < MAX_THREAD_NUM \<Longrightarrow> shape (place i t p s)"
  unfolding place_def shape_scav_upd tl_set_crt_id_at_def
  by (intro shape_yc_upd shape_prim_upd) (auto simp: prim_shape_def dest: shapeD(3))

lemma placed_ok:
  assumes "placeable l"
  shows "tables_ok rich_env (placed cap l) \<and> agrees l (placed cap l)"
  using assms
proof (induction l)
  case Nil
  then show ?case using idle_state_ok agrees_idle by simp
next
  case (Cons x l)
  obtain i t p where x: "x = (i, t, p)" by (cases x)
  let ?s = "placed cap l"
  have pl: "placeable l" "scav_in_range i" "slot t p" "i \<notin> fst ` set l" "(t, p) \<notin> snd ` set l"
    using Cons.prems by (auto simp: placeable_def x)
  then have ok: "tables_ok rich_env ?s" and ag: "agrees l ?s" using Cons.IH by auto
  note sh = tables_okD(1) [OF ok]
  have none: "map_of l i = None" "map_of (map (\<lambda>(i, t, p). ((t, p), i)) l) (t, p) = None"
    using pl(4,5) by (force simp: map_of_eq_None_iff)+
  have len: "length (idx_list (prim ?s t)) = NSLOT" "length (ycs (prim ?s t)) = NSLOT"
    using tables_okD(5) [OF ok, of t] pl(3) by (auto simp: prim_shape_def)
  have free: "idx_of ?s t p = - 1" using ag pl(3) none(2) by (simp add: agrees_def)
  have "tables_ok rich_env (place i t p ?s)"
    by (rule refines_assign(1) [OF ok pl(3) free pl(2), where h = "nat i + 1"])
      (use ag pl none len sh in \<open>auto simp: agrees_def rich_env_def prim_place scav_place
        nth_list_update intro: shape_place\<close>)
  moreover have "agrees ((i, t, p) # l) (place i t p ?s)"
    using ag pl len sh by (auto simp: agrees_def prim_place scav_place place_rest nth_list_update)
  ultimately show ?case by (simp add: x)
qed

lemma placed_cap [simp]: "max_scav_per_thread (placed cap l) = cap"
  by (induction l) (auto simp: place_rest, simp add: idle_state_def)

lemma placed_inv: "placeable l \<Longrightarrow> msh_inv rich_env (placed cap l)"
  using placed_ok [of l cap] by (simp add: msh_inv_tables agrees_def)

text \<open>The index list of a thread, for a list of placements.\<close>

lemma placed_idx_list:
  assumes "placeable l" and "t < MAX_THREAD_NUM"
  shows "idx_list (prim (placed cap l) t) =
    map (\<lambda>q. case map_of (map (\<lambda>(i, t, p). ((t, p), i)) l) (t, q) of Some i \<Rightarrow> i | None \<Rightarrow> - 1) [0..<NSLOT]"
  by (rule nth_equalityI)
    (use placed_ok [OF assms(1), of cap] assms(2) tables_okD(5) [of rich_env "placed cap l" t] in
      \<open>auto simp: agrees_def prim_shape_def\<close>)

definition idx_row :: "(int \<times> nat \<times> nat) list \<Rightarrow> nat \<Rightarrow> int list" where
  "idx_row l t = map (\<lambda>q. case map_of (map (\<lambda>(i, t, p). ((t, p), i)) l) (t, q) of Some i \<Rightarrow> i | None \<Rightarrow> - 1)
     [0..<129]"

text \<open>Two hosting threads, the second with two scavengers, and one thread with a hole.\<close>

definition two_hosts :: "(int \<times> nat \<times> nat) list" where
  "two_hosts = [(7, 0, 1), (8, 2, 1), (9, 2, 2)]"

definition with_hole :: "(int \<times> nat \<times> nat) list" where
  "with_hole = [(4, 0, 1), (5, 0, 3), (6, 0, 7)]"

lemma sample_rows:
  "packed (idx_row two_hosts 0)" "items (idx_row two_hosts 0) = [7]"
  "packed (idx_row two_hosts 2)" "items (idx_row two_hosts 2) = [8, 9]"
  "items (idx_row with_hole 0) = [4, 5, 6]" "items (idx_row two_hosts 3) = []"
  by code_simp+

lemma sample_placeable: "placeable two_hosts" "placeable with_hole"
  by code_simp+

lemma placed_row:
  "placeable l \<Longrightarrow> t < MAX_THREAD_NUM \<Longrightarrow> idx_list (prim (placed cap l) t) = idx_row l t"
  by (simp add: placed_idx_list idx_row_def capacities)

lemma placed_facts:
  assumes "placeable l" and "t < MAX_THREAD_NUM"
  shows "next_of (placed cap l) t 0 = 0" "scav_num (prim (placed cap l) t) = 0"
    "idx_of (placed cap l) t 0 = - 1" "prim_shape (prim (placed cap l) t)"
    "\<not> reallocatable (prim (placed cap l) t)"
proof -
  have ok: "tables_ok rich_env (placed cap l)" and ag: "agrees l (placed cap l)"
    using placed_ok [OF assms(1)] by auto
  show "idx_of (placed cap l) t 0 = - 1" by (rule tables_primary_slot [OF ok assms(2)])
  show "prim_shape (prim (placed cap l) t)" by (rule tables_okD(5) [OF ok assms(2)])
qed (use placed_ok [OF assms(1), of cap] assms(2) in \<open>simp_all add: agrees_def zero_yield_ctx_def\<close>)

lemma placed_next:
  assumes "placeable l" and "(i, t, p) \<in> set l"
  shows "next_of (placed cap l) t p = 0" "idx_of (placed cap l) t p = i"
proof -
  have mem: "map_of (map (\<lambda>(i, t, p). ((t, p), i)) l) (t, p) = Some i"
  proof (rule map_of_is_SomeI)
    have "map fst (map (\<lambda>(i, t, p). ((t, p), i)) l) = map snd l" by auto
    then show "distinct (map fst (map (\<lambda>(i, t, p). ((t, p), i)) l))"
      using assms(1) by (metis placeable_def)
  qed (use assms(2) in force)
  have sl: "slot t p" using assms by (auto simp: placeable_def list_all_iff)
  then show "idx_of (placed cap l) t p = i"
    using placed_ok [OF assms(1), of cap] mem by (simp add: agrees_def)
  show "next_of (placed cap l) t p = 0"
    using assms
  proof (induction l)
    case (Cons x l)
    obtain j u q where x: "x = (j, u, q)" by (cases x)
    have pl: "placeable l" "slot u q" using Cons.prems(1) by (auto simp: placeable_def x)
    note ok = placed_ok [OF pl(1), of cap]
    have "length (ycs (prim (placed cap l) u)) = NSLOT"
      using ok tables_okD(5) [of rich_env "placed cap l" u] pl(2) by (simp add: prim_shape_def)
    then show ?case
      using Cons pl ok tables_okD(1) [of rich_env "placed cap l"]
      by (auto simp: x prim_place nth_list_update)
  qed simp
qed

lemma placed_handle:
  "placeable l \<Longrightarrow> scav_in_range i \<Longrightarrow> lib_handle (scav (placed cap l) i) = Some (nat i + 1)"
  using placed_ok [of l cap] by (simp add: agrees_def)

lemma placed_yc:
  "placeable l \<Longrightarrow> scav_in_range i \<Longrightarrow> host (abs E (placed cap l)) i = map_of l i"
  using placed_ok [of l cap] by (simp add: agrees_def abs_sel)

end
