(* ===== verification/Packing.thy ===== *)
theory Packing
  imports Samples
begin

text \<open>
  What the link and packing operations of \<open>libmsh/msh.c\<close> achieve: \<open>set_special_next\<close> closes the
  hosted scavengers into a ring through the primary, \<open>tl_update_next_map\<close> points the primary at
  a live slot, the searches find the first occupied slot, and \<open>tl_pack_crts\<close> is a stable
  compaction that carries every scavenger's context along.
\<close>

section \<open>The special links\<close>

definition special_link :: "primary_thread_ctx \<Rightarrow> nat \<Rightarrow> int" where
  "special_link c p =
     (if (if p = MAX_CRT_PER_THREAD then scav_num c else idx_list c ! (p + 1)) = - 1 then 0
      else offset_of_pos (p + 1))"

definition relink :: "nat \<Rightarrow> primary_thread_ctx \<Rightarrow> primary_thread_ctx" where
  "relink n c = c\<lparr>ycs := map (\<lambda>p. if 0 < p \<and> p < n then (ycs c ! p)\<lparr>special_next := special_link c p\<rparr>
     else ycs c ! p) [0..<length (ycs c)]\<rparr>"

lemma special_step_eq:
  assumes "shape s" and "t < MAX_THREAD_NUM" and "p < NSLOT"
  shows "special_step t p s = yc_upd t p (\<lambda>y. y\<lparr>special_next := special_link (prim s t) p\<rparr>) s"
proof -
  have "t < length (PRIM_TABLE s)" "length (ycs (prim s t)) = NSLOT"
    using assms by (auto simp: shape_def prim_shape_def)
  then show ?thesis
    using assms(3)
    by (auto simp: special_step_def special_link_def yc_upd_def prim_upd_def Let_def
        tl_get_crt_idx_at_def NSLOT_def)
qed

lemma shape_relink: "shape s \<Longrightarrow> t < MAX_THREAD_NUM \<Longrightarrow> shape (prim_upd t (relink n) s)"
  by (rule shape_prim_upd) (auto simp: shape_def prim_shape_def relink_def)

lemma relink_step:
  assumes "length (ycs c) = NSLOT" and "0 < n" and "n < NSLOT"
  shows "(relink n c)\<lparr>ycs := (ycs (relink n c))[n := (ycs (relink n c) ! n)
     \<lparr>special_next := special_link (relink n c) n\<rparr>]\<rparr> = relink (Suc n) c"
proof -
  have sl: "special_link (relink n c) n = special_link c n" by (simp add: special_link_def relink_def)
  have "(ycs (relink n c))[n := (ycs (relink n c) ! n)\<lparr>special_next := special_link c n\<rparr>] =
      ycs (relink (Suc n) c)"
    by (rule nth_equalityI)
      (use assms in \<open>auto simp: relink_def nth_list_update less_Suc_eq simp del: upt_Suc\<close>)
  then show ?thesis unfolding sl by (simp add: relink_def)
qed

lemma fold_special_step:
  assumes sh: "shape s" and t: "t < MAX_THREAD_NUM" and "n \<le> NSLOT" and "0 < n"
  shows "fold (special_step t) [1..<n] s = prim_upd t (relink n) s"
  using assms(4,3)
proof (induction n rule: nat_induct_non_zero)
  case 1
  have "relink 1 (prim s t) = prim s t"
  proof -
    have "(\<lambda>p. if 0 < p \<and> p < 1 then (ycs (prim s t) ! p)\<lparr>special_next := special_link (prim s t) p\<rparr>
        else ycs (prim s t) ! p) = (!) (ycs (prim s t))"
      by (auto simp: fun_eq_iff)
    then show ?thesis unfolding relink_def by (simp add: map_nth)
  qed
  then show ?case by (simp add: prim_upd_def)
next
  case (Suc n)
  have len: "length (ycs (prim s t)) = NSLOT" "t < length (PRIM_TABLE s)"
    using sh t by (auto simp: shape_def prim_shape_def)
  have "fold (special_step t) [1..<Suc n] s = special_step t n (prim_upd t (relink n) s)"
    using Suc by simp
  also have "\<dots> = yc_upd t n (\<lambda>y. y\<lparr>special_next := special_link (relink n (prim s t)) n\<rparr>)
      (prim_upd t (relink n) s)"
    using special_step_eq [OF shape_relink [OF sh t] t] Suc.prems prim_prim_upd [OF sh t] by simp
  also have "\<dots> = prim_upd t (relink (Suc n)) s"
    using relink_step [OF len(1) Suc.hyps] Suc.prems len(2) by (simp add: yc_upd_def prim_upd_def)
  finally show ?case .
qed

lemma set_special_next_eq:
  "shape s \<Longrightarrow> t < MAX_THREAD_NUM \<Longrightarrow> set_special_next t s = prim_upd t (relink NSLOT) s"
  unfolding set_special_next_def by (rule fold_special_step) simp_all

lemma relink_nth:
  "length (ycs c) = NSLOT \<Longrightarrow> p < NSLOT \<Longrightarrow> ycs (relink NSLOT c) ! p =
   (if 0 < p then (ycs c ! p)\<lparr>special_next := special_link c p\<rparr> else ycs c ! p)"
  by (simp add: relink_def del: upt_Suc)

lemma relink_sel [simp]:
  "idx_list (relink n c) = idx_list c" "regs (relink n c) = regs c"
  "scav_num (relink n c) = scav_num c" "reallocatable (relink n c) = reallocatable c"
  "reallocated (relink n c) = reallocated c" "loop_counter (relink n c) = loop_counter c"
  "length (ycs (relink n c)) = length (ycs c)"
  by (simp_all add: relink_def)

lemma normal_next_relink:
  "length (ycs c) = NSLOT \<Longrightarrow> p < NSLOT \<Longrightarrow>
   normal_next (ycs (relink NSLOT c) ! p) = normal_next (ycs c ! p)"
  by (simp add: relink_nth)

lemma hosted_relink: "length (ycs c) = NSLOT \<Longrightarrow> hosted (relink NSLOT c) = hosted c"
proof -
  assume len: "length (ycs c) = NSLOT"
  have "map (\<lambda>y. (sp y, ip y)) (ycs (relink NSLOT c)) = map (\<lambda>y. (sp y, ip y)) (ycs c)"
    by (rule nth_equalityI) (use len in \<open>simp_all add: relink_nth\<close>)
  then show ?thesis by (simp add: hosted_def)
qed

lemma set_special_next_frame:
  assumes inv: "msh_inv E s" and t: "t < MAX_THREAD_NUM"
  shows "msh_inv E (set_special_next t s)" "frame t s (set_special_next t s)"
    "stray_writes (set_special_next t s) = stray_writes s"
    "libs (set_special_next t s) = libs s"
    "SCAV_TABLE (set_special_next t s) = SCAV_TABLE s"
    "prim (set_special_next t s) t = relink NSLOT (prim s t)"
proof -
  note sh = msh_invD(1) [OF inv]
  have len: "length (ycs (prim s t)) = NSLOT"
    using msh_invD(6) [OF inv t] by (simp add: prim_shape_def)
  note p = prim_prim_upd [OF sh t, of "relink NSLOT"]
  show "msh_inv E (set_special_next t s)"
    unfolding set_special_next_eq [OF sh t]
    by (rule msh_inv_same_view [OF inv shape_relink [OF sh t]])
      (use msh_invD(2) [OF inv] p len normal_next_relink [OF len] in auto)
qed (use set_special_next_eq [OF msh_invD(1) [OF inv] t]
    prim_prim_upd [OF msh_invD(1) [OF inv] t, of "relink NSLOT"] in \<open>auto simp: frame_def\<close>)

text \<open>
  Following \<open>special_next\<close> as the instrumented code does: read the link of a position and divide
  the byte offset back to a position.
\<close>

definition follow :: "primary_thread_ctx \<Rightarrow> nat \<Rightarrow> nat" where
  "follow c p = nat (pos_of_offset (special_next (ycs c ! p)))"

lemma pos_of_offset_inverse: "p < NSLOT \<Longrightarrow> pos_of_offset (offset_of_pos p) = int p"
  by (simp add: offset_of_pos_eq pos_of_offset_def to_size_t_id to_short_id capacities)

lemma follow_relink:
  assumes sh: "prim_shape c" and pk: "packed (idx_list c)"
    and p: "0 < p" "p \<le> length (items (idx_list c))" and k: "length (items (idx_list c)) < MAX_CRT_PER_THREAD"
  shows "follow (relink NSLOT c) p = (if p < length (items (idx_list c)) then Suc p else 0)"
proof -
  let ?k = "length (items (idx_list c))"
  have len: "length (ycs c) = NSLOT" "length (idx_list c) = NSLOT"
    using sh by (auto simp: prim_shape_def)
  have "Suc p < NSLOT" using p k by (simp add: NSLOT_def)
  then have "idx_list c ! Suc p \<noteq> - 1 \<longleftrightarrow> Suc p \<le> ?k"
    using packed_occupied [OF pk] len by simp
  moreover have "p \<noteq> MAX_CRT_PER_THREAD" using p k by simp
  ultimately have "special_link c p = (if p < ?k then offset_of_pos (Suc p) else offset_of_pos 0)"
    by (auto simp: special_link_def Suc_le_eq)
  then show ?thesis
    using \<open>Suc p < NSLOT\<close> p(1) pos_of_offset_inverse [of "Suc p"] pos_of_offset_inverse [of 0] len
    by (auto simp: follow_def relink_nth)
qed

text \<open>
  C20. \<open>set_special_next\<close> keeps the links a ring: for a packed thread with \<open>k\<close> scavengers
  (\<open>0 < k < MAX_CRT_PER_THREAD\<close>), following \<open>special_next\<close> from position 1 visits the
  positions 1, 2, up to k in order and then returns to the primary at position 0.
\<close>

theorem special_links_form_ring:
  assumes inv: "msh_inv E s" and t: "t < MAX_THREAD_NUM" and pk: "packed (idx_list (prim s t))"
    and k: "k = length (items (idx_list (prim s t)))" "0 < k" "k < MAX_CRT_PER_THREAD"
  shows "map (\<lambda>j. (follow (prim (set_special_next t s) t) ^^ j) 1) [0..<k + 1] = [1..<k + 1] @ [0]"
proof -
  let ?f = "follow (prim (set_special_next t s) t)"
  have step: "?f p = (if p < k then Suc p else 0)" if "0 < p" "p \<le> k" for p
    using follow_relink [OF msh_invD(6) [OF inv t] pk that(1)] that k
      set_special_next_frame(6) [OF inv t] by simp
  have upto: "(?f ^^ j) 1 = Suc j" if "j < k" for j
    using that by (induction j) (simp_all add: step)
  have "(?f ^^ k) 1 = 0"
    using upto [of "k - 1"] step [of k] k(2) by (cases k) (auto simp: step)
  moreover have "map (\<lambda>j. (?f ^^ j) 1) [0..<k] = map Suc [0..<k]"
    using upto by (intro map_cong) auto
  ultimately show ?thesis by (simp add: map_Suc_upt)
qed

theorem special_links_form_ring_witness:
  "msh_inv rich_env (placed 2 two_hosts) \<and> packed (idx_list (prim (placed 2 two_hosts) 2)) \<and>
   map (\<lambda>j. (follow (prim (set_special_next 2 (placed 2 two_hosts)) 2) ^^ j) 1) [0..<3] = [1, 2, 0]"
proof -
  let ?s = "placed 2 two_hosts"
  have row: "idx_list (prim ?s 2) = idx_row two_hosts 2"
    using placed_row [OF sample_placeable(1), of 2] by (simp add: capacities)
  have "map (\<lambda>j. (follow (prim (set_special_next 2 ?s) 2) ^^ j) 1) [0..<2 + 1] = [1..<2 + 1] @ [0]"
    by (rule special_links_form_ring [OF placed_inv [OF sample_placeable(1)]])
      (simp_all add: row sample_rows, simp_all add: capacities)
  moreover have "[1..<2 + 1] @ [0 :: nat] = [1, 2, 0]" by (simp add: upt_rec)
  ultimately show ?thesis
    using placed_inv [OF sample_placeable(1), of 2] sample_rows(3) row by simp
qed

text \<open>
  C37. With every slot occupied the ring does not close: the last position reads one entry behind
  \<open>idx_list\<close>, finds \<open>scav_num\<close>, and gets a link to byte offset 2580, the slot behind the last.
\<close>

theorem special_link_of_last_slot:
  assumes inv: "msh_inv E s" and t: "t < MAX_THREAD_NUM" and n: "scav_num (prim s t) \<noteq> - 1"
  shows "special_next (ycs (prim (set_special_next t s) t) ! MAX_CRT_PER_THREAD) =
    int (sizeof_yield_ctx * NSLOT)"
proof -
  have "length (ycs (prim s t)) = NSLOT" using msh_invD(6) [OF inv t] by (simp add: prim_shape_def)
  then have "special_next (ycs (prim (set_special_next t s) t) ! MAX_CRT_PER_THREAD) =
      offset_of_pos NSLOT"
    using set_special_next_frame(6) [OF inv t] n
    by (simp add: relink_nth special_link_def less_NSLOT) (simp add: capacities)
  then show ?thesis by (simp add: offset_of_pos_eq)
qed

theorem special_link_of_last_slot_witness:
  "scav_num (prim (placed 2 two_hosts) 0) = 0 \<and> special_next
     (ycs (prim (set_special_next 0 (placed 2 two_hosts)) 0) ! MAX_CRT_PER_THREAD) = 2580"
proof -
  have t: "0 < MAX_THREAD_NUM" by (simp add: capacities)
  note n = placed_facts(2) [OF sample_placeable(1) t]
  then show ?thesis
    using special_link_of_last_slot [OF placed_inv [OF sample_placeable(1)] t, of 2]
    by (simp add: capacities)
qed

section \<open>The primary's next coroutine and the searches\<close>

lemma tl_find_unfinished_crt_spec:
  assumes inv: "msh_inv E s" and t: "t < MAX_THREAD_NUM"
  shows "if tl_find_unfinished_crt s t = 0 then \<forall>p. 0 < p \<and> p < NSLOT \<longrightarrow> idx_of s t p = - 1
    else slot t (tl_find_unfinished_crt s t) \<and> idx_of s t (tl_find_unfinished_crt s t) \<noteq> - 1 \<and>
      (\<forall>p. 0 < p \<and> p < tl_find_unfinished_crt s t \<longrightarrow> idx_of s t p = - 1)"
proof (cases "first_pos (\<lambda>p. tl_get_crt_idx_at s t p \<noteq> - 1) 1 NSLOT")
  case None
  then have "tl_find_unfinished_crt s t = 0" by (simp add: tl_find_unfinished_crt_def)
  moreover have "\<forall>p. 0 < p \<and> p < NSLOT \<longrightarrow> idx_of s t p = - 1"
    using None unfolding first_pos_None by (auto simp: get_idx)
  ultimately show ?thesis by simp
next
  case (Some p)
  then have "tl_find_unfinished_crt s t = p" by (simp add: tl_find_unfinished_crt_def)
  moreover have "slot t p \<and> idx_of s t p \<noteq> - 1 \<and> (\<forall>q. 0 < q \<and> q < p \<longrightarrow> idx_of s t q = - 1)"
    using Some t unfolding first_pos_Some by (auto simp: get_idx)
  ultimately show ?thesis by auto
qed

text \<open>On a coherent state the search over live slots and the search over the index list agree.\<close>

lemma tl_next_available_eq_unfinished:
  assumes inv: "msh_inv E s" and t: "t < MAX_THREAD_NUM"
  shows "tl_next_available_crt s t = tl_find_unfinished_crt s t"
proof -
  have "first_pos (\<lambda>p. next_of s t p \<noteq> - 1) 1 NSLOT =
      first_pos (\<lambda>p. tl_get_crt_idx_at s t p \<noteq> - 1) 1 NSLOT"
    by (rule first_pos_cong) (use free_facts [OF inv] t in \<open>auto simp: get_idx\<close>)
  then show ?thesis by (simp add: tl_next_available_crt_def tl_find_unfinished_crt_def)
qed

lemma tl_update_next_map_inv:
  assumes inv: "msh_inv E s" and t: "t < MAX_THREAD_NUM"
  shows "msh_inv E (tl_update_next_map t s)" "frame t s (tl_update_next_map t s)"
  using msh_inv_yc_upd [OF inv t, of 0] frame_yc_upd [OF msh_invD(1) [OF inv] t] inv
  by (auto simp: tl_update_next_map_def)

section \<open>Packing\<close>

lemma items_hosted:
  assumes "prim_shape c" and "idx_list c ! 0 = - 1"
  shows "items (idx_list c) = map fst (hosted c)"
proof -
  let ?z = "zip (idx_list c) (zip (map (\<lambda>y. (sp y, ip y)) (ycs c)) (regs c))"
  have "map fst (hosted c) = filter (\<lambda>x. x \<noteq> - 1) (map fst ?z)"
    by (simp add: hosted_def filter_map comp_def)
  also have "\<dots> = filter (\<lambda>x. x \<noteq> - 1) (idx_list c)"
    using assms(1) by (simp add: prim_shape_def)
  also have "\<dots> = items (idx_list c)"
    using assms by (cases "idx_list c") (auto simp: items_def prim_shape_def)
  finally show ?thesis ..
qed

lemma placed_hosted:
  "placeable l \<Longrightarrow> t < MAX_THREAD_NUM \<Longrightarrow>
   map fst (hosted (prim (placed cap l) t)) = items (idx_row l t)"
  using items_hosted [of "prim (placed cap l) t"] placed_facts [of l t cap] placed_row [of l t cap]
  by simp

definition pack_inv :: "env \<Rightarrow> nat \<Rightarrow> msh_state \<Rightarrow> nat \<Rightarrow> msh_state \<Rightarrow> bool" where
  "pack_inv E t s0 k s \<longleftrightarrow> msh_inv E s \<and> frame t s0 s \<and> hosted (prim s t) = hosted (prim s0 t) \<and>
     gone (abs E s) = gone (abs E s0) \<and> linked (abs E s) = linked (abs E s0) \<and>
     set (stray_writes s) \<subseteq> insert (- 1) (set (stray_writes s0)) \<and> next_of s t 0 \<noteq> - 1 \<and>
     (\<forall>p q. 0 < p \<and> p < k \<and> p < q \<and> q < NSLOT \<and> idx_of s t p = - 1 \<longrightarrow> idx_of s t q = - 1)"

lemma pack_inv_no_hole:
  "pack_inv E t s0 k s \<Longrightarrow> 0 < p \<Longrightarrow> p < k \<Longrightarrow> p < q \<Longrightarrow> q < NSLOT \<Longrightarrow> idx_of s t p = - 1 \<Longrightarrow>
   idx_of s t q = - 1"
  unfolding pack_inv_def by blast

lemma pack_step_swap:
  assumes J: "pack_inv E t s0 k s" and k: "0 < k" "k < n" "n < NSLOT" and t: "t < MAX_THREAD_NUM"
    and hole: "idx_of s t k = - 1" and occ: "idx_of s t n \<noteq> - 1"
    and gap: "\<And>j. k < j \<Longrightarrow> j < n \<Longrightarrow> idx_of s t j = - 1"
  shows "ends (tl_swap_crts E t k n s) never (pack_inv E t s0 (Suc k))"
proof -
  have inv: "msh_inv E s" and sk: "slot t k" and sn: "slot t n"
    using J k t by (auto simp: pack_inv_def)
  have sh: "prim_shape (prim s t)" using msh_invD(6) [OF inv t] .
  have len: "length (idx_list (prim s t)) = NSLOT" "length (ycs (prim s t)) = NSLOT"
    using sh by (auto simp: prim_shape_def)
  have full: "idx_of s t p \<noteq> - 1" if "0 < p" "p < k" for p
    using pack_inv_no_hole [OF J that] that k occ by auto
  have gap': "idx_list (prim s t) ! j = - 1" if "k \<le> j" "j < n" for j
    using gap [of j] hole that by (cases "j = k") auto
  have "pack_inv E t s0 (Suc k) s'"
    if s': "msh_inv E s'" "abs E s' = move t n t k (abs E s)" "frame t s s'"
      "prim s' t = swap_ctx k n (prim s t)" "stray_writes s' = stray_writes s @ [- 1]" for s'
  proof -
    have "idx_of s' t p \<noteq> - 1" if "0 < p" "p < Suc k" for p
      using that full [of p] occ k len by (auto simp: s'(4) swap_ctx_def nth_swap_nth less_Suc_eq)
    moreover have "next_of s' t 0 \<noteq> - 1"
      using J k len by (simp add: s'(4) swap_ctx_def nth_swap_nth redirect_live pack_inv_def)
    ultimately show ?thesis
      using J s' hosted_swap_ctx [OF sh k(2,3) gap'] frame_trans [of t s0 s s']
      by (auto simp: pack_inv_def move_def Let_def)
  qed
  then show ?thesis
    using ends_mono [OF tl_swap_crts_refines_move [OF inv sk sn hole occ]] by blast
qed

lemma pack_step_inv:
  assumes J: "pack_inv E t s0 k s" and k: "1 \<le> k" "k < NSLOT" and t: "t < MAX_THREAD_NUM"
  shows "ends (pack_step E t k s) never (pack_inv E t s0 (Suc k))"
proof (cases "idx_of s t k = - 1")
  case False
  with J k show ?thesis by (auto simp: pack_step_def get_idx pack_inv_def less_Suc_eq)
next
  case hole: True
  show ?thesis
  proof (cases "first_pos (\<lambda>n. tl_get_crt_idx_at s t n \<noteq> - 1) (k + 1) NSLOT")
    case None
    then have "idx_of s t q = - 1" if "k < q" "q < NSLOT" for q
      using that unfolding first_pos_None by (auto simp: get_idx)
    then show ?thesis using J k hole None
      by (auto simp: pack_step_def get_idx pack_inv_def less_Suc_eq)
  next
    case (Some n)
    then have n: "k < n" "n < NSLOT" "idx_of s t n \<noteq> - 1"
        "\<And>j. k < j \<Longrightarrow> j < n \<Longrightarrow> idx_of s t j = - 1"
      unfolding first_pos_Some by (auto simp: get_idx Suc_le_eq)
    have "pack_step E t k s = tl_swap_crts E t k n s"
      using Some hole k by (simp add: pack_step_def get_idx)
    then show ?thesis using pack_step_swap [OF J _ n(1,2) t hole n(3,4)] k by simp
  qed
qed

lemma tl_pack_crts_ends:
  assumes inv: "msh_inv E s" and t: "t < MAX_THREAD_NUM" and live: "next_of s t 0 \<noteq> - 1"
  shows "ends (tl_pack_crts E t s) never (\<lambda>s'. pack_inv E t s NSLOT s' \<and>
    packed (idx_list (prim s' t)))"
proof -
  have start: "pack_inv E t s 1 s" using inv live by (auto simp: pack_inv_def)
  have loop: "ends (foldR (pack_step E t) [1..<NSLOT] s) never (pack_inv E t s NSLOT)"
    by (rule foldR_upt_rule) (use start pack_step_inv t in \<open>auto simp: NSLOT_def\<close>)
  have post: "pack_inv E t s NSLOT (set_special_next t s1) \<and>
      packed (idx_list (prim (set_special_next t s1) t))" if J: "pack_inv E t s NSLOT s1" for s1
  proof -
    have inv1: "msh_inv E s1" using J by (simp add: pack_inv_def)
    have len: "length (idx_list (prim s1 t)) = NSLOT" "length (ycs (prim s1 t)) = NSLOT"
      using msh_invD(6) [OF inv1 t] by (auto simp: prim_shape_def)
    then have "packed (idx_list (prim s1 t))"
      using pack_inv_no_hole [OF J] NSLOT_pos
      by (intro packed_no_hole) (auto simp del: NSLOT_pos)
    then show ?thesis
      using J set_special_next_frame [OF inv1 t] hosted_relink [OF len(2)] normal_next_relink [OF len(2)]
        frame_trans [of t s s1 "set_special_next t s1"]
      by (auto simp: pack_inv_def abs_def)
  qed
  have "tl_pack_crts E t s =
      bindR (foldR (pack_step E t) [1..<NSLOT] s) (\<lambda>s. Inr (set_special_next t s))"
    using live by (simp add: tl_pack_crts_def tl_yield_ctx_at_def)
  then show ?thesis by (simp only:) (rule ends_bindI [OF loop], simp add: post)
qed

text \<open>
  C4. \<open>tl_pack_crts\<close> is a stable compaction: it always returns, afterwards no hole precedes an
  occupied slot, the hosted scavengers are the same and in the same order, each still with its
  own stack pointer, instruction pointer and register set, the tables agree, and no other
  thread's context changes. Its only stores outside the tables go to \<open>SCAV_TABLE[-1]\<close>.
\<close>

theorem pack_is_stable_compaction:
  assumes "msh_inv E s" and "t < MAX_THREAD_NUM" and "next_of s t 0 \<noteq> - 1"
  shows "ends (tl_pack_crts E t s) never (\<lambda>s'. msh_inv E s' \<and> packed (idx_list (prim s' t)) \<and>
    hosted (prim s' t) = hosted (prim s t) \<and> frame t s s' \<and>
    set (stray_writes s') \<subseteq> insert (- 1) (set (stray_writes s)))"
  using tl_pack_crts_ends [OF assms] by (rule ends_mono) (auto simp: pack_inv_def)

theorem pack_is_stable_compaction_witness:
  "next_of (placed 2 with_hole) 0 0 = 0 \<and> ends (tl_pack_crts rich_env 0 (placed 2 with_hole)) never
     (\<lambda>s'. packed (idx_list (prim s' 0)) \<and> map fst (hosted (prim s' 0)) = [4, 5, 6])"
proof -
  have t: "0 < MAX_THREAD_NUM" by (simp add: capacities)
  note pl = sample_placeable(2)
  have "ends (tl_pack_crts rich_env 0 (placed 2 with_hole)) never (\<lambda>s'. msh_inv rich_env s' \<and>
      packed (idx_list (prim s' 0)) \<and> hosted (prim s' 0) = hosted (prim (placed 2 with_hole) 0) \<and>
      frame 0 (placed 2 with_hole) s' \<and>
      set (stray_writes s') \<subseteq> insert (- 1) (set (stray_writes (placed 2 with_hole))))"
    by (rule pack_is_stable_compaction [OF placed_inv [OF pl] t]) (simp add: placed_facts [OF pl t])
  then have "ends (tl_pack_crts rich_env 0 (placed 2 with_hole)) never
      (\<lambda>s'. packed (idx_list (prim s' 0)) \<and> map fst (hosted (prim s' 0)) = [4, 5, 6])"
    by (rule ends_mono) (auto simp: placed_hosted [OF pl t] sample_rows)
  then show ?thesis using placed_facts(1) [OF pl t] by simp
qed

end
