(* ===== verification/Pool.thy ===== *)
theory Pool
  imports Slots "HOL-Library.Char_ord"
begin

text \<open>
  Initialisation in \<open>libmsh/msh.c\<close>: clearing the thread table (\<open>init_prim_table\<close>), reading the
  scavenger pool file line by line (\<open>init_scav_table\<close>), and loading one scavenger per command
  line (\<open>init_scav_table_entry\<close>). \<open>fgets\<close> and \<open>strcspn\<close> are modelled on the file's characters.
\<close>

section \<open>Reading lines\<close>

definition newline :: char where "newline = CHR 0x0A"
definition nul :: char where "nul = CHR 0x00"
definition MAX_SCV_CMD_LEN :: nat where "MAX_SCV_CMD_LEN = 256"

fun take_line :: "nat \<Rightarrow> string \<Rightarrow> string \<times> string" where
  "take_line 0 cs = ([], cs)"
| "take_line (Suc n) [] = ([], [])"
| "take_line (Suc n) (c # cs) =
     (if c = newline then ([c], cs) else let (l, r) = take_line n cs in (c # l, r))"

text \<open>\<open>fgets\<close> stores at most \<open>n - 1\<close> characters and gives a null pointer at the end of the file.\<close>

definition fgets :: "nat \<Rightarrow> string \<Rightarrow> (string \<times> string) option" where
  "fgets n cs = (if cs = [] then None else Some (take_line (n - 1) cs))"

text \<open>The C string left in the buffer after \<open>cmd[strcspn(cmd, newline)] = 0\<close>.\<close>

definition cut_newline :: "string \<Rightarrow> string" where
  "cut_newline cmd = takeWhile (\<lambda>c. c \<noteq> nul \<and> c \<noteq> newline) cmd"

lemma take_line_append: "take_line n cs = (l, r) \<Longrightarrow> cs = l @ r"
  by (induction n cs arbitrary: l r rule: take_line.induct) (auto split: if_splits prod.splits)

lemma take_line_nonempty: "cs \<noteq> [] \<Longrightarrow> 0 < n \<Longrightarrow> take_line n cs = (l, r) \<Longrightarrow> l \<noteq> []"
  by (cases n; cases cs) (auto split: if_splits prod.splits)

lemma fgets_shorter: "fgets MAX_SCV_CMD_LEN cs = Some (l, r) \<Longrightarrow> length r < length cs"
proof -
  assume "fgets MAX_SCV_CMD_LEN cs = Some (l, r)"
  then have "take_line 255 cs = (l, r)" "cs \<noteq> []"
    by (auto simp: fgets_def MAX_SCV_CMD_LEN_def split: if_splits)
  then have "cs = l @ r" "l \<noteq> []"
    using take_line_append take_line_nonempty [of cs 255 l r] by auto
  then show ?thesis by auto
qed

section \<open>Loading a scavenger\<close>

definition parse_command :: "env \<Rightarrow> string \<Rightarrow> (int \<times> string list) res" where
  "parse_command E str = (case wordexp E str of
      None \<Rightarrow> Inl Indeterminate
    | Some ws \<Rightarrow> Inr (int (length ws), ws))"

definition argv_0 :: "string list \<Rightarrow> string option" where
  "argv_0 ws = (case ws of [] \<Rightarrow> None | w # _ \<Rightarrow> Some w)"

definition init_scav_table_entry :: "env \<Rightarrow> coroutine_ctx \<Rightarrow> string \<Rightarrow> coroutine_ctx res" where
  "init_scav_table_entry E ctx cmd =
     bindR (parse_command E (cut_newline cmd)) (\<lambda>(n, ws).
       let ctx = ctx\<lparr>argc := n, argv := ws\<rparr> in
       case dlopen E (argv_0 ws) of
         None \<Rightarrow> Inl ExitFailure
       | Some h \<Rightarrow>
           let ctx = ctx\<lparr>stack := (\<lambda>_. 0), lib_handle := Some h, entry := dlsym E h ''entry'',
                 ret_to_sched := ret_to_scheduler_addr E, yc := None, finished := False\<rparr>
           in if entry ctx = None then Inl ExitFailure
              else Inr (ctx\<lparr>init := dlsym E h ''init'', inited := False\<rparr>))"

section \<open>The tables\<close>

definition clear_prim :: "primary_thread_ctx \<Rightarrow> primary_thread_ctx" where
  "clear_prim c = c\<lparr>ycs := map (\<lambda>y. y\<lparr>normal_next := - 1\<rparr>) (ycs c),
     idx_list := map (\<lambda>_. - 1) (idx_list c), reallocatable := False, reallocated := False,
     scav_num := 0\<rparr>"

definition init_prim_table :: "env \<Rightarrow> msh_state \<Rightarrow> msh_state res" where
  "init_prim_table E s =
     foldR (\<lambda>i s. if unat (ycs_addr (prim_base E) i) mod 64 = 0 then Inr (prim_upd i clear_prim s)
                   else Inl AssertionFailed) [0..<MAX_THREAD_NUM] s"

function read_pool :: "env \<Rightarrow> string \<Rightarrow> nat \<Rightarrow> msh_state \<Rightarrow> (nat \<times> msh_state) res" where
  "read_pool E content scav_counts s =
     (case fgets MAX_SCV_CMD_LEN content of
        None \<Rightarrow> Inr (scav_counts, s)
      | Some (line_buf, rest) \<Rightarrow>
          if hd line_buf = CHR ''#'' then read_pool E rest scav_counts s
          else if scav_counts > MAX_ACTIVE_CRT_NUM_PER_APPLICATION then Inl ExitFailure
          else bindR (scav_get s (int scav_counts)) (\<lambda>ctx.
               bindR (init_scav_table_entry E ctx line_buf) (\<lambda>ctx.
               read_pool E rest (scav_counts + 1) (scav_upd (int scav_counts) (\<lambda>_. ctx) s))))"
  by pat_completeness auto
termination
  by (relation "measure (\<lambda>(E, content, n, s). length content)") (auto dest: fgets_shorter)

declare read_pool.simps [simp del]

definition init_scav_table :: "env \<Rightarrow> string \<Rightarrow> msh_state \<Rightarrow> msh_state res" where
  "init_scav_table E local_pool_path s =
     bindR (lock_scav_table s) (\<lambda>s.
       case fopen E local_pool_path of
         None \<Rightarrow> Inl ExitFailure
       | Some content \<Rightarrow>
           let s = s\<lparr>SCAV_TABLE := map (\<lambda>c. c\<lparr>lib_handle := None\<rparr>) (SCAV_TABLE s)\<rparr>
           in bindR (read_pool E content 0 s) (\<lambda>(_, s). Inr (unlock_scav_table s)))"

section \<open>The commands of a pool file\<close>

text \<open>
  Reference reading of a pool file: the buffers \<open>fgets\<close> delivers, without the comments.
\<close>

function pool_commands :: "string \<Rightarrow> string list" where
  "pool_commands content =
     (case fgets MAX_SCV_CMD_LEN content of
        None \<Rightarrow> []
      | Some (line_buf, rest) \<Rightarrow>
          if hd line_buf = CHR ''#'' then pool_commands rest else line_buf # pool_commands rest)"
  by pat_completeness auto
termination
  by (relation "measure length") (auto dest: fgets_shorter)

declare pool_commands.simps [simp del]

lemma take_line_line:
  assumes "newline \<notin> set l" and "length l < n"
  shows "take_line n (l @ newline # cs) = (l @ [newline], cs)"
  using assms
proof (induction l arbitrary: n)
  case Nil
  then show ?case by (cases n) auto
next
  case (Cons c l)
  then show ?case by (cases n) auto
qed

lemma fgets_line:
  assumes "newline \<notin> set l" and "length l < 255"
  shows "fgets MAX_SCV_CMD_LEN (l @ newline # cs) = Some (l @ [newline], cs)"
  using take_line_line [of l 255 cs] assms by (simp add: fgets_def MAX_SCV_CMD_LEN_def)

definition unlines :: "string list \<Rightarrow> string" where
  "unlines ls = concat (map (\<lambda>l. l @ [newline]) ls)"

lemma pool_commands_unlines:
  assumes "\<forall>l \<in> set ls. newline \<notin> set l \<and> nul \<notin> set l \<and> length l < 255"
  shows "map cut_newline (pool_commands (unlines ls)) =
    filter (\<lambda>l. l = [] \<or> hd l \<noteq> CHR ''#'') ls"
  using assms
proof (induction ls)
  case Nil
  then show ?case by (simp add: unlines_def pool_commands.simps fgets_def)
next
  case (Cons l ls)
  have l: "newline \<notin> set l" "nul \<notin> set l" "length l < 255" using Cons.prems by auto
  have "unlines (l # ls) = l @ newline # unlines ls" by (simp add: unlines_def)
  then have eq: "pool_commands (unlines (l # ls)) =
      (if hd (l @ [newline]) = CHR ''#'' then pool_commands (unlines ls)
       else (l @ [newline]) # pool_commands (unlines ls))"
    using fgets_line [OF l(1,3)] by (subst pool_commands.simps) simp
  have "cut_newline (l @ [newline]) = l"
    using l(1,2) unfolding cut_newline_def by (subst takeWhile_append2) (auto simp: newline_def nul_def)
  moreover have "hd (l @ [newline]) = CHR ''#'' \<longleftrightarrow> \<not> (l = [] \<or> hd l \<noteq> CHR ''#'')"
    by (cases l) (auto simp: newline_def)
  ultimately show ?case using Cons eq by auto
qed

section \<open>Loading the pool\<close>

fun load_all :: "env \<Rightarrow> string list \<Rightarrow> nat \<Rightarrow> msh_state \<Rightarrow> (nat \<times> msh_state) res" where
  "load_all E [] n s = Inr (n, s)"
| "load_all E (cmd # cmds) n s =
     (if n > MAX_ACTIVE_CRT_NUM_PER_APPLICATION then Inl ExitFailure
      else bindR (scav_get s (int n)) (\<lambda>ctx.
           bindR (init_scav_table_entry E ctx cmd) (\<lambda>ctx.
           load_all E cmds (n + 1) (scav_upd (int n) (\<lambda>_. ctx) s))))"

lemma read_pool_eq: "read_pool E content n s = load_all E (pool_commands content) n s"
proof (induction E content n s rule: read_pool.induct)
  case (1 E content n s)
  show ?case
  proof (cases "fgets MAX_SCV_CMD_LEN content")
    case None
    then show ?thesis by (simp add: read_pool.simps [of E content] pool_commands.simps [of content])
  next
    case (Some a)
    obtain line rest where a: "a = (line, rest)" by (cases a)
    have IH: "read_pool E rest m s' = load_all E (pool_commands rest) m s'"
      if "hd line \<noteq> CHR ''#''" "\<not> MAX_ACTIVE_CRT_NUM_PER_APPLICATION < n" "m = n + 1"
        "s' = scav_upd (int n) (\<lambda>_. c) s" for m s' c
      using "1.IH"(2) [OF Some a [symmetric] that(1,2)] that(3,4) by simp
    show ?thesis
      using "1.IH"(1) [OF Some a [symmetric]] IH Some a
      by (simp add: read_pool.simps [of E content] pool_commands.simps [of content]
          cong: if_cong)
  qed
qed

definition load_ok :: "env \<Rightarrow> string \<Rightarrow> bool" where
  "load_ok E cmd \<longleftrightarrow> (case wordexp E (cut_newline cmd) of None \<Rightarrow> False
     | Some ws \<Rightarrow> (case dlopen E (argv_0 ws) of None \<Rightarrow> False | Some h \<Rightarrow> dlsym E h ''entry'' \<noteq> None))"

text \<open>The table entry that belongs to a command line, ready to be allocated.\<close>

definition entry_for :: "env \<Rightarrow> string \<Rightarrow> coroutine_ctx \<Rightarrow> bool" where
  "entry_for E cmd c \<longleftrightarrow> wordexp E (cut_newline cmd) = Some (argv c) \<and>
     argc c = int (length (argv c)) \<and> lib_handle c \<noteq> None \<and> lib_handle c = dlopen E (argv_0 (argv c)) \<and>
     entry c \<noteq> None \<and> entry c = dlsym E (the (lib_handle c)) ''entry'' \<and>
     init c = dlsym E (the (lib_handle c)) ''init'' \<and>
     ret_to_sched c = ret_to_scheduler_addr E \<and> yc c = None \<and> \<not> finished c \<and> \<not> inited c"

text \<open>The handle of the library that a command line names.\<close>

definition cmd_handle :: "env \<Rightarrow> string \<Rightarrow> nat option" where
  "cmd_handle E cmd = (case wordexp E (cut_newline cmd) of None \<Rightarrow> None | Some ws \<Rightarrow> dlopen E (argv_0 ws))"

lemma entry_for_handle: "entry_for E cmd c \<Longrightarrow> lib_handle c = cmd_handle E cmd \<and> lib_handle c \<noteq> None"
  by (auto simp: entry_for_def cmd_handle_def)

lemma entry_for_words: "entry_for E cmd c \<Longrightarrow> wordexp E (cut_newline cmd) = Some (argv c)"
  unfolding entry_for_def by blast

lemma entry_for_free: "entry_for E cmd c \<Longrightarrow> yc c = None \<and> \<not> finished c"
  unfolding entry_for_def by blast

lemma init_scav_table_entry_ok:
  "load_ok E cmd \<Longrightarrow> \<exists>c'. init_scav_table_entry E c cmd = Inr c' \<and> entry_for E cmd c'"
  by (auto simp: load_ok_def init_scav_table_entry_def parse_command_def entry_for_def
      split: option.splits)

text \<open>The errors loading can end in: the two \<open>err_check\<close>s and a failing \<open>wordexp\<close>.\<close>

lemma init_scav_table_entry_ends:
  "ends (init_scav_table_entry E c cmd) (\<lambda>e. e \<in> {ExitFailure, Indeterminate}) (entry_for E cmd)"
  by (auto simp: init_scav_table_entry_def parse_command_def entry_for_def Let_def split: option.splits)

text \<open>The table after loading \<open>cmds\<close> into the entries from \<open>n\<close> on.\<close>

definition loaded_from :: "env \<Rightarrow> string list \<Rightarrow> nat \<Rightarrow> msh_state \<Rightarrow> msh_state \<Rightarrow> bool" where
  "loaded_from E cmds n s s' \<longleftrightarrow> shape s' \<and> PRIM_TABLE s' = PRIM_TABLE s \<and>
     scav_table_lock s' = scav_table_lock s \<and> max_scav_per_thread s' = max_scav_per_thread s \<and>
     (\<forall>i < MAX_ACTIVE_CRT_NUM_PER_APPLICATION.
       if n \<le> i \<and> i < n + length cmds then entry_for E (cmds ! (i - n)) (SCAV_TABLE s' ! i)
       else SCAV_TABLE s' ! i = SCAV_TABLE s ! i)"

lemma loaded_fromD:
  assumes "loaded_from E cmds n s s'" and "i < MAX_ACTIVE_CRT_NUM_PER_APPLICATION"
  shows "n \<le> i \<Longrightarrow> i < n + length cmds \<Longrightarrow> entry_for E (cmds ! (i - n)) (SCAV_TABLE s' ! i)"
    and "\<not> (n \<le> i \<and> i < n + length cmds) \<Longrightarrow> SCAV_TABLE s' ! i = SCAV_TABLE s ! i"
  using assms unfolding loaded_from_def by metis+

lemma loaded_from_Cons:
  assumes "shape s" and n: "n < MAX_ACTIVE_CRT_NUM_PER_APPLICATION" and x: "entry_for E c x"
    and rest: "loaded_from E cs (n + 1) (scav_upd (int n) (\<lambda>_. x) s) s'"
  shows "loaded_from E (c # cs) n s s'"
proof -
  have tab: "SCAV_TABLE (scav_upd (int n) (\<lambda>_. x) s) ! i = (if i = n then x else SCAV_TABLE s ! i)" for i
    using assms(1) n by (simp add: scav_upd_def scav_in_range_def shape_def nth_list_update)
  have "if n \<le> i \<and> i < n + length (c # cs) then entry_for E ((c # cs) ! (i - n)) (SCAV_TABLE s' ! i)
      else SCAV_TABLE s' ! i = SCAV_TABLE s ! i" if i: "i < MAX_ACTIVE_CRT_NUM_PER_APPLICATION" for i
  proof -
    have r: "if n + 1 \<le> i \<and> i < n + 1 + length cs
        then entry_for E (cs ! (i - (n + 1))) (SCAV_TABLE s' ! i)
        else SCAV_TABLE s' ! i = (if i = n then x else SCAV_TABLE s ! i)"
      using rest i unfolding loaded_from_def tab by blast
    consider "i < n" | "i = n" | "n < i" by linarith
    then show ?thesis
    proof cases
      case 3
      then obtain d where "i = n + Suc d" using less_imp_Suc_add by auto
      then show ?thesis using r by (auto split: if_splits)
    qed (use r x in auto)
  qed
  then show ?thesis using rest by (simp add: loaded_from_def)
qed

lemma load_all_ok:
  assumes "shape s" and "n + length cmds \<le> MAX_ACTIVE_CRT_NUM_PER_APPLICATION"
    and "\<And>c. c \<in> set cmds \<Longrightarrow> load_ok E c"
  shows "ends (load_all E cmds n s) never (\<lambda>(m, s'). m = n + length cmds \<and> loaded_from E cmds n s s')"
  using assms
proof (induction cmds arbitrary: n s)
  case Nil
  then show ?case by (auto simp: loaded_from_def)
next
  case (Cons c cs)
  obtain x where x: "init_scav_table_entry E (scav s (int n)) c = Inr x" "entry_for E c x"
    using init_scav_table_entry_ok Cons.prems(3) by (metis list.set_intros(1))
  let ?s = "scav_upd (int n) (\<lambda>_. x) s"
  have n: "n < MAX_ACTIVE_CRT_NUM_PER_APPLICATION" using Cons.prems(2) by simp
  have "load_all E (c # cs) n s = load_all E cs (n + 1) ?s"
    using x(1) n by (simp add: scav_get_def scav_in_range_def)
  moreover have "ends (load_all E cs (n + 1) ?s) never
      (\<lambda>(m, s'). m = n + 1 + length cs \<and> loaded_from E cs (n + 1) ?s s')"
    using Cons.prems by (intro Cons.IH) auto
  ultimately show ?case
    using loaded_from_Cons [OF Cons.prems(1) n x(2)] by (auto elim!: ends_mono)
qed

text \<open>One command too many for the table goes past its end.\<close>

lemma load_all_overflow:
  assumes "shape s" and "n + length cmds = MAX_ACTIVE_CRT_NUM_PER_APPLICATION"
    and "\<And>c. c \<in> set cmds \<Longrightarrow> load_ok E c"
  shows "load_all E (cmds @ extra # rest) n s = Inl OutOfBounds"
  using assms
proof (induction cmds arbitrary: n s)
  case Nil
  then show ?case by (simp add: scav_get_def scav_in_range_def)
next
  case (Cons c cs)
  obtain x where x: "init_scav_table_entry E (scav s (int n)) c = Inr x"
    using init_scav_table_entry_ok Cons.prems(3) by (metis list.set_intros(1))
  have "load_all E (cs @ extra # rest) (n + 1) (scav_upd (int n) (\<lambda>_. x) s) = Inl OutOfBounds"
    using Cons.prems by (intro Cons.IH) auto
  then show ?case using x Cons.prems(2) by (simp add: scav_get_def scav_in_range_def)
qed

text \<open>
  A sample environment for the witnesses: a file with the given lines, one word per command line,
  a library per file-name length, every symbol resolved.
\<close>

definition sample_env :: "string list \<Rightarrow> env" where
  "sample_env ls = \<lparr>dlopen = map_option length, dlsym = (\<lambda>h f. Some (of_nat (1000 * h + length f))),
     wordexp = (\<lambda>c. Some [c]), fopen = (\<lambda>_. Some (unlines ls)), getenv = (\<lambda>_. Some ''pool.txt''),
     run_init = (\<lambda>_ _ c. c),
     run_scav = (\<lambda>_ pos c. (sp (ycs c ! pos), ip (ycs c ! pos), regs c ! pos, loop_counter c ! pos)), scav_base = 4096, prim_base = 8192, ret_to_scheduler_addr = 64\<rparr>"

lemma sample_env_loads: "load_ok (sample_env ls) cmd"
  by (simp add: load_ok_def sample_env_def argv_0_def)

lemma sample_pool_length:
  assumes "l \<noteq> []" and "hd l \<noteq> CHR ''#''" and "newline \<notin> set l \<and> nul \<notin> set l \<and> length l < 255"
  shows "length (pool_commands (unlines (replicate n l))) = n"
proof -
  have "map cut_newline (pool_commands (unlines (replicate n l))) =
      filter (\<lambda>l. l = [] \<or> hd l \<noteq> CHR ''#'') (replicate n l)"
    using assms by (intro pool_commands_unlines) auto
  then have "length (map cut_newline (pool_commands (unlines (replicate n l)))) = n"
    using assms(2) by simp
  then show ?thesis by simp
qed

lemma sample_a_length: "length (pool_commands (unlines (replicate n ''a.so''))) = n"
  by (rule sample_pool_length) (simp_all add: newline_def nul_def)

lemma init_scav_table_loads:
  assumes "shape s" and "scav_table_lock s = 0" and "fopen E path = Some content"
    and "length (pool_commands content) \<le> MAX_ACTIVE_CRT_NUM_PER_APPLICATION"
    and "\<forall>cmd \<in> set (pool_commands content). load_ok E cmd"
  shows "ends (init_scav_table E path s) never (\<lambda>s'. scav_table_lock s' = 0 \<and>
    PRIM_TABLE s' = PRIM_TABLE s \<and>
    (\<forall>i < MAX_ACTIVE_CRT_NUM_PER_APPLICATION.
       if i < length (pool_commands content)
       then entry_for E (pool_commands content ! i) (SCAV_TABLE s' ! i)
       else lib_handle (SCAV_TABLE s' ! i) = None))"
proof -
  let ?s = "s\<lparr>scav_table_lock := BUSY, SCAV_TABLE := map (\<lambda>c. c\<lparr>lib_handle := None\<rparr>) (SCAV_TABLE s)\<rparr>"
  have "shape ?s" using assms(1) by (simp add: shape_def)
  then have "ends (read_pool E content 0 ?s) never
      (\<lambda>(m, s'). m = 0 + length (pool_commands content) \<and> loaded_from E (pool_commands content) 0 ?s s')"
    unfolding read_pool_eq using assms(4,5) by (intro load_all_ok) auto
  moreover have "init_scav_table E path s =
      bindR (read_pool E content 0 ?s) (\<lambda>(_, s). Inr (unlock_scav_table s))"
    using assms(2,3) by (simp add: init_scav_table_def lock_scav_table_free)
  moreover have "(if i < length (pool_commands content)
       then entry_for E (pool_commands content ! i) (SCAV_TABLE s' ! i)
       else lib_handle (SCAV_TABLE s' ! i) = None)"
    if "loaded_from E (pool_commands content) 0 ?s s'" "i < MAX_ACTIVE_CRT_NUM_PER_APPLICATION" for s' i
    using loaded_fromD [OF that] that(2) assms(1) by (simp add: shape_def)
  moreover have "PRIM_TABLE s' = PRIM_TABLE s" if "loaded_from E (pool_commands content) 0 ?s s'" for s'
    using that by (simp add: loaded_from_def)
  ultimately show ?thesis
    by (auto simp: ends_bindR unlock_scav_table_def spin_unlock_def split: prod.splits elim!: ends_mono)
qed

text \<open>
  C19. A pool that fits the table is loaded completely: if every command resolves and there are
  at most 512 of them, \<open>init_scav_table\<close> returns with the lock free, entry \<open>i\<close> holds the library,
  entry point, arguments and flags of the \<open>i\<close>-th command, and all further entries are empty.
\<close>

theorem pool_is_loaded:
  assumes "shape s" and "scav_table_lock s = 0" and "fopen E path = Some content"
    and "length (pool_commands content) \<le> MAX_ACTIVE_CRT_NUM_PER_APPLICATION"
    and "\<forall>cmd \<in> set (pool_commands content). load_ok E cmd"
  shows "ends (init_scav_table E path s) never (\<lambda>s'. scav_table_lock s' = 0 \<and>
    PRIM_TABLE s' = PRIM_TABLE s \<and>
    (\<forall>i < MAX_ACTIVE_CRT_NUM_PER_APPLICATION.
       if i < length (pool_commands content)
       then entry_for E (pool_commands content ! i) (SCAV_TABLE s' ! i)
       else lib_handle (SCAV_TABLE s' ! i) = None))"
  using assms by (rule init_scav_table_loads)

theorem pool_is_loaded_witness:
  "let E = sample_env (replicate 2 ''a.so'') in
   ends (init_scav_table E ''pool.txt'' zero_state) never (\<lambda>s'. scav_table_lock s' = 0 \<and>
     lib_handle (SCAV_TABLE s' ! 0) \<noteq> None \<and> lib_handle (SCAV_TABLE s' ! 1) \<noteq> None \<and>
     lib_handle (SCAV_TABLE s' ! 2) = None)"
proof -
  let ?ls = "replicate 2 ''a.so''"
  let ?E = "sample_env ?ls"
  have l: "length (pool_commands (unlines ?ls)) = 2" by (rule sample_a_length)
  have z: "scav_table_lock zero_state = 0" by (simp add: zero_state_def SPINLOCK_INITIALIZER_def)
  have f: "fopen ?E ''pool.txt'' = Some (unlines ?ls)" by (simp add: sample_env_def)
  have "length (pool_commands (unlines ?ls)) \<le> MAX_ACTIVE_CRT_NUM_PER_APPLICATION"
    unfolding l by (simp add: capacities)
  moreover have "\<forall>cmd \<in> set (pool_commands (unlines ?ls)). load_ok ?E cmd"
    by (simp add: sample_env_loads)
  ultimately have r: "ends (init_scav_table ?E ''pool.txt'' zero_state) never (\<lambda>s'.
      scav_table_lock s' = 0 \<and> PRIM_TABLE s' = PRIM_TABLE zero_state \<and>
      (\<forall>i < 512. if i < 2 then entry_for ?E (pool_commands (unlines ?ls) ! i) (SCAV_TABLE s' ! i)
         else lib_handle (SCAV_TABLE s' ! i) = None))"
    using pool_is_loaded [OF zero_state_shape z f] by (simp add: l capacities)
  have three: "lib_handle (SCAV_TABLE s' ! 0) \<noteq> None \<and> lib_handle (SCAV_TABLE s' ! 1) \<noteq> None \<and>
      lib_handle (SCAV_TABLE s' ! 2) = None"
    if "\<forall>i < 512. if i < 2 then entry_for ?E (pool_commands (unlines ?ls) ! i) (SCAV_TABLE s' ! i)
         else lib_handle (SCAV_TABLE s' ! i) = None" for s'
    using spec [OF that, of 0] spec [OF that, of 1] spec [OF that, of 2]
    by (auto simp: entry_for_def)
  show ?thesis unfolding Let_def by (rule ends_mono [OF r]) (use three in auto)
qed

text \<open>The lines of a pool file that are commands.\<close>

definition command_lines :: "string list \<Rightarrow> string list" where
  "command_lines ls = filter (\<lambda>l. l = [] \<or> hd l \<noteq> CHR ''#'') ls"

lemma cut_newline_line: "newline \<notin> set l \<Longrightarrow> nul \<notin> set l \<Longrightarrow> cut_newline l = l"
  by (auto simp: cut_newline_def takeWhile_eq_all_conv)

lemma cut_newline_idem: "cut_newline (cut_newline c) = cut_newline c"
  by (simp add: cut_newline_def takeWhile_idem)

lemma entry_for_cut: "entry_for E (cut_newline c) x = entry_for E c x"
  by (simp add: entry_for_def cut_newline_idem)

lemma load_ok_cut: "load_ok E (cut_newline c) = load_ok E c"
  by (simp add: load_ok_def cut_newline_idem)

text \<open>
  C26. What is written to the pool file is what gets loaded: from a file that consists of the lines
  \<open>ls\<close>, each shorter than the line buffer, of which at most 512 do not start with \<open>#\<close> and all of
  those resolve, \<open>init_scav_table\<close> fills entry \<open>i\<close> of the table from the \<open>i\<close>-th line that does not
  start with \<open>#\<close>, without its newline, and leaves the entries behind empty.
\<close>

theorem pool_lines_are_loaded:
  assumes lines: "\<forall>l \<in> set ls. newline \<notin> set l \<and> nul \<notin> set l \<and> length l < 255"
    and s: "shape s" "scav_table_lock s = 0" and f: "fopen E path = Some (unlines ls)"
    and fits: "length (command_lines ls) \<le> MAX_ACTIVE_CRT_NUM_PER_APPLICATION"
    and ok: "\<forall>l \<in> set (command_lines ls). load_ok E l"
  shows "ends (init_scav_table E path s) never (\<lambda>s'. \<forall>i < MAX_ACTIVE_CRT_NUM_PER_APPLICATION.
    if i < length (command_lines ls) then entry_for E (command_lines ls ! i) (SCAV_TABLE s' ! i)
    else lib_handle (SCAV_TABLE s' ! i) = None)"
proof -
  let ?c = "pool_commands (unlines ls)"
  have eq: "command_lines ls = map cut_newline ?c"
    using pool_commands_unlines [OF lines] by (simp add: command_lines_def)
  have "length ?c \<le> MAX_ACTIVE_CRT_NUM_PER_APPLICATION" "\<forall>cmd \<in> set ?c. load_ok E cmd"
    using fits ok by (simp_all add: eq load_ok_cut)
  from init_scav_table_loads [OF s f this] show ?thesis
    by (rule ends_mono) (simp_all add: eq entry_for_cut)
qed

theorem pool_lines_are_loaded_witness:
  "let E = sample_env [''#off.so'', ''a.so 3'', ''b.so''] in
   ends (init_scav_table E ''pool.txt'' zero_state) never (\<lambda>s'. argv (SCAV_TABLE s' ! 0) = [''a.so 3''] \<and>
     argv (SCAV_TABLE s' ! 1) = [''b.so''] \<and> lib_handle (SCAV_TABLE s' ! 2) = None)"
proof -
  let ?ls = "[''#off.so'', ''a.so 3'', ''b.so'']"
  let ?E = "sample_env ?ls"
  have h: "\<forall>l \<in> set ?ls. newline \<notin> set l \<and> nul \<notin> set l \<and> length l < 255"
    by (simp add: newline_def nul_def)
  have c: "command_lines ?ls = [''a.so 3'', ''b.so'']" by (simp add: command_lines_def)
  have z: "scav_table_lock zero_state = 0" "fopen ?E ''pool.txt'' = Some (unlines ?ls)"
    by (simp_all add: zero_state_def SPINLOCK_INITIALIZER_def sample_env_def)
  have fits: "length (command_lines ?ls) \<le> MAX_ACTIVE_CRT_NUM_PER_APPLICATION"
      "\<forall>l \<in> set (command_lines ?ls). load_ok ?E l"
    using sample_env_loads by (simp_all add: c capacities)
  have cuts: "cut_newline ''a.so 3'' = ''a.so 3''" "cut_newline ''b.so'' = ''b.so''"
    by (simp_all add: cut_newline_def newline_def nul_def)
  have "argv (SCAV_TABLE s' ! 0) = [''a.so 3''] \<and> argv (SCAV_TABLE s' ! 1) = [''b.so''] \<and>
      lib_handle (SCAV_TABLE s' ! 2) = None"
    if "\<forall>i < MAX_ACTIVE_CRT_NUM_PER_APPLICATION. if i < length (command_lines ?ls)
      then entry_for ?E (command_lines ?ls ! i) (SCAV_TABLE s' ! i) else lib_handle (SCAV_TABLE s' ! i) = None" for s'
  proof -
    have e: "entry_for ?E ''a.so 3'' (SCAV_TABLE s' ! 0)" "entry_for ?E ''b.so'' (SCAV_TABLE s' ! 1)"
        "lib_handle (SCAV_TABLE s' ! 2) = None"
      using spec [OF that, of 0] spec [OF that, of 1] spec [OF that, of 2] unfolding c by (simp_all add: capacities)
    have "wordexp ?E w = Some [w]" for w by (simp add: sample_env_def)
    then show ?thesis
      using entry_for_words [OF e(1)] entry_for_words [OF e(2)] e(3) unfolding cuts by simp
  qed
  then show ?thesis
    unfolding Let_def by (intro ends_mono [OF pool_lines_are_loaded [OF h zero_state_shape z fits]]) blast+
qed

text \<open>
  C38. The guard on the number of entries is one too weak: a pool with more than 512 commands
  whose first 512 resolve is not reported as too large but stores behind the end of the table.
\<close>

theorem oversized_pool_overruns_table:
  assumes "shape s" and "scav_table_lock s = 0" and "fopen E path = Some content"
    and "length (pool_commands content) > MAX_ACTIVE_CRT_NUM_PER_APPLICATION"
    and "\<forall>cmd \<in> set (pool_commands content). load_ok E cmd"
  shows "init_scav_table E path s = Inl OutOfBounds"
proof -
  let ?s = "s\<lparr>scav_table_lock := BUSY, SCAV_TABLE := map (\<lambda>c. c\<lparr>lib_handle := None\<rparr>) (SCAV_TABLE s)\<rparr>"
  let ?m = MAX_ACTIVE_CRT_NUM_PER_APPLICATION and ?c = "pool_commands content"
  have sh: "shape ?s" using assms(1) by (simp add: shape_def)
  have split: "?c = take ?m ?c @ ?c ! ?m # drop (Suc ?m) ?c"
    using assms(4) by (rule id_take_nth_drop)
  have "load_all E (take ?m ?c @ ?c ! ?m # drop (Suc ?m) ?c) 0 ?s = Inl OutOfBounds"
    by (rule load_all_overflow) (use sh assms(4,5) in \<open>auto dest: in_set_takeD\<close>)
  then have "read_pool E content 0 ?s = Inl OutOfBounds"
    unfolding read_pool_eq by (simp only: split [symmetric])
  then show ?thesis
    using assms(2,3) by (simp add: init_scav_table_def lock_scav_table_free)
qed

theorem oversized_pool_overruns_table_witness:
  "init_scav_table (sample_env (replicate 513 ''a.so'')) ''pool.txt'' zero_state = Inl OutOfBounds"
proof -
  let ?ls = "replicate 513 ''a.so''"
  let ?E = "sample_env ?ls"
  have z: "scav_table_lock zero_state = 0" by (simp add: zero_state_def SPINLOCK_INITIALIZER_def)
  have f: "fopen ?E ''pool.txt'' = Some (unlines ?ls)" by (simp add: sample_env_def)
  have "length (pool_commands (unlines ?ls)) > MAX_ACTIVE_CRT_NUM_PER_APPLICATION"
    unfolding sample_a_length by (simp add: capacities)
  then show ?thesis
    using oversized_pool_overruns_table [OF zero_state_shape z f] sample_env_loads by blast
qed

section \<open>Initialisation of the runtime\<close>

text \<open>
  \<open>msh_init\<close>. Its writes to \<open>/dev/cpu_dma_latency\<close> and its messages do not touch the state;
  \<open>strcpy\<close> copies the path into a buffer of 256 bytes.
\<close>

definition msh_init :: "env \<Rightarrow> int \<Rightarrow> msh_state \<Rightarrow> (int \<times> msh_state) res" where
  "msh_init E max_scav s =
     bindR (init_prim_table E (s\<lparr>max_scav_per_thread := max_scav\<rparr>)) (\<lambda>s.
       case getenv E ''MSH_SCAV_POOL_PATH'' of
         None \<Rightarrow> Inr (- 1, s)
       | Some path \<Rightarrow>
           if length path \<ge> 256 then Inl OutOfBounds
           else bindR (init_scav_table E path (s\<lparr>scav_pool_path := path\<rparr>)) (\<lambda>s. Inr (0, s)))"

lemma init_prim_table_ok:
  assumes sh: "shape s" and al: "unat (prim_base E) mod 64 = 0"
  shows "init_prim_table E s = Inr (s\<lparr>PRIM_TABLE := map clear_prim (PRIM_TABLE s)\<rparr>)"
proof -
  let ?f = "\<lambda>i s. if unat (ycs_addr (prim_base E) i) mod 64 = 0 then Inr (prim_upd i clear_prim s)
                   else Inl AssertionFailed"
  let ?I = "\<lambda>k s'. s' = s\<lparr>PRIM_TABLE := map clear_prim (take k (PRIM_TABLE s)) @ drop k (PRIM_TABLE s)\<rparr>"
  have "ends (foldR ?f [0..<MAX_THREAD_NUM] s) never (?I MAX_THREAD_NUM)"
  proof (rule foldR_upt_rule)
    fix k s' assume "k < MAX_THREAD_NUM" and s': "?I k s'"
    then have k: "k < length (PRIM_TABLE s)" using sh by (simp add: shape_def)
    have "(map clear_prim (take k (PRIM_TABLE s)) @ drop k (PRIM_TABLE s))[k := clear_prim (prim s k)] =
        map clear_prim (take (Suc k) (PRIM_TABLE s)) @ drop (Suc k) (PRIM_TABLE s)"
      using k by (simp add: take_Suc_conv_app_nth list_update_append Cons_nth_drop_Suc [symmetric])
    then show "ends (?f k s') never (?I (Suc k))"
      using k ycs_addr_aligned [OF al] by (simp add: s' prim_upd_def nth_append)
  qed simp_all
  then show ?thesis
    using sh by (auto simp: init_prim_table_def ends_never shape_def)
qed

text \<open>
  The tables when the pool is read, and what initialisation leaves: all slots are free and clear,
  and every entry of the table has the library its command names.
\<close>

definition reading_state :: "string \<Rightarrow> int \<Rightarrow> msh_state" where
  "reading_state path cap = zero_state\<lparr>max_scav_per_thread := cap,
     PRIM_TABLE := map clear_prim (PRIM_TABLE zero_state), scav_pool_path := path, scav_table_lock := BUSY,
     SCAV_TABLE := map (\<lambda>c. c\<lparr>lib_handle := None\<rparr>) (SCAV_TABLE zero_state)\<rparr>"

definition initialised :: "env \<Rightarrow> string list \<Rightarrow> int \<Rightarrow> msh_state \<Rightarrow> bool" where
  "initialised E cmds cap s \<longleftrightarrow> msh_inv E s \<and>
     (\<forall>t < MAX_THREAD_NUM. \<forall>p < NSLOT. idx_of s t p = - 1) \<and> max_scav_per_thread s = cap \<and>
     (\<forall>t < MAX_THREAD_NUM. \<not> reallocatable (prim s t)) \<and>
     (\<forall>i < MAX_ACTIVE_CRT_NUM_PER_APPLICATION. \<not> finished (SCAV_TABLE s ! i) \<and>
        lib_handle (SCAV_TABLE s ! i) = (if i < length cmds then cmd_handle E (cmds ! i) else None))"

lemma reading_state_shape: "shape (reading_state path cap)"
  using zero_state_shape by (auto simp: reading_state_def shape_def prim_shape_def clear_prim_def)

lemma loaded_initialised:
  assumes l: "loaded_from E cmds 0 (reading_state path cap) s"
  shows "initialised E cmds cap (unlock_scav_table s)"
proof -
  have pt: "PRIM_TABLE s = map clear_prim (PRIM_TABLE zero_state)"
    using l by (simp add: loaded_from_def reading_state_def)
  have free: "idx_of s t p = - 1" "next_of s t p = - 1" "\<not> reallocatable (prim s t)"
    if "t < MAX_THREAD_NUM" "p < NSLOT" for t p
    using that by (simp_all add: pt clear_prim_def zero_state_def zero_primary_thread_ctx_def)
  have entries: "lib_handle (SCAV_TABLE s ! i) = (if i < length cmds then cmd_handle E (cmds ! i) else None)"
      "yc (SCAV_TABLE s ! i) = None" "\<not> finished (SCAV_TABLE s ! i)"
    if i: "i < MAX_ACTIVE_CRT_NUM_PER_APPLICATION" for i
  proof -
    have z: "lib_handle (SCAV_TABLE (reading_state path cap) ! i) = None" "yc (SCAV_TABLE (reading_state path cap) ! i) = None"
        "\<not> finished (SCAV_TABLE (reading_state path cap) ! i)"
      using i by (simp_all add: reading_state_def zero_state_def zero_coroutine_ctx_def)
    have "entry_for E (cmds ! i) (SCAV_TABLE s ! i)" if "i < length cmds"
      using loaded_fromD(1) [OF l i] that by simp
    from entry_for_handle [OF this] entry_for_free [OF this]
    show "lib_handle (SCAV_TABLE s ! i) = (if i < length cmds then cmd_handle E (cmds ! i) else None)"
        "yc (SCAV_TABLE s ! i) = None" "\<not> finished (SCAV_TABLE s ! i)"
      using loaded_fromD(2) [OF l i] z by (cases "i < length cmds"; simp)+
  qed
  have "yc (scav s i) = None" if "scav_in_range i" for i
    using that entries(2) [of "nat i"] by (simp add: scav_in_range_def nat_less_iff)
  then have "coherent (abs E s)" unfolding coherent_def using free by (auto simp: abs_def)
  moreover have "shape s" "max_scav_per_thread s = cap"
    using l by (simp_all add: loaded_from_def reading_state_def)
  ultimately show ?thesis
    using free(1,3) [OF _ NSLOT_pos] free(1) entries(1,3)
    by (simp add: initialised_def msh_inv_def unlock_scav_table_def spin_unlock_def)
qed

lemma msh_init_ok:
  assumes "unat (prim_base E) mod 64 = 0" and "getenv E ''MSH_SCAV_POOL_PATH'' = Some path"
    and "length path < 256" and "fopen E path = Some content"
    and "length (pool_commands content) \<le> MAX_ACTIVE_CRT_NUM_PER_APPLICATION"
    and "\<forall>cmd \<in> set (pool_commands content). load_ok E cmd"
  shows "ends (msh_init E cap zero_state) never (\<lambda>(ret, s). ret = 0 \<and> initialised E (pool_commands content) cap s)"
proof -
  let ?s = "reading_state path cap"
  have rd: "ends (read_pool E content 0 ?s) never
      (\<lambda>(m, s'). m = 0 + length (pool_commands content) \<and> loaded_from E (pool_commands content) 0 ?s s')"
    unfolding read_pool_eq using assms(5,6) reading_state_shape by (intro load_all_ok) auto
  have "shape (zero_state\<lparr>max_scav_per_thread := cap\<rparr>)" using zero_state_shape by (simp add: shape_def)
  then have eq: "msh_init E cap zero_state =
      bindR (read_pool E content 0 ?s) (\<lambda>(_, s). Inr (0, unlock_scav_table s))"
    using init_prim_table_ok [OF _ assms(1)] assms(2-4)
    by (simp add: msh_init_def init_scav_table_def lock_scav_table_def bindR_assoc split_def)
      (simp add: reading_state_def zero_state_def SPINLOCK_INITIALIZER_def)
  show ?thesis unfolding eq by (rule ends_bindI [OF rd]) (auto dest: loaded_initialised)
qed

text \<open>
  C7. Initialisation establishes the runtime's invariant: on zeroed tables, with the thread table
  cache-line aligned and a pool that fits and resolves, \<open>msh_init\<close> returns 0, the tables agree,
  every slot of every thread is free, and the cap on scavengers per thread is the argument.
\<close>

theorem msh_init_establishes_invariant:
  assumes "unat (prim_base E) mod 64 = 0" and "getenv E ''MSH_SCAV_POOL_PATH'' = Some path"
    and "length path < 256" and "fopen E path = Some content"
    and "length (pool_commands content) \<le> MAX_ACTIVE_CRT_NUM_PER_APPLICATION"
    and "\<forall>cmd \<in> set (pool_commands content). load_ok E cmd"
  shows "ends (msh_init E m zero_state) never (\<lambda>(ret, s). ret = 0 \<and> msh_inv E s \<and>
    (\<forall>t < MAX_THREAD_NUM. \<forall>p < NSLOT. idx_of s t p = - 1) \<and> max_scav_per_thread s = m)"
  by (rule ends_mono [OF msh_init_ok [OF assms, of m]]) (auto simp: initialised_def)

theorem msh_init_establishes_invariant_witness:
  "ends (msh_init (sample_env (replicate 2 ''a.so'')) 4 zero_state) never
     (\<lambda>(ret, s). ret = 0 \<and> msh_inv (sample_env (replicate 2 ''a.so'')) s \<and> max_scav_per_thread s = 4)"
proof -
  let ?ls = "replicate 2 ''a.so''"
  let ?E = "sample_env ?ls"
  have a: "unat (prim_base ?E) mod 64 = 0" "getenv ?E ''MSH_SCAV_POOL_PATH'' = Some ''pool.txt''"
      "length ''pool.txt'' < 256" "fopen ?E ''pool.txt'' = Some (unlines ?ls)"
    by (simp_all add: sample_env_def)
  have "length (pool_commands (unlines ?ls)) \<le> MAX_ACTIVE_CRT_NUM_PER_APPLICATION"
    unfolding sample_a_length by (simp add: capacities)
  note r = msh_init_establishes_invariant [OF a this, of 4]
  show ?thesis by (rule ends_mono [OF r]) (auto simp: sample_env_loads)
qed

end
