(* ===== verification/Alloc.thy ===== *)
theory Alloc
  imports Packing Pool
begin

text \<open>
  Allocation in \<open>libmsh/msh.c\<close>: how many scavengers a thread still wants, taking scavengers from
  threads that are blocked (\<open>realloc_scav\<close>), taking unallocated ones from the pool, exporting a
  scavenger's arguments and position, and running \<open>init\<close> for new ones. Here \<open>t\<close> is \<open>msh_tid\<close>
  and \<open>ctx\<close> the index of the context argument in \<open>PRIM_TABLE\<close>.
\<close>

section \<open>Operations\<close>

definition need_more_scav :: "msh_state \<Rightarrow> nat \<Rightarrow> int" where
  "need_more_scav s ctx =
     (let counts = int (length (filter (\<lambda>i. idx_list (prim s ctx) ! i \<noteq> - 1) [1..<NSLOT]))
      in if counts < max_scav_per_thread s then max_scav_per_thread s - counts else 0)"

subsection \<open>Exported symbols\<close>

definition set_scav_symbol :: "env \<Rightarrow> nat \<Rightarrow> int \<Rightarrow> nat \<Rightarrow> msh_state \<Rightarrow> msh_state res" where
  "set_scav_symbol E t scav_idx crt_pos s =
     bindR (scav_get s scav_idx) (\<lambda>ctx.
       case lib_handle ctx of
         None \<Rightarrow> Inl NullPointer
       | Some h \<Rightarrow>
           if dlsym E h ''argc'' = None then Inl ExitFailure
           else let s = lib_upd h (\<lambda>l. l\<lparr>sym_argc := argc ctx\<rparr>) s in
           if dlsym E h ''argv'' = None then Inl ExitFailure
           else let s = lib_upd h (\<lambda>l. l\<lparr>sym_argv := argv ctx\<rparr>) s in
           if dlsym E h ''crt_pos'' = None then Inl ExitFailure
           else let s = lib_upd h (\<lambda>l. l\<lparr>sym_crt_pos :=
                      to_int (to_size_t (int crt_pos * int sizeof_yield_ctx))\<rparr>) s in
           if dlsym E h ''loop_counter_loc'' = None then Inr s
           else let s = lib_upd h (\<lambda>l. l\<lparr>sym_loop_counter_loc :=
                      int (offsetof_primary_thread_ctx ''loop_counter'') +
                      int (NUM_OF_LINES_FOR_LOOP_COUNTER * 64 * crt_pos)\<rparr>) s
                in Inr (prim_upd t (\<lambda>c. c\<lparr>loop_counter := (loop_counter c)
                      [crt_pos := replicate (NUM_OF_LINES_FOR_LOOP_COUNTER * 64) 0]\<rparr>) s))"

subsection \<open>Taking scavengers from a blocked thread\<close>

definition export_crt_pos :: "env \<Rightarrow> int \<Rightarrow> nat \<Rightarrow> msh_state \<Rightarrow> msh_state res" where
  "export_crt_pos E idx pos s =
     bindR (scav_get s idx) (\<lambda>c.
       case lib_handle c of
         None \<Rightarrow> Inl NullPointer
       | Some h \<Rightarrow> (case dlsym E h ''crt_pos'' of
             None \<Rightarrow> Inl NullPointer
           | Some _ \<Rightarrow> Inr (lib_upd h (\<lambda>l. l\<lparr>sym_crt_pos := int pos\<rparr>) s)))"

text \<open>
  One round of the loop in \<open>realloc_scav\<close>; the flag says whether a scavenger was moved (otherwise
  the loop is left, by \<open>break\<close> or by the \<open>return\<close> after the rollback).
\<close>

definition realloc_step ::
  "env \<Rightarrow> nat \<Rightarrow> nat \<Rightarrow> nat \<Rightarrow> msh_state \<Rightarrow> (bool \<times> msh_state) res" where
  "realloc_step E t from to s =
     (case pop_back_from_list (idx_list (prim s from)) NSLOT of
        (_, None) \<Rightarrow> Inr (False, s)
      | (from_list, Some (crt_idx, from_pos)) \<Rightarrow>
          let s = prim_upd from (\<lambda>c. c\<lparr>idx_list := from_list\<rparr>) s in
          case push_back_to_list (idx_list (prim s to)) NSLOT crt_idx of
            (_, None) \<Rightarrow>
              Inr (False, prim_upd from (\<lambda>c. c\<lparr>idx_list :=
                fst (push_back_to_list (idx_list c) NSLOT crt_idx)\<rparr>) s)
          | (to_list, Some to_pos) \<Rightarrow>
              let s = prim_upd to (\<lambda>c. c\<lparr>idx_list := to_list\<rparr>) s;
                  from_yc = ycs (prim s from) ! from_pos;
                  s = yc_upd to to_pos (\<lambda>y. y\<lparr>sp := sp from_yc, ip := ip from_yc, normal_next := 0\<rparr>) s;
                  s = yc_upd from from_pos (\<lambda>y. y\<lparr>normal_next := - 1\<rparr>) s;
                  s = tl_update_next_map t s;
                  s = yc_upd to 0 (\<lambda>y. y\<lparr>normal_next := offset_of_pos 1\<rparr>) s;
                  from_regs = regs (prim s from) ! from_pos;
                  s = prim_upd to (\<lambda>c. c\<lparr>regs := (regs c)[to_pos := from_regs]\<rparr>) s
              in bindR (export_crt_pos E crt_idx to_pos s) (\<lambda>s.
                 let s = scav_upd crt_idx (\<lambda>x. x\<lparr>yc := Some (to, to_pos)\<rparr>) s
                 in Inr (True, prim_upd from (\<lambda>c. c\<lparr>reallocated := True\<rparr>) s)))"

function realloc_loop ::
  "env \<Rightarrow> nat \<Rightarrow> nat \<Rightarrow> nat \<Rightarrow> int \<Rightarrow> int \<Rightarrow> msh_state \<Rightarrow> (int \<times> msh_state) res" where
  "realloc_loop E t from to demands ret_counts s =
     (if ret_counts < demands
      then bindR (realloc_step E t from to s) (\<lambda>(moved, s).
        if moved then realloc_loop E t from to demands (ret_counts + 1) s else Inr (ret_counts, s))
      else Inr (ret_counts, s))"
  by pat_completeness auto
termination
  by (relation "measure (\<lambda>(E, t, from, to, demands, ret_counts, s). nat (demands - ret_counts))") auto

declare realloc_loop.simps [simp del]

definition realloc_scav ::
  "env \<Rightarrow> nat \<Rightarrow> nat \<Rightarrow> nat \<Rightarrow> int \<Rightarrow> msh_state \<Rightarrow> (int \<times> msh_state) res" where
  "realloc_scav E t from to demands s = realloc_loop E t from to demands 0 s"

subsection \<open>Allocation\<close>

text \<open>
  The loop over the threads. The flag of the result says that the demand is met, in which case
  \<open>_allocate_scav\<close> returns at once. \<open>CAS(&t->reallocatable, true, false)\<close> succeeds when the flag
  is set.
\<close>

fun realloc_from_threads ::
  "env \<Rightarrow> nat \<Rightarrow> nat \<Rightarrow> int \<Rightarrow> nat list \<Rightarrow> int \<Rightarrow> msh_state \<Rightarrow> (bool \<times> int \<times> msh_state) res" where
  "realloc_from_threads E t ctx demands [] ret_counts s = Inr (False, ret_counts, s)"
| "realloc_from_threads E t ctx demands (tid # tids) ret_counts s =
     (if reallocatable (prim s tid)
      then bindR (realloc_scav E t tid ctx demands (prim_upd tid (\<lambda>c. c\<lparr>reallocatable := False\<rparr>) s))
        (\<lambda>(cnt, s).
          let s = prim_upd tid (\<lambda>c. c\<lparr>reallocatable := True\<rparr>) s;
              ret_counts = ret_counts + cnt
          in if ret_counts \<ge> demands then Inr (True, ret_counts, s)
             else realloc_from_threads E t ctx demands tids ret_counts s)
      else realloc_from_threads E t ctx demands tids ret_counts s)"

text \<open>Placing the scavenger \<open>idx\<close> of the pool at position \<open>pos\<close>.\<close>

definition place_scav :: "env \<Rightarrow> nat \<Rightarrow> nat \<Rightarrow> nat \<Rightarrow> nat \<Rightarrow> msh_state \<Rightarrow> msh_state res" where
  "place_scav E t ctx idx pos s =
     (let s = yc_upd ctx pos (\<lambda>y. y\<lparr>sp := ret_to_sched_addr (scav_base E) idx,
                ip := (case entry (SCAV_TABLE s ! idx) of Some e \<Rightarrow> e | None \<Rightarrow> 0),
                normal_next := 0\<rparr>) s
      in bindR (set_scav_symbol E t (int idx) pos s) (\<lambda>s.
         Inr (scav_upd (int idx) (\<lambda>x. x\<lparr>yc := Some (ctx, pos)\<rparr>) s)))"

fun alloc_from_pool ::
  "env \<Rightarrow> nat \<Rightarrow> nat \<Rightarrow> int \<Rightarrow> nat list \<Rightarrow> int \<Rightarrow> msh_state \<Rightarrow> (int \<times> msh_state) res" where
  "alloc_from_pool E t ctx demands [] ret_counts s = Inr (ret_counts, s)"
| "alloc_from_pool E t ctx demands (idx # idxs) ret_counts s =
     (if lib_handle (SCAV_TABLE s ! idx) = None
      then alloc_from_pool E t ctx demands idxs ret_counts s
      else if yc (SCAV_TABLE s ! idx) \<noteq> None \<or> finished (SCAV_TABLE s ! idx)
      then alloc_from_pool E t ctx demands idxs ret_counts s
      else case push_back_to_list (idx_list (prim s ctx)) NSLOT (int idx) of
          (_, None) \<Rightarrow> Inr (ret_counts, s)
        | (list, Some pos) \<Rightarrow>
            bindR (place_scav E t ctx idx pos (prim_upd ctx (\<lambda>c. c\<lparr>idx_list := list\<rparr>) s)) (\<lambda>s.
              if ret_counts + 1 \<ge> demands then Inr (ret_counts + 1, s)
              else alloc_from_pool E t ctx demands idxs (ret_counts + 1) s))"

text \<open>\<open>_allocate_scav\<close>.\<close>

definition allocate_scav_locked :: "env \<Rightarrow> nat \<Rightarrow> nat \<Rightarrow> int \<Rightarrow> msh_state \<Rightarrow> (int \<times> msh_state) res" where
  "allocate_scav_locked E t ctx demands s =
     bindR (realloc_from_threads E t ctx demands [0..<MAX_THREAD_NUM] 0 s) (\<lambda>(met, ret_counts, s).
       if met then Inr (ret_counts, s)
       else alloc_from_pool E t ctx demands [0..<MAX_ACTIVE_CRT_NUM_PER_APPLICATION] ret_counts s)"

definition init_step :: "env \<Rightarrow> nat \<Rightarrow> nat \<Rightarrow> msh_state \<Rightarrow> msh_state res" where
  "init_step E t pos s =
     (let crt_idx = tl_get_crt_idx_at s t pos
      in if crt_idx = - 1 then Inr s
         else bindR (scav_get s crt_idx) (\<lambda>crt_ctx.
           if inited crt_ctx then Inr s
           else case init crt_ctx of
               None \<Rightarrow> Inr s
             | Some f \<Rightarrow>
                 let y = tl_yield_ctx_at s t pos;
                     s = yc_upd t pos (\<lambda>y. y\<lparr>normal_next := offset_of_pos pos,
                           special_next := offset_of_pos pos\<rparr>) s;
                     s = prim_upd t (run_init E f pos) s;
                     s = scav_upd crt_idx (\<lambda>x. x\<lparr>inited := True\<rparr>) s
                 in Inr (yc_upd t pos (\<lambda>y'. y'\<lparr>sp := sp y, ip := ip y,
                      normal_next := normal_next y, special_next := special_next y\<rparr>) s)))"

definition call_init_for_new_scav :: "env \<Rightarrow> nat \<Rightarrow> msh_state \<Rightarrow> msh_state res" where
  "call_init_for_new_scav E t s = foldR (init_step E t) [1..<NSLOT] s"

definition allocate_scav :: "env \<Rightarrow> nat \<Rightarrow> nat \<Rightarrow> msh_state \<Rightarrow> (int \<times> msh_state) res" where
  "allocate_scav E t ctx s =
     (let counts = need_more_scav s ctx
      in if counts = 0 then Inr (0, s)
         else bindR (lock_scav_table s) (\<lambda>s.
              bindR (allocate_scav_locked E t ctx counts s) (\<lambda>(ret, s).
              bindR (call_init_for_new_scav E t (unlock_scav_table s)) (\<lambda>s.
              Inr (ret, set_special_next t s)))))"

definition init_primary_ctx :: "nat \<Rightarrow> int \<Rightarrow> msh_state \<Rightarrow> msh_state" where
  "init_primary_ctx ctx counts s =
     (let s = yc_upd ctx 0 (\<lambda>y. y\<lparr>normal_next :=
                (if counts > 0 then to_short (int sizeof_yield_ctx) else 0)\<rparr>) s
      in prim_upd ctx (\<lambda>c. c\<lparr>scav_num := counts, reallocatable := False, reallocated := False\<rparr>) s)"

end
