(* ===== verification/Realloc.thy ===== *)
theory Realloc
  imports Alloc
begin

text \<open>
  Reallocation of scavengers between threads. One round of \<open>realloc_scav\<close> moves the last
  scavenger of the giving thread to the first free slot of the taking thread, together with its
  stack pointer, instruction pointer and register set, or changes nothing.
\<close>

section \<open>Reading updated tables\<close>

lemma prim_nth_upd:
  "t < length (PRIM_TABLE s) \<Longrightarrow>
   prim (prim_upd t f s) u = (if u = t then f (prim s t) else prim s u)"
  by (simp add: prim_upd_def nth_list_update)

lemma prim_nth_yc_upd:
  "t < length (PRIM_TABLE s) \<Longrightarrow> prim (yc_upd t p f s) u =
    (if u = t then (prim s t)\<lparr>ycs := (ycs (prim s t))[p := f (ycs (prim s t) ! p)]\<rparr> else prim s u)"
  by (simp add: yc_upd_def prim_nth_upd)

lemma length_yc_upd [simp]: "length (PRIM_TABLE (yc_upd t p f s)) = length (PRIM_TABLE s)"
  by (simp add: yc_upd_def)

lemma update_next_map_simps [simp]:
  "SCAV_TABLE (tl_update_next_map t s) = SCAV_TABLE s"
  "scav_table_lock (tl_update_next_map t s) = scav_table_lock s"
  "libs (tl_update_next_map t s) = libs s"
  "max_scav_per_thread (tl_update_next_map t s) = max_scav_per_thread s"
  "dummy (tl_update_next_map t s) = dummy s"
  "cleanup_jmpbuf (tl_update_next_map t s) = cleanup_jmpbuf s"
  "finished_scav_cnt (tl_update_next_map t s) = finished_scav_cnt s"
  "stray_writes (tl_update_next_map t s) = stray_writes s"
  "length (PRIM_TABLE (tl_update_next_map t s)) = length (PRIM_TABLE s)"
  by (simp_all add: tl_update_next_map_def yc_upd_def)

lemma prim_nth_update_next_map:
  assumes "t < length (PRIM_TABLE s)"
  shows "prim (tl_update_next_map t s) u = (if u = t \<and> next_of s t 0 \<noteq> - 1
    then (prim s t)\<lparr>ycs := (ycs (prim s t))[0 := (ycs (prim s t) ! 0)
      \<lparr>normal_next := offset_of_pos (tl_next_available_crt s t)\<rparr>]\<rparr> else prim s u)"
  using assms by (simp add: tl_update_next_map_def prim_nth_yc_upd)

lemmas table_reads = prim_nth_upd prim_nth_yc_upd prim_nth_update_next_map

section \<open>One round\<close>

text \<open>The variables that have nothing to do with who hosts which scavenger.\<close>

definition unhosted :: "msh_state \<Rightarrow> msh_state \<Rightarrow> bool" where
  "unhosted s s' \<longleftrightarrow> scav_table_lock s' = scav_table_lock s \<and> stray_writes s' = stray_writes s \<and>
     max_scav_per_thread s' = max_scav_per_thread s \<and> dummy s' = dummy s \<and>
     cleanup_jmpbuf s' = cleanup_jmpbuf s \<and> finished_scav_cnt s' = finished_scav_cnt s"

text \<open>The contexts of the giving and of the taking thread after a move.\<close>

definition gave :: "int list \<Rightarrow> nat \<Rightarrow> primary_thread_ctx \<Rightarrow> primary_thread_ctx" where
  "gave l p c = c\<lparr>idx_list := l, ycs := (ycs c)[p := (ycs c ! p)\<lparr>normal_next := - 1\<rparr>],
     reallocated := True\<rparr>"

definition took ::
  "int list \<Rightarrow> nat \<Rightarrow> yield_ctx \<Rightarrow> x86_registers list \<Rightarrow> primary_thread_ctx \<Rightarrow> primary_thread_ctx" where
  "took l q y r c = c\<lparr>idx_list := l,
     ycs := (ycs c)[q := (ycs c ! q)\<lparr>sp := sp y, ip := ip y, normal_next := 0\<rparr>,
                    0 := (ycs c ! 0)\<lparr>normal_next := offset_of_pos 1\<rparr>],
     regs := (regs c)[q := r]\<rparr>"

lemma realloc_step_effect:
  assumes ok: "tables_ok E s" and ne: "from \<noteq> to"
    and fl: "from < MAX_THREAD_NUM" and tl: "to < MAX_THREAD_NUM"
    and pop: "pop_back_from_list (idx_list (prim s from)) NSLOT = (l1, Some (i, p))"
    and push: "push_back_to_list (idx_list (prim s to)) NSLOT i = (l2, Some q)"
    and q: "0 < q" and rng: "scav_in_range i" and lib: "lib_handle (scav s i) = Some h"
    and sym: "dlsym E h ''crt_pos'' = Some x"
  obtains s' where "realloc_step E to from to s = Inr (True, s')"
    "\<And>u. prim s' u = (if u = from then gave l1 p (prim s from)
      else if u = to then took l2 q (ycs (prim s from) ! p) (regs (prim s from) ! p) (prim s to)
      else prim s u)"
    "length (PRIM_TABLE s') = length (PRIM_TABLE s)"
    "SCAV_TABLE s' = (SCAV_TABLE s)[nat i := (scav s i)\<lparr>yc := Some (to, q)\<rparr>]"
    "libs s' = (libs s)(h := (libs s h)\<lparr>sym_crt_pos := int q\<rparr>)"
    "unhosted s s'"
proof -
  have len: "from < length (PRIM_TABLE s)" "to < length (PRIM_TABLE s)"
    using fl tl tables_okD(3) [OF ok] by simp_all
  have ylen: "0 < length (ycs (prim s to))"
    using tables_okD(5) [OF ok tl] NSLOT_pos by (simp add: prim_shape_def)
  define s1 where "s1 = prim_upd to (\<lambda>c. c\<lparr>idx_list := l2\<rparr>) (prim_upd from (\<lambda>c. c\<lparr>idx_list := l1\<rparr>) s)"
  define fy where "fy = ycs (prim s from) ! p"
  define s2 where "s2 = yc_upd to q (\<lambda>y. y\<lparr>sp := sp fy, ip := ip fy, normal_next := 0\<rparr>) s1"
  define s3 where "s3 = yc_upd from p (\<lambda>y. y\<lparr>normal_next := - 1\<rparr>) s2"
  define s4 where "s4 = yc_upd to 0 (\<lambda>y. y\<lparr>normal_next := offset_of_pos 1\<rparr>) (tl_update_next_map to s3)"
  define s5 where "s5 = prim_upd to (\<lambda>c. c\<lparr>regs := (regs c)[q := regs (prim s from) ! p]\<rparr>) s4"
  define s6 where "s6 = prim_upd from (\<lambda>c. c\<lparr>reallocated := True\<rparr>)
    (scav_upd i (\<lambda>x. x\<lparr>yc := Some (to, q)\<rparr>) (lib_upd h (\<lambda>l. l\<lparr>sym_crt_pos := int q\<rparr>) s5))"
  note defs = s1_def s2_def s3_def s4_def s5_def
  have tabs: "SCAV_TABLE s5 = SCAV_TABLE s" "libs s5 = libs s" by (simp_all add: defs)
  have ex: "export_crt_pos E i q s5 = Inr (lib_upd h (\<lambda>l. l\<lparr>sym_crt_pos := int q\<rparr>) s5)"
    using rng lib sym by (simp add: export_crt_pos_def scav_get_def tabs)
  have "realloc_step E to from to s = bindR (export_crt_pos E i q s5) (\<lambda>s.
      Inr (True, prim_upd from (\<lambda>c. c\<lparr>reallocated := True\<rparr>) (scav_upd i (\<lambda>x. x\<lparr>yc := Some (to, q)\<rparr>) s)))"
    using pop push len ne ne [symmetric]
    by (simp add: realloc_step_def Let_def table_reads defs fy_def)
  then have "realloc_step E to from to s = Inr (True, s6)" by (simp add: ex s6_def)
  moreover have "\<And>u. prim s6 u = (if u = from then gave l1 p (prim s from)
      else if u = to then took l2 q (ycs (prim s from) ! p) (regs (prim s from) ! p) (prim s to)
      else prim s u)"
    using len ne q fy_def ylen
    by (simp add: s6_def defs table_reads gave_def took_def nth_list_update)
  moreover have "length (PRIM_TABLE s6) = length (PRIM_TABLE s)" by (simp add: s6_def defs)
  moreover have "SCAV_TABLE s6 = (SCAV_TABLE s)[nat i := (scav s i)\<lparr>yc := Some (to, q)\<rparr>]"
    using rng by (simp add: s6_def scav_upd_def tabs)
  moreover have "libs s6 = (libs s)(h := (libs s h)\<lparr>sym_crt_pos := int q\<rparr>)"
    by (simp add: s6_def tabs)
  moreover have "unhosted s s6"
    using rng by (simp add: unhosted_def s6_def stray_scav_upd) (simp add: defs)
  ultimately show thesis by (rule that)
qed

text \<open>The occupied slots of a packed thread, read by position.\<close>

definition at_slot :: "primary_thread_ctx \<Rightarrow> nat \<Rightarrow> int \<times> (64 word \<times> 64 word) \<times> x86_registers list" where
  "at_slot c p = (idx_list c ! p, (sp (ycs c ! p), ip (ycs c ! p)), regs c ! p)"

lemma hosted_packed:
  assumes sh: "prim_shape c" and zero: "idx_list c ! 0 = - 1" and pk: "packed (idx_list c)"
  shows "hosted c = map (at_slot c) [1..<Suc (length (items (idx_list c)))]"
proof -
  let ?k = "length (items (idx_list c))" and ?P = "\<lambda>p. idx_list c ! p \<noteq> - 1"
  have len: "length (idx_list c) = NSLOT" "length (ycs c) = NSLOT" "length (regs c) = NSLOT"
    using sh by (auto simp: prim_shape_def)
  have "idx_list c \<noteq> []" using len(1) NSLOT_pos by (metis less_numeral_extra(3) list.size(3))
  then have "?k < NSLOT" using length_items_less [of "idx_list c"] len by simp
  have "zip (idx_list c) (zip (map (\<lambda>y. (sp y, ip y)) (ycs c)) (regs c)) = map (at_slot c) [0..<NSLOT]"
    by (rule nth_equalityI) (simp_all add: len at_slot_def)
  then have "hosted c = map (at_slot c) (filter ?P [0..<NSLOT])"
    by (simp add: hosted_def filter_map comp_def at_slot_def)
  also have "[0..<NSLOT] = 0 # [1..<Suc ?k] @ [Suc ?k..<NSLOT]"
    using \<open>?k < NSLOT\<close> by (metis One_nat_def Suc_leI Suc_le_mono le0 le_add_diff_inverse upt_add_eq_append upt_conv_Cons zero_less_Suc less_le_trans)
  also have "filter ?P \<dots> = [1..<Suc ?k]"
  proof -
    have "filter ?P [1..<Suc ?k] = [1..<Suc ?k]"
    proof (intro filter_True ballI)
      fix p assume "p \<in> set [1..<Suc ?k]"
      then have "0 < p" "p \<le> ?k" by auto
      then show "?P p" using packed_occupied [OF pk, of p] len \<open>?k < NSLOT\<close> by simp
    qed
    moreover have "filter ?P [Suc ?k..<NSLOT] = []"
      by (rule filter_False) (use packed_occupied [OF pk] len in auto)
    ultimately show ?thesis using zero by simp
  qed
  finally show ?thesis .
qed

lemma prim_shape_gave: "prim_shape c \<Longrightarrow> length l = NSLOT \<Longrightarrow> prim_shape (gave l p c)"
  and prim_shape_took: "prim_shape c \<Longrightarrow> length l = NSLOT \<Longrightarrow> prim_shape (took l q y r c)"
  by (simp_all add: prim_shape_def gave_def took_def)

text \<open>The top scavenger of one packed thread becomes the top one of another.\<close>

lemma hosted_gave:
  assumes sh: "prim_shape c" and "idx_list c ! 0 = - 1" and "slot_inv (idx_list c)"
    and pop: "pop_back_from_list (idx_list c) NSLOT = (l, Some (i, p))"
  shows "hosted c = hosted (gave l p c) @ [at_slot c p]" "fst (at_slot c p) = i"
    "slot_inv l" "0 < p" "p < NSLOT" "l = (idx_list c)[p := - 1]" "i \<noteq> - 1"
proof -
  have pk: "packed (idx_list c)" and len: "length (idx_list c) = NSLOT"
    using assms(3) by (auto simp: slot_inv_def)
  have ne: "items (idx_list c) \<noteq> []" using slots.pop_none [OF assms(3)] pop by auto
  obtain l' where l': "pop_back_from_list (idx_list c) NSLOT =
      (l', Some (last (items (idx_list c)), length (items (idx_list c))))" "slot_inv l'"
      "items l' = butlast (items (idx_list c))"
    using slots.pop_some [OF assms(3) ne] by blast
  then have p: "p = length (items (idx_list c))" "l = l'" using pop by auto
  show "slot_inv l" using l' p by simp
  have lp: "last_pos (\<lambda>i. idx_list c ! i \<noteq> - 1) NSLOT = Some p" "l = (idx_list c)[p := - 1]"
      "i = idx_list c ! p"
    using pop by (auto simp: pop_back_from_list_def split: option.splits)
  then show "0 < p" "p < NSLOT" "l = (idx_list c)[p := - 1]" "fst (at_slot c p) = i" "i \<noteq> - 1"
    by (auto simp: last_pos_Some at_slot_def)
  have "l ! 0 = - 1" using lp(2) \<open>0 < p\<close> assms(2) by simp
  then have "hosted (gave l p c) = map (at_slot (gave l p c)) [1..<Suc (length (items l))]"
    using hosted_packed [OF prim_shape_gave [OF sh, of l p]] \<open>slot_inv l\<close>
    by (simp add: slot_inv_def gave_def)
  also have "length (items l) = p - 1" using l'(3) p by simp
  also have "map (at_slot (gave l p c)) [1..<Suc (p - 1)] = map (at_slot c) [1..<p]"
    using \<open>0 < p\<close> lp(2) by (auto simp: at_slot_def gave_def nth_list_update)
  finally have "hosted (gave l p c) = map (at_slot c) [1..<p]" .
  then show "hosted c = hosted (gave l p c) @ [at_slot c p]"
    using hosted_packed [OF sh assms(2) pk] p(1) \<open>0 < p\<close> by simp
qed

lemma hosted_took:
  assumes sh: "prim_shape c" and "idx_list c ! 0 = - 1" and "slot_inv (idx_list c)" and "i \<noteq> - 1"
    and push: "push_back_to_list (idx_list c) NSLOT i = (l, Some q)"
  shows "hosted (took l q y r c) = hosted c @ [(i, (sp y, ip y), r)]"
    "slot_inv l" "0 < q" "q < NSLOT" "l = (idx_list c)[q := i]" "idx_list c ! q = - 1"
proof -
  have pk: "packed (idx_list c)" and len: "length (idx_list c) = NSLOT"
    using assms(3) by (auto simp: slot_inv_def)
  have full: "length (items (idx_list c)) < MAX_CRT_PER_THREAD"
    using slots.push_full [OF assms(3), of i] slots.contents_cap [OF assms(3)] push by (auto simp: le_less)
  obtain l' where l': "push_back_to_list (idx_list c) NSLOT i =
      (l', Some (Suc (length (items (idx_list c)))))" "slot_inv l'" "items l' = items (idx_list c) @ [i]"
    using slots.push_room [OF assms(3,4) full] by blast
  then have q: "q = Suc (length (items (idx_list c)))" "l = l'" using push by auto
  show "slot_inv l" using l' q by simp
  show lp: "0 < q" "q < NSLOT" "l = (idx_list c)[q := i]" "idx_list c ! q = - 1"
    using push by (auto simp: push_back_to_list_def first_pos_Some split: option.splits)
  have lens: "length (ycs c) = NSLOT" "length (regs c) = NSLOT" using sh by (auto simp: prim_shape_def)
  let ?c = "took l q y r c"
  have idx: "idx_list ?c = l" by (simp add: took_def)
  have "hosted ?c = map (at_slot ?c) [1..<Suc (length (items l))]"
  proof -
    have "l ! 0 = - 1" using lp(1,3) assms(2) by simp
    then show ?thesis
      using hosted_packed [OF prim_shape_took [OF sh, of l q y r], unfolded idx] \<open>slot_inv l\<close>
      by (simp only: slot_inv_def)
  qed
  also have "length (items l) = q" using l'(3) q by simp
  also have "map (at_slot ?c) [1..<Suc q] = map (at_slot c) [1..<q] @ [(i, (sp y, ip y), r)]"
    using lp lens len by (auto simp: at_slot_def took_def nth_list_update)
  finally show "hosted ?c = hosted c @ [(i, (sp y, ip y), r)]"
    using hosted_packed [OF sh assms(2) pk] q(1) by simp
qed

text \<open>
  \<open>n\<close> scavengers went from the top of \<open>from\<close> to the top of \<open>to\<close>, one after the other, each with its
  stack pointer, instruction pointer and register set; nothing else changed hands.
\<close>

definition moved_top :: "env \<Rightarrow> nat \<Rightarrow> nat \<Rightarrow> nat \<Rightarrow> msh_state \<Rightarrow> msh_state \<Rightarrow> bool" where
  "moved_top E from to n s s' \<longleftrightarrow> tables_ok E s' \<and>
     slot_inv (idx_list (prim s' from)) \<and> slot_inv (idx_list (prim s' to)) \<and>
     (\<exists>zs. length zs = n \<and> hosted (prim s from) = hosted (prim s' from) @ zs \<and>
        hosted (prim s' to) = hosted (prim s to) @ rev zs) \<and>
     (\<forall>u. u \<noteq> from \<longrightarrow> u \<noteq> to \<longrightarrow> prim s' u = prim s u) \<and>
     (\<forall>u. reallocatable (prim s' u) = reallocatable (prim s u)) \<and>
     reallocated (prim s' to) = reallocated (prim s to) \<and> scav_num (prim s' to) = scav_num (prim s to) \<and>
     (next_of s to 0 \<noteq> - 1 \<longrightarrow> next_of s' to 0 \<noteq> - 1) \<and> next_of s' from 0 = next_of s from 0 \<and>
     gone (abs E s') = gone (abs E s) \<and> linked (abs E s') = linked (abs E s) \<and>
     dom (host (abs E s')) = dom (host (abs E s)) \<and> unhosted s s'"

lemma moved_topD:
  assumes "moved_top E from to n s s'"
  shows "tables_ok E s'" "slot_inv (idx_list (prim s' from))" "slot_inv (idx_list (prim s' to))"
    "length (hosted (prim s from)) = length (hosted (prim s' from)) + n"
    "length (hosted (prim s' to)) = length (hosted (prim s to)) + n"
    "\<exists>zs. length zs = n \<and> hosted (prim s' to) = hosted (prim s to) @ zs"
    "u \<noteq> from \<Longrightarrow> u \<noteq> to \<Longrightarrow> prim s' u = prim s u"
    "reallocatable (prim s' u) = reallocatable (prim s u)" "unhosted s s'"
    "next_of s' from 0 = next_of s from 0"
  using assms by (auto simp: moved_top_def)

lemma moved_top_0:
  "tables_ok E s \<Longrightarrow> slot_inv (idx_list (prim s from)) \<Longrightarrow> slot_inv (idx_list (prim s to)) \<Longrightarrow>
   moved_top E from to 0 s s"
  by (simp add: moved_top_def unhosted_def)

lemma moved_top_trans:
  assumes "moved_top E from to m s s'" and "moved_top E from to n s' s''"
  shows "moved_top E from to (m + n) s s''"
proof -
  obtain ys where "length ys = m" "hosted (prim s from) = hosted (prim s' from) @ ys"
      "hosted (prim s' to) = hosted (prim s to) @ rev ys"
    using assms(1) by (auto simp: moved_top_def)
  moreover obtain zs where "length zs = n" "hosted (prim s' from) = hosted (prim s'' from) @ zs"
      "hosted (prim s'' to) = hosted (prim s' to) @ rev zs"
    using assms(2) by (auto simp: moved_top_def)
  ultimately have "\<exists>xs. length xs = m + n \<and> hosted (prim s from) = hosted (prim s'' from) @ xs \<and>
      hosted (prim s'' to) = hosted (prim s to) @ rev xs"
    by (intro exI [of _ "zs @ ys"]) simp
  with assms show ?thesis by (simp add: moved_top_def unhosted_def)
qed

lemma shape_two_prims:
  assumes "shape s" and "length (SCAV_TABLE s') = length (SCAV_TABLE s)"
    and "length (PRIM_TABLE s') = length (PRIM_TABLE s)"
    and "\<And>u. prim s' u = (if u = a then c else if u = b then d else prim s u)"
    and "prim_shape c" and "prim_shape d"
  shows "shape s'"
  using assms by (simp add: shape_def)

text \<open>One successful round is the specification's \<open>move\<close>.\<close>

lemma realloc_step_refines_move:
  assumes ok: "tables_ok E s" and ne: "from \<noteq> to"
    and fl: "from < MAX_THREAD_NUM" and tl: "to < MAX_THREAD_NUM"
    and pf: "slot_inv (idx_list (prim s from))" and pt: "slot_inv (idx_list (prim s to))"
    and pop: "pop_back_from_list (idx_list (prim s from)) NSLOT = (l1, Some (i, p))"
    and push: "push_back_to_list (idx_list (prim s to)) NSLOT i = (l2, Some q)"
  shows "ends (realloc_step E to from to s) never (\<lambda>(moved, s'). moved \<and>
    moved_top E from to 1 s s' \<and> abs E s' = move from p to q (abs E s) \<and> reallocated (prim s' from))"
proof -
  note zf = tables_primary_slot [OF ok fl] and zt = tables_primary_slot [OF ok tl]
  note shf = tables_okD(5) [OF ok fl] and sht = tables_okD(5) [OF ok tl]
  note g = hosted_gave [OF shf zf pf pop]
  note k = hosted_took [OF sht zt pt g(7) push]
  have i: "i = idx_of s from p" using g(2) by (simp add: at_slot_def)
  have sf: "slot from p" and st: "slot to q" using g k fl tl by auto
  note tf = tables_facts [OF ok sf, folded i, OF g(7)]
  obtain h x where h: "lib_handle (scav s i) = Some h" "dlsym E h ''crt_pos'' = Some x"
    using tf(4) by blast
  let ?y = "ycs (prim s from) ! p" and ?r = "regs (prim s from) ! p"
  obtain s' where s': "realloc_step E to from to s = Inr (True, s')"
      "\<And>u. prim s' u = (if u = from then gave l1 p (prim s from)
        else if u = to then took l2 q ?y ?r (prim s to) else prim s u)"
      "length (PRIM_TABLE s') = length (PRIM_TABLE s)"
      "SCAV_TABLE s' = (SCAV_TABLE s)[nat i := (scav s i)\<lparr>yc := Some (to, q)\<rparr>]"
      "libs s' = (libs s)(h := (libs s h)\<lparr>sym_crt_pos := int q\<rparr>)" "unhosted s s'"
    by (rule realloc_step_effect [OF ok ne fl tl pop push k(3) tf(1) h]) (rule that)
  have len: "length l1 = NSLOT" "length l2 = NSLOT" using g(3) k(2) by (auto simp: slot_inv_def)
  have sh': "shape s'"
    by (rule shape_two_prims [OF tables_okD(1) [OF ok] _ s'(3,2) prim_shape_gave [OF shf len(1)]
        prim_shape_took [OF sht len(2)]]) (simp add: s'(4))
  have scav': "yc (scav s' j) = (if j = i then Some (to, q) else yc (scav s j))"
      "finished (scav s' j) = finished (scav s j)" "lib_handle (scav s' j) = lib_handle (scav s j)"
    if "scav_in_range j" for j
    using that tf(1) tables_okD(4) [OF ok]
    by (auto simp: s'(4) scav_in_range_def nth_list_update split: if_splits)
  have ylen: "length (ycs (prim s from)) = NSLOT" "length (ycs (prim s to)) = NSLOT"
      "length (idx_list (prim s from)) = NSLOT" "length (idx_list (prim s to)) = NSLOT"
    using shf sht by (auto simp: prim_shape_def)
  have idx': "idx_of s' u r = upd2 (upd2 (idx_of s) from p (- 1)) to q i u r" if "r < NSLOT" for u r
    using that ne g(6) k(5) ylen sf st by (auto simp: s'(2) gave_def took_def nth_list_update)
  have next': "next_of s' u r = - 1 \<longleftrightarrow> (if u = to \<and> r = q then False
      else if u = from \<and> r = p then True else next_of s u r = - 1)" if "slot u r" for u r
    using that ne ylen sf st by (auto simp: s'(2) gave_def took_def nth_list_update)
  have abs': "abs E s' = move from p to q (abs E s)"
    using sf st i tf(1) idx' next' scav' by (auto simp: abs_def move_def Let_def fun_eq_iff)
  have "coherent (abs E s')"
    unfolding abs' using coherent_move [OF tables_okD(2) [OF ok] sf st] g(7) i k(6) sf st
    by (simp add: abs_sel)
  then have ok': "tables_ok E s'" using sh' by (simp add: tables_ok_def)
  have "hosted (prim s' to) = hosted (prim s to) @ rev [at_slot (prim s from) p]"
    using k(1) [of ?y ?r] ne i by (simp add: s'(2) at_slot_def)
  moreover have "hosted (prim s from) = hosted (prim s' from) @ [at_slot (prim s from) p]"
    using g(1) by (simp add: s'(2))
  moreover have "next_of s' to 0 \<noteq> - 1"
    using ne ylen NSLOT_pos offset_of_pos_nonneg [of 1] by (simp add: s'(2) took_def Suc_le_eq)
  moreover have "dom (host (abs E s')) = dom (host (abs E s))"
    using tf(1,2) sf by (auto simp: abs' move_def Let_def abs_sel i)
  moreover have "gone (abs E s') = gone (abs E s)" "linked (abs E s') = linked (abs E s)"
    by (simp_all add: abs' move_def Let_def)
  ultimately have "moved_top E from to 1 s s'"
    using ok' g(3,4) k(2) ne s'(6) unfolding moved_top_def
    by (intro conjI exI [of _ "[at_slot (prim s from) p]"]) (simp_all add: s'(2) gave_def took_def)
  then show ?thesis using abs' s'(1,2) by (simp add: gave_def)
qed

text \<open>Without a scavenger to give, or without room, a round changes nothing.\<close>

lemma prim_upd_same: "prim_upd t f (prim_upd t g s) = s" if "f (g (prim s t)) = prim s t" "t < length (PRIM_TABLE s)"
  using that by (simp add: prim_upd_def)

lemma realloc_step_stuck:
  assumes ok: "tables_ok E s" and ne: "from \<noteq> to" and fl: "from < MAX_THREAD_NUM"
    and pf: "slot_inv (idx_list (prim s from))" and pt: "slot_inv (idx_list (prim s to))"
    and stuck: "items (idx_list (prim s from)) = [] \<or>
      length (items (idx_list (prim s to))) = MAX_CRT_PER_THREAD"
  shows "realloc_step E t from to s = Inr (False, s)"
proof (cases "items (idx_list (prim s from)) = []")
  case True
  then show ?thesis using slots.pop_none [OF pf] by (simp add: realloc_step_def)
next
  case False
  obtain l x p where l: "pop_back_from_list (idx_list (prim s from)) NSLOT = (l, Some (x, p))"
      "push_back_to_list (idx_list (prim s to)) NSLOT x = (idx_list (prim s to), None)"
      "push_back_to_list l NSLOT x = (idx_list (prim s from), Some p)"
    using slots.transfer_top [OF pf pt False] stuck False by auto
  have t: "from < length (PRIM_TABLE s)" using fl tables_okD(3) [OF ok] by simp
  then have "prim (prim_upd from (\<lambda>c. c\<lparr>idx_list := l\<rparr>) s) to = prim s to"
    using ne by (simp add: prim_nth_upd)
  moreover have "prim_upd from (\<lambda>c. c\<lparr>idx_list := fst (push_back_to_list (idx_list c) NSLOT x)\<rparr>)
      (prim_upd from (\<lambda>c. c\<lparr>idx_list := l\<rparr>) s) = s"
    by (rule prim_upd_same) (use l(3) t in simp_all)
  ultimately show ?thesis using l(1,2) by (simp add: realloc_step_def Let_def)
qed

section \<open>The loop\<close>

lemma hosted_length:
  assumes "tables_ok E s" and "t < MAX_THREAD_NUM"
  shows "length (items (idx_list (prim s t))) = length (hosted (prim s t))"
  using items_hosted [OF tables_okD(5) [OF assms] tables_primary_slot [OF assms]] by simp

lemma realloc_step_cases:
  assumes ok: "tables_ok E s" and ne: "from \<noteq> to"
    and fl: "from < MAX_THREAD_NUM" and tl: "to < MAX_THREAD_NUM"
    and pf: "slot_inv (idx_list (prim s from))" and pt: "slot_inv (idx_list (prim s to))"
  shows "ends (realloc_step E to from to s) never (\<lambda>(moved, s').
    if hosted (prim s from) \<noteq> [] \<and> length (hosted (prim s to)) < MAX_CRT_PER_THREAD
    then moved \<and> moved_top E from to 1 s s' \<and> reallocated (prim s' from) else \<not> moved \<and> s' = s)"
proof -
  note hl = hosted_length [OF ok fl] hosted_length [OF ok tl]
  show ?thesis
  proof (cases "hosted (prim s from) \<noteq> [] \<and> length (hosted (prim s to)) < MAX_CRT_PER_THREAD")
    case True
    then have "items (idx_list (prim s from)) \<noteq> []" using hl(1) by auto
    then obtain l1 i p l2 q where
        pop: "pop_back_from_list (idx_list (prim s from)) NSLOT = (l1, Some (i, p))" and
        push: "push_back_to_list (idx_list (prim s to)) NSLOT i = (l2, Some q)"
      using slots.transfer_top [OF pf pt] True hl(2) by force
    show ?thesis
      using realloc_step_refines_move [OF ok ne fl tl pf pt pop push] True
      by (auto elim: ends_mono)
  next
    case False
    then have "items (idx_list (prim s from)) = [] \<or>
        length (items (idx_list (prim s to))) = MAX_CRT_PER_THREAD"
      using hl slots.contents_cap [OF pt] by auto
    then show ?thesis using realloc_step_stuck [OF ok ne fl pf pt] False by auto
  qed
qed

text \<open>How many scavengers a thread can hand over: bounded by demand, supply and room.\<close>

definition transferable :: "msh_state \<Rightarrow> nat \<Rightarrow> nat \<Rightarrow> int \<Rightarrow> nat" where
  "transferable s from to demands = min (nat demands)
     (min (length (hosted (prim s from))) (MAX_CRT_PER_THREAD - length (hosted (prim s to))))"

lemma realloc_loop_spec:
  assumes "tables_ok E s" and ne: "from \<noteq> to"
    and fl: "from < MAX_THREAD_NUM" and tl: "to < MAX_THREAD_NUM"
    and "slot_inv (idx_list (prim s from))" and "slot_inv (idx_list (prim s to))"
  shows "ends (realloc_loop E to from to demands r s) never (\<lambda>(cnt, s').
    cnt = r + int (transferable s from to (demands - r)) \<and>
    moved_top E from to (transferable s from to (demands - r)) s s')"
  using assms(1,5,6)
proof (induction "nat (demands - r)" arbitrary: r s)
  case 0
  then show ?case
    by (simp add: realloc_loop.simps [of E to "from" to demands r] transferable_def moved_top_0)
next
  case (Suc n)
  then have lt: "r < demands" by simp
  note step = realloc_step_cases [OF Suc.prems(1) ne fl tl Suc.prems(2,3)]
  note unf = realloc_loop.simps [of E to "from" to demands r s]
  show ?case
  proof (cases "hosted (prim s from) \<noteq> [] \<and> length (hosted (prim s to)) < MAX_CRT_PER_THREAD")
    case False
    then have "transferable s from to (demands - r) = 0" by (auto simp: transferable_def)
    then show ?thesis
      using step False lt moved_top_0 [OF Suc.prems] by (auto simp: unf ends_never)
  next
    case True
    then obtain s1 where s1: "realloc_step E to from to s = Inr (True, s1)" "moved_top E from to 1 s s1"
      using step by (auto simp: ends_never)
    have "length (hosted (prim s from)) = Suc (length (hosted (prim s1 from)))"
        "length (hosted (prim s1 to)) = Suc (length (hosted (prim s to)))"
      using moved_topD(4,5) [OF s1(2)] by auto
    then have tr: "transferable s from to (demands - r) = 1 + transferable s1 from to (demands - (r + 1))"
      using lt True by (auto simp: transferable_def min_def)
    have "ends (realloc_loop E to from to demands (r + 1) s1) never (\<lambda>(cnt, s').
        cnt = r + 1 + int (transferable s1 from to (demands - (r + 1))) \<and>
        moved_top E from to (transferable s1 from to (demands - (r + 1))) s1 s')"
      using Suc.hyps(1) [OF _ moved_topD(1-3) [OF s1(2)], of "r + 1"] Suc.hyps(2) by simp
    then have "ends (realloc_loop E to from to demands (r + 1) s1) never (\<lambda>(cnt, s').
        cnt = r + int (transferable s from to (demands - r)) \<and>
        moved_top E from to (transferable s from to (demands - r)) s s')"
      by (rule ends_mono) (auto simp: tr dest: moved_top_trans [OF s1(2)])
    then show ?thesis using s1(1) lt by (simp add: unf)
  qed
qed

text \<open>
  C3. \<open>realloc_scav\<close> between two threads with packed slots always returns, and it moves exactly as
  many scavengers as demand, supply and room allow, no more and no less. They leave the giving
  thread from the top and arrive on top of the taking thread in that order, each with its stack
  pointer, instruction pointer and register set; both threads stay packed, the tables stay in
  agreement, every third thread is untouched, and the set of hosted scavengers is the same.
\<close>

theorem realloc_scav_moves_top:
  assumes "tables_ok E s" and "from \<noteq> to" and "from < MAX_THREAD_NUM" and "to < MAX_THREAD_NUM"
    and "packed (idx_list (prim s from))" and "packed (idx_list (prim s to))"
  shows "ends (realloc_scav E to from to demands s) never (\<lambda>(cnt, s').
    cnt = int (transferable s from to demands) \<and> tables_ok E s' \<and>
    packed (idx_list (prim s' from)) \<and> packed (idx_list (prim s' to)) \<and>
    (\<exists>zs. length zs = transferable s from to demands \<and>
       hosted (prim s from) = hosted (prim s' from) @ zs \<and>
       hosted (prim s' to) = hosted (prim s to) @ rev zs) \<and>
    (\<forall>u. u \<noteq> from \<longrightarrow> u \<noteq> to \<longrightarrow> prim s' u = prim s u) \<and>
    dom (host (abs E s')) = dom (host (abs E s)))"
proof -
  have "slot_inv (idx_list (prim s from))" "slot_inv (idx_list (prim s to))"
    using assms tables_okD(5) [OF assms(1)] by (auto simp: slot_inv_def prim_shape_def)
  from realloc_loop_spec [OF assms(1-4) this, of demands 0] show ?thesis
    unfolding realloc_scav_def by (rule ends_mono) (auto simp: moved_top_def slot_inv_def)
qed

theorem realloc_scav_moves_top_witness:
  "tables_ok rich_env (placed 2 two_hosts) \<and>
   ends (realloc_scav rich_env 0 2 0 1 (placed 2 two_hosts)) never (\<lambda>(cnt, s').
     cnt = 1 \<and> map fst (hosted (prim s' 2)) = [8] \<and> map fst (hosted (prim s' 0)) = [7, 9])"
proof -
  let ?s = "placed 2 two_hosts"
  note pl = sample_placeable(1)
  have t: "0 < MAX_THREAD_NUM" "2 < MAX_THREAD_NUM" by (simp_all add: capacities)
  have ok: "tables_ok rich_env ?s" using placed_ok [OF pl] by simp
  note rows = placed_row [OF pl t(1)] placed_row [OF pl t(2)] sample_rows
  note h = placed_hosted [OF pl t(1), of 2] placed_hosted [OF pl t(2), of 2]
  have len: "length (hosted (prim ?s 0)) = 1" "length (hosted (prim ?s 2)) = 2"
    using arg_cong [OF h(1), of length] arg_cong [OF h(2), of length] by (simp_all add: sample_rows)
  then have tr: "transferable ?s 2 0 1 = 1" by (simp add: transferable_def capacities)
  have "ends (realloc_scav rich_env 0 2 0 1 ?s) never (\<lambda>(cnt, s').
      cnt = int (transferable ?s 2 0 1) \<and> tables_ok rich_env s' \<and>
      packed (idx_list (prim s' 2)) \<and> packed (idx_list (prim s' 0)) \<and>
      (\<exists>zs. length zs = transferable ?s 2 0 1 \<and> hosted (prim ?s 2) = hosted (prim s' 2) @ zs \<and>
         hosted (prim s' 0) = hosted (prim ?s 0) @ rev zs) \<and>
      (\<forall>u. u \<noteq> 2 \<longrightarrow> u \<noteq> 0 \<longrightarrow> prim s' u = prim ?s u) \<and>
      dom (host (abs rich_env s')) = dom (host (abs rich_env ?s)))"
    by (rule realloc_scav_moves_top [OF ok _ t(2,1)]) (simp_all add: rows)
  then have "ends (realloc_scav rich_env 0 2 0 1 ?s) never (\<lambda>(cnt, s').
     cnt = 1 \<and> map fst (hosted (prim s' 2)) = [8] \<and> map fst (hosted (prim s' 0)) = [7, 9])"
    by (rule ends_mono) (use h in \<open>auto simp: tr sample_rows length_Suc_conv\<close>)
  then show ?thesis using ok by simp
qed

end
