(* ===== verification/Allocation.thy ===== *)
theory Allocation
  imports Realloc
begin

text \<open>
  What \<open>allocate_scav\<close> of \<open>libmsh/msh.c\<close> achieves: the calling thread gains scavengers on top of
  those it has, first from blocked threads and then from the pool; no scavenger is lost or hosted
  twice; the thread falls short of its demand only when it is full or the pool is exhausted.
\<close>

section \<open>Growth of a thread\<close>

text \<open>
  The state in which a thread may allocate: its own slots and those of every thread that offers
  its scavengers are packed, and it does not offer its own.
\<close>

definition ready :: "env \<Rightarrow> nat \<Rightarrow> msh_state \<Rightarrow> bool" where
  "ready E ctx s \<longleftrightarrow> tables_ok E s \<and> ctx < MAX_THREAD_NUM \<and> packed (idx_list (prim s ctx)) \<and>
     \<not> reallocatable (prim s ctx) \<and>
     (\<forall>u < MAX_THREAD_NUM. reallocatable (prim s u) \<longrightarrow> packed (idx_list (prim s u)))"

lemma readyD:
  assumes "ready E ctx s"
  shows "tables_ok E s" "ctx < MAX_THREAD_NUM" "slot_inv (idx_list (prim s ctx))"
    "\<not> reallocatable (prim s ctx)"
    "u < MAX_THREAD_NUM \<Longrightarrow> reallocatable (prim s u) \<Longrightarrow> slot_inv (idx_list (prim s u))"
  using assms tables_okD(5) [of E s] by (auto simp: ready_def slot_inv_def prim_shape_def)

definition grown :: "env \<Rightarrow> nat \<Rightarrow> nat \<Rightarrow> msh_state \<Rightarrow> msh_state \<Rightarrow> bool" where
  "grown E ctx n s s' \<longleftrightarrow> ready E ctx s' \<and>
     (\<exists>zs. length zs = n \<and> hosted (prim s' ctx) = hosted (prim s ctx) @ zs) \<and>
     (\<forall>u. reallocatable (prim s' u) = reallocatable (prim s u)) \<and>
     (\<forall>u. u \<noteq> ctx \<longrightarrow> \<not> reallocatable (prim s u) \<longrightarrow> prim s' u = prim s u) \<and>
     reallocated (prim s' ctx) = reallocated (prim s ctx) \<and>
     scav_num (prim s' ctx) = scav_num (prim s ctx) \<and>
     (next_of s ctx 0 \<noteq> - 1 \<longrightarrow> next_of s' ctx 0 \<noteq> - 1) \<and>
     (\<forall>u. u \<noteq> ctx \<longrightarrow> next_of s' u 0 = next_of s u 0) \<and>
     gone (abs E s') = gone (abs E s) \<and> linked (abs E s') = linked (abs E s) \<and>
     dom (host (abs E s)) \<subseteq> dom (host (abs E s')) \<and> unhosted s s'"

lemma grownD:
  assumes "grown E ctx n s s'"
  shows "ready E ctx s'" "length (hosted (prim s' ctx)) = length (hosted (prim s ctx)) + n"
    "reallocatable (prim s' u) = reallocatable (prim s u)" "unhosted s s'"
    "gone (abs E s') = gone (abs E s)" "linked (abs E s') = linked (abs E s)"
    "dom (host (abs E s)) \<subseteq> dom (host (abs E s'))"
  using assms by (auto simp: grown_def)

lemma grown_0: "ready E ctx s \<Longrightarrow> grown E ctx 0 s s"
  by (simp add: grown_def unhosted_def)

lemma grown_trans:
  assumes "grown E ctx m s s'" and "grown E ctx n s' s''"
  shows "grown E ctx (m + n) s s''"
proof -
  obtain ys where "length ys = m" "hosted (prim s' ctx) = hosted (prim s ctx) @ ys"
    using assms(1) by (auto simp: grown_def)
  moreover obtain zs where "length zs = n" "hosted (prim s'' ctx) = hosted (prim s' ctx) @ zs"
    using assms(2) by (auto simp: grown_def)
  ultimately have "\<exists>xs. length xs = m + n \<and> hosted (prim s'' ctx) = hosted (prim s ctx) @ xs"
    by (intro exI [of _ "ys @ zs"]) simp
  moreover have "dom (host (abs E s)) \<subseteq> dom (host (abs E s''))"
    using grownD(7) [OF assms(1)] grownD(7) [OF assms(2)] by (rule subset_trans)
  ultimately show ?thesis using assms by (simp add: grown_def unhosted_def)
qed

section \<open>Taking from blocked threads\<close>

text \<open>Writing a \<open>reallocatable\<close> flag changes nothing else.\<close>

definition set_flag :: "nat \<Rightarrow> bool \<Rightarrow> msh_state \<Rightarrow> msh_state" where
  "set_flag u b = prim_upd u (\<lambda>c. c\<lparr>reallocatable := b\<rparr>)"

lemma prim_set_flag:
  "u < length (PRIM_TABLE s) \<Longrightarrow>
   prim (set_flag u b s) v = (if v = u then (prim s u)\<lparr>reallocatable := b\<rparr> else prim s v)"
  by (simp add: set_flag_def prim_nth_upd)

lemma hosted_flag [simp]:
  "hosted (c\<lparr>reallocatable := b\<rparr>) = hosted c"
  by (simp add: hosted_def)

lemma abs_set_flag [simp]: "u < length (PRIM_TABLE s) \<Longrightarrow> abs E (set_flag u b s) = abs E s"
  by (simp add: abs_def fun_eq_iff prim_set_flag) (simp add: set_flag_def)

lemma unhosted_set_flag [simp]: "unhosted s (set_flag u b s') = unhosted s s'"
  by (simp add: unhosted_def set_flag_def)

lemma unhosted_set_flag' [simp]: "unhosted (set_flag u b s) s' = unhosted s s'"
  by (simp add: unhosted_def set_flag_def)

lemma tables_ok_set_flag:
  assumes "u < MAX_THREAD_NUM" and "tables_ok E s"
  shows "tables_ok E (set_flag u b s)"
proof -
  have "shape (set_flag u b s)"
    unfolding set_flag_def
    by (rule shape_prim_upd) (use assms tables_okD(1,5) in \<open>auto simp: prim_shape_def\<close>)
  then show ?thesis using assms tables_okD(2,3) [OF assms(2)] by (simp add: tables_ok_def)
qed

text \<open>One thread of the loop: the flag is taken, scavengers move, the flag is given back.\<close>

lemma realloc_from_one:
  assumes r: "ready E ctx s" and u: "u < MAX_THREAD_NUM" and fl: "reallocatable (prim s u)"
  shows "ends (realloc_scav E ctx u ctx demands (set_flag u False s)) never (\<lambda>(cnt, s').
    cnt = int (transferable s u ctx demands) \<and>
    grown E ctx (transferable s u ctx demands) s (set_flag u True s') \<and>
    dom (host (abs E (set_flag u True s'))) = dom (host (abs E s)) \<and>
    (\<forall>v. v \<noteq> u \<longrightarrow> v \<noteq> ctx \<longrightarrow> prim (set_flag u True s') v = prim s v))"
proof -
  note ok = readyD(1) [OF r] and c = readyD(2) [OF r]
  let ?s = "set_flag u False s"
  have ne: "u \<noteq> ctx" using fl readyD(4) [OF r] by auto
  have len: "u < length (PRIM_TABLE s)" using u tables_okD(3) [OF ok] by simp
  have p: "prim ?s ctx = prim s ctx" "idx_list (prim ?s u) = idx_list (prim s u)"
      "hosted (prim ?s u) = hosted (prim s u)" "ycs (prim ?s u) = ycs (prim s u)"
    using ne by (auto simp: prim_set_flag [OF len])
  have tr: "transferable ?s u ctx demands = transferable s u ctx demands"
    by (simp add: transferable_def p)
  have "ends (realloc_scav E ctx u ctx demands ?s) never (\<lambda>(cnt, s').
      cnt = int (transferable s u ctx demands) \<and> moved_top E u ctx (transferable s u ctx demands) ?s s')"
    using realloc_loop_spec [OF tables_ok_set_flag [OF u ok] ne u c, of False demands 0]
      readyD(3) [OF r] readyD(5) [OF r u fl] by (simp add: p tr realloc_scav_def)
  then show ?thesis
  proof (rule ends_mono, simp, clarify, intro conjI)
    fix s' assume m: "moved_top E u ctx (transferable s u ctx demands) ?s s'"
    let ?t = "set_flag u True s'"
    note ok' = moved_topD(1) [OF m]
    have len': "u < length (PRIM_TABLE s')" using u tables_okD(3) [OF ok'] by simp
    note q = prim_set_flag [OF len']
    show "dom (host (abs E ?t)) = dom (host (abs E s))"
      using m len by (simp add: abs_set_flag [OF len'] moved_top_def)
    have flags: "reallocatable (prim ?t v) = reallocatable (prim s v)" for v
      using moved_topD(8) [OF m, of v] fl by (simp add: q prim_set_flag [OF len])
    have others: "prim ?t v = prim s v" if "v \<noteq> u" "v \<noteq> ctx" for v
      using moved_topD(7) [OF m that] that by (simp add: q prim_set_flag [OF len])
    then show "\<forall>v. v \<noteq> u \<longrightarrow> v \<noteq> ctx \<longrightarrow> prim ?t v = prim s v" by blast
    have "packed (idx_list (prim ?t v))" if "v < MAX_THREAD_NUM" "reallocatable (prim s v)" for v
      using that moved_topD(2,3) [OF m] others [of v] readyD(5) [OF r that]
      by (cases "v = u"; cases "v = ctx") (auto simp: q slot_inv_def)
    then have "ready E ctx ?t"
      using tables_ok_set_flag [OF u ok'] c moved_topD(3) [OF m] flags flags [of ctx] readyD(4) [OF r] ne
      by (simp add: ready_def q slot_inv_def)
    have "next_of ?t v 0 = next_of s v 0" if "v \<noteq> ctx" for v
      using moved_topD(10) [OF m] others [of v] that p(4) by (cases "v = u") (simp_all add: q)
    with \<open>ready E ctx ?t\<close> show "grown E ctx (transferable s u ctx demands) s ?t"
      using m ne len flags others fl moved_topD(6) [OF m] p
      unfolding grown_def moved_top_def by (auto simp: q abs_set_flag [OF len'])
  qed simp_all
qed

lemma realloc_from_threads_grows:
  assumes "ready E ctx s" and "set tids \<subseteq> {..<MAX_THREAD_NUM}"
  shows "ends (realloc_from_threads E ctx ctx demands tids r s) never (\<lambda>(met, cnt, s').
    (\<exists>n. cnt = r + int n \<and> grown E ctx n s s') \<and> (met \<longrightarrow> demands \<le> cnt) \<and>
    dom (host (abs E s')) = dom (host (abs E s)))"
  using assms
proof (induction tids arbitrary: r s)
  case Nil
  then show ?case by (auto intro!: exI [of _ 0] grown_0)
next
  case (Cons u tids)
  then have u: "u < MAX_THREAD_NUM" and us: "set tids \<subseteq> {..<MAX_THREAD_NUM}" by auto
  show ?case
  proof (cases "reallocatable (prim s u)")
    case False
    then show ?thesis using Cons.IH [OF Cons.prems(1) us] by simp
  next
    case True
    have rest: "ends (realloc_from_threads E ctx ctx demands tids (r + int n) s1) never (\<lambda>(met, cnt, s').
        (\<exists>n. cnt = r + int n \<and> grown E ctx n s s') \<and> (met \<longrightarrow> demands \<le> cnt) \<and>
        dom (host (abs E s')) = dom (host (abs E s)))"
      if g: "grown E ctx n s s1" and d: "dom (host (abs E s1)) = dom (host (abs E s))" for n s1
      using Cons.IH [OF grownD(1) [OF g] us, of "r + int n"] d
      by (elim ends_mono) (auto dest!: grown_trans [OF g] intro!: exI)
    show ?thesis
      using True realloc_from_one [OF Cons.prems(1) u True, of demands] rest
      by (auto simp: ends_never Let_def set_flag_def ends_def split: sum.splits)
  qed
qed

section \<open>Taking from the pool\<close>

text \<open>Exporting arguments, position and loop counter to a scavenger touches its own library only.\<close>

definition exported ::
  "env \<Rightarrow> nat \<Rightarrow> coroutine_ctx \<Rightarrow> handle \<Rightarrow> nat \<Rightarrow> msh_state \<Rightarrow> msh_state \<Rightarrow> bool" where
  "exported E t x h pos s s' \<longleftrightarrow> dlsym E h ''crt_pos'' \<noteq> None \<and>
     SCAV_TABLE s' = SCAV_TABLE s \<and> length (PRIM_TABLE s') = length (PRIM_TABLE s) \<and>
     (\<exists>lc. length lc = length (loop_counter (prim s t)) \<and>
        (\<forall>u. prim s' u = (if u = t then (prim s t)\<lparr>loop_counter := lc\<rparr> else prim s u))) \<and>
     (\<forall>h'. h' \<noteq> h \<longrightarrow> libs s' h' = libs s h') \<and> sym_crt_pos (libs s' h) = offset_of_pos pos \<and>
     sym_argv (libs s' h) = argv x \<and> sym_argc (libs s' h) = argc x \<and> unhosted s s'"

lemma set_scav_symbol_exports:
  assumes "scav_in_range i" and "lib_handle (scav s i) = Some h" and "t < length (PRIM_TABLE s)"
    and "pos < NSLOT"
  shows "ends (set_scav_symbol E t i pos s) may_exit (exported E t (scav s i) h pos s)"
proof -
  have off: "to_int (to_size_t (int pos * 20)) = offset_of_pos pos"
    using assms(4) by (simp add: offset_of_pos_eq to_size_t_id to_int_id capacities)
  let ?zero = "(loop_counter (prim s t))[pos := replicate (NUM_OF_LINES_FOR_LOOP_COUNTER * 64) 0]"
  let ?f = "\<lambda>l. l\<lparr>sym_argc := argc (scav s i), sym_argv := argv (scav s i), sym_crt_pos := offset_of_pos pos\<rparr>"
  have keep: "exported E t (scav s i) h pos s (lib_upd h ?f s)" if "dlsym E h ''crt_pos'' \<noteq> None"
    using that unfolding exported_def
    by (intro conjI exI [of _ "loop_counter (prim s t)"]) (simp_all add: unhosted_def)
  have clear: "exported E t (scav s i) h pos s
      (prim_upd t (\<lambda>c. c\<lparr>loop_counter := (loop_counter c)[pos := replicate (NUM_OF_LINES_FOR_LOOP_COUNTER * 64) 0]\<rparr>)
        (lib_upd h g (lib_upd h ?f s)))"
    if "dlsym E h ''crt_pos'' \<noteq> None" "g = (\<lambda>l. l\<lparr>sym_loop_counter_loc := v\<rparr>)" for g v
    using that assms(3) unfolding exported_def
    by (intro conjI exI [of _ ?zero]) (simp_all add: unhosted_def prim_nth_upd)
  have fuse: "lib_upd h (\<lambda>l. l\<lparr>sym_crt_pos := offset_of_pos pos\<rparr>) (lib_upd h (\<lambda>l. l\<lparr>sym_argv := argv (scav s i)\<rparr>)
      (lib_upd h (\<lambda>l. l\<lparr>sym_argc := argc (scav s i)\<rparr>) s)) = lib_upd h ?f s"
    by (simp add: lib_upd_def)
  show ?thesis
    using assms(1,2) keep clear [OF _ refl]
    by (simp add: set_scav_symbol_def scav_get_def off Let_def fuse)
qed

lemma hosted_cong:
  "idx_list c = idx_list d \<Longrightarrow> regs c = regs d \<Longrightarrow>
   map (\<lambda>y. (sp y, ip y)) (ycs c) = map (\<lambda>y. (sp y, ip y)) (ycs d) \<Longrightarrow> hosted c = hosted d"
  by (simp add: hosted_def)

lemma hosted_push:
  assumes "prim_shape c" and "idx_list c ! 0 = - 1" and "slot_inv (idx_list c)" and "i \<noteq> - 1"
    and "push_back_to_list (idx_list c) NSLOT i = (l, Some q)"
  shows "hosted (c\<lparr>idx_list := l, ycs := (ycs c)[q := y], loop_counter := lc\<rparr>) =
    hosted c @ [(i, (sp y, ip y), regs c ! q)]"
proof -
  have len: "length (ycs c) = NSLOT" "length (regs c) = NSLOT" using assms(1) by (auto simp: prim_shape_def)
  have q: "0 < q" "q < NSLOT" using hosted_took(3,4) [OF assms] by auto
  have "hosted (c\<lparr>idx_list := l, ycs := (ycs c)[q := y], loop_counter := lc\<rparr>) =
      hosted (took l q y (regs c ! q) c)"
    by (rule hosted_cong) (use len q NSLOT_pos in \<open>auto simp: took_def intro!: nth_equalityI
      simp: nth_list_update\<close>)
  then show ?thesis using hosted_took(1) [OF assms] by simp
qed

text \<open>The calling thread's context with a scavenger placed on top.\<close>

definition topped ::
  "nat \<Rightarrow> int list \<Rightarrow> nat \<Rightarrow> yield_ctx \<Rightarrow> nat \<Rightarrow> msh_state \<Rightarrow> msh_state \<Rightarrow> bool" where
  "topped ctx l pos y idx s s' \<longleftrightarrow>
     SCAV_TABLE s' = (SCAV_TABLE s)[idx := (SCAV_TABLE s ! idx)\<lparr>yc := Some (ctx, pos)\<rparr>] \<and>
     length (PRIM_TABLE s') = length (PRIM_TABLE s) \<and> unhosted s s' \<and>
     (\<exists>lc. length lc = length (loop_counter (prim s ctx)) \<and>
        (\<forall>u. prim s' u = (if u = ctx then (prim s ctx)\<lparr>idx_list := l,
          ycs := (ycs (prim s ctx))[pos := y], loop_counter := lc\<rparr> else prim s u)))"

lemma topped_lib_handle:
  assumes "topped ctx l pos y idx s s'"
  shows "map lib_handle (SCAV_TABLE s') = map lib_handle (SCAV_TABLE s)"
proof -
  have "map lib_handle (SCAV_TABLE s') =
      (map lib_handle (SCAV_TABLE s))[idx := lib_handle (SCAV_TABLE s ! idx)]"
    using assms by (simp add: topped_def map_update)
  also have "\<dots> = map lib_handle (SCAV_TABLE s)"
    by (cases "idx < length (SCAV_TABLE s)") (simp_all add: list_update_same_conv list_update_beyond)
  finally show ?thesis .
qed

lemma topped_refines_assign:
  assumes r: "ready E ctx s" and idx: "idx < MAX_ACTIVE_CRT_NUM_PER_APPLICATION"
    and lib: "lib_handle (SCAV_TABLE s ! idx) = Some h" "dlsym E h ''crt_pos'' \<noteq> None"
    and free: "yc (SCAV_TABLE s ! idx) = None" "\<not> finished (SCAV_TABLE s ! idx)"
    and push: "push_back_to_list (idx_list (prim s ctx)) NSLOT (int idx) = (l, Some pos)"
    and top: "topped ctx l pos y idx s s'" and live: "normal_next y = 0"
  shows "grown E ctx 1 s s'" "abs E s' = assign (int idx) ctx pos (abs E s)"
proof -
  note ok = readyD(1) [OF r] and c = readyD(2) [OF r]
  note sh = tables_okD(5) [OF ok c]
  have rng: "scav_in_range (int idx)" using idx by (simp add: scav_in_range_def)
  have pos: "0 < pos" "pos < NSLOT" "slot_inv l" "l = (idx_list (prim s ctx))[pos := int idx]"
      "idx_of s ctx pos = - 1"
    using hosted_took(2-6) [OF sh tables_primary_slot [OF ok c] readyD(3) [OF r] _ push] by auto
  obtain lc where lc: "length lc = length (loop_counter (prim s ctx))"
    and prim': "\<And>u. prim s' u = (if u = ctx then (prim s ctx)\<lparr>idx_list := l,
      ycs := (ycs (prim s ctx))[pos := y], loop_counter := lc\<rparr> else prim s u)"
    and tab: "SCAV_TABLE s' = (SCAV_TABLE s)[idx := (SCAV_TABLE s ! idx)\<lparr>yc := Some (ctx, pos)\<rparr>]"
    and un: "unhosted s s'" and plen: "length (PRIM_TABLE s') = length (PRIM_TABLE s)"
    using top by (auto simp: topped_def)
  have sh': "shape s'"
    using tables_okD(1) [OF ok] sh pos(3) lc
    by (auto simp: shape_def prim' plen tab prim_shape_def slot_inv_def)
  have rows: "scav s' j = (if j = int idx then (SCAV_TABLE s ! idx)\<lparr>yc := Some (ctx, pos)\<rparr> else scav s j)"
    if "scav_in_range j" for j
    using that idx tables_okD(4) [OF ok] by (auto simp: tab nth_list_update scav_in_range_def)
  have lens: "length (idx_list (prim s ctx)) = NSLOT" "length (ycs (prim s ctx)) = NSLOT"
    using sh by (auto simp: prim_shape_def)
  have asg: "tables_ok E s' \<and> abs E s' = assign (int idx) ctx pos (abs E s)"
    by (intro conjI refines_assign [OF ok, where h = h and p = pos and t = ctx and i = "int idx"];
        use c pos rng free lib live sh' lens rows in \<open>auto simp: prim' nth_list_update\<close>)
  show "abs E s' = assign (int idx) ctx pos (abs E s)" using asg by simp
  have "hosted (prim s' ctx) = hosted (prim s ctx) @ [(int idx, (sp y, ip y), regs (prim s ctx) ! pos)]"
    using hosted_push [OF sh tables_primary_slot [OF ok c] readyD(3) [OF r] _ push] by (simp add: prim')
  moreover have "ready E ctx s'"
    using r asg pos(3) by (auto simp: ready_def prim' slot_inv_def)
  moreover have "dom (host (abs E s)) \<subseteq> dom (host (abs E s'))" "gone (abs E s') = gone (abs E s)"
      "linked (abs E s') = linked (abs E s)"
    using asg by (auto simp: assign_def)
  ultimately show "grown E ctx 1 s s'"
    using un pos(1) unfolding grown_def
    by (intro conjI exI [of _ "[(int idx, (sp y, ip y), regs (prim s ctx) ! pos)]"]) (simp_all add: prim')
qed

text \<open>Placing a scavenger of the pool is the specification's \<open>assign\<close>.\<close>

lemma place_scav_refines_assign:
  assumes r: "ready E ctx s" and idx: "idx < MAX_ACTIVE_CRT_NUM_PER_APPLICATION"
    and lib: "lib_handle (SCAV_TABLE s ! idx) = Some h"
    and free: "yc (SCAV_TABLE s ! idx) = None" "\<not> finished (SCAV_TABLE s ! idx)"
    and push: "push_back_to_list (idx_list (prim s ctx)) NSLOT (int idx) = (l, Some pos)"
  shows "ends (place_scav E ctx ctx idx pos (prim_upd ctx (\<lambda>c. c\<lparr>idx_list := l\<rparr>) s)) may_exit (\<lambda>s'.
    grown E ctx 1 s s' \<and> abs E s' = assign (int idx) ctx pos (abs E s) \<and>
    (\<forall>h'. h' \<noteq> h \<longrightarrow> libs s' h' = libs s h') \<and> sym_crt_pos (libs s' h) = offset_of_pos pos \<and>
    map lib_handle (SCAV_TABLE s') = map lib_handle (SCAV_TABLE s))"
proof -
  have len: "ctx < length (PRIM_TABLE s)" using readyD(2) [OF r] tables_okD(3) [OF readyD(1) [OF r]] by simp
  have rng: "scav_in_range (int idx)" using idx by (simp add: scav_in_range_def)
  have pos: "pos < NSLOT"
    using push by (auto simp: push_back_to_list_def first_pos_Some split: option.splits)
  define f where "f = (\<lambda>y :: yield_ctx. y\<lparr>sp := ret_to_sched_addr (scav_base E) idx,
    ip := (case entry (SCAV_TABLE s ! idx) of Some e \<Rightarrow> e | None \<Rightarrow> 0), normal_next := 0\<rparr>)"
  define s2 where "s2 = yc_upd ctx pos f (prim_upd ctx (\<lambda>c. c\<lparr>idx_list := l\<rparr>) s)"
  have s2: "SCAV_TABLE s2 = SCAV_TABLE s" "libs s2 = libs s" "unhosted s s2"
      "length (PRIM_TABLE s2) = length (PRIM_TABLE s)"
    by (simp_all add: s2_def unhosted_def)
  have prim2: "prim s2 u = (if u = ctx then (prim s ctx)\<lparr>idx_list := l,
      ycs := (ycs (prim s ctx))[pos := f (ycs (prim s ctx) ! pos)]\<rparr> else prim s u)" for u
    using len by (simp add: s2_def table_reads)
  have eff: "ends (set_scav_symbol E ctx (int idx) pos s2) may_exit
      (exported E ctx (scav s2 (int idx)) h pos s2)"
    by (rule set_scav_symbol_exports) (use rng lib s2 len pos in simp_all)
  have post: "topped ctx l pos (f (ycs (prim s ctx) ! pos)) idx s
      (scav_upd (int idx) (\<lambda>x. x\<lparr>yc := Some (ctx, pos)\<rparr>) s3)"
    if ex: "exported E ctx (scav s2 (int idx)) h pos s2 s3" for s3
  proof -
    obtain lc where "length lc = length (loop_counter (prim s ctx))"
        "\<And>u. prim s3 u = (if u = ctx then (prim s ctx)\<lparr>idx_list := l,
        ycs := (ycs (prim s ctx))[pos := f (ycs (prim s ctx) ! pos)], loop_counter := lc\<rparr> else prim s u)"
      using ex by (auto simp: exported_def prim2)
    then show ?thesis
      using ex s2 rng by (auto simp: topped_def exported_def unhosted_def scav_upd_def)
  qed
  have fin: "grown E ctx 1 s s' \<and> abs E s' = assign (int idx) ctx pos (abs E s) \<and>
      (\<forall>h'. h' \<noteq> h \<longrightarrow> libs s' h' = libs s h') \<and> sym_crt_pos (libs s' h) = offset_of_pos pos \<and>
      map lib_handle (SCAV_TABLE s') = map lib_handle (SCAV_TABLE s)"
    if ex: "exported E ctx (scav s2 (int idx)) h pos s2 s3"
      and s': "s' = scav_upd (int idx) (\<lambda>x. x\<lparr>yc := Some (ctx, pos)\<rparr>) s3" for s3 s'
    using topped_refines_assign [OF r idx lib _ free push post [OF ex]] topped_lib_handle [OF post [OF ex]]
      ex by (simp add: s' exported_def s2 f_def)
  show ?thesis
    unfolding place_scav_def Let_def prim_upd_simps f_def [symmetric] s2_def [symmetric]
    by (rule ends_bindI [OF eff]) (subst ends_Inr, rule fin [OF _ refl])
qed

text \<open>
  The walk over the pool. It serves the demand, or stops because the thread is full, or has
  looked at every scavenger of the pool without finding an unhosted, unfinished one.
\<close>

definition exhausted :: "env \<Rightarrow> nat set \<Rightarrow> msh_state \<Rightarrow> bool" where
  "exhausted E A s \<longleftrightarrow> (\<forall>i \<in> A. linked (abs E s) (int i) \<longrightarrow>
     host (abs E s) (int i) \<noteq> None \<or> gone (abs E s) (int i))"

lemma exhausted_grown:
  assumes "grown E ctx n s s'" and "exhausted E A s"
  shows "exhausted E A s'"
  using assms(2) grownD(5-7) [OF assms(1)] by (force simp: exhausted_def)

lemma exhausted_insert:
  "exhausted E (insert i A) s \<longleftrightarrow> (linked (abs E s) (int i) \<longrightarrow>
     host (abs E s) (int i) \<noteq> None \<or> gone (abs E s) (int i)) \<and> exhausted E A s"
  by (simp add: exhausted_def)

definition served :: "env \<Rightarrow> nat \<Rightarrow> int \<Rightarrow> nat set \<Rightarrow> int \<Rightarrow> msh_state \<Rightarrow> int \<times> msh_state \<Rightarrow> bool" where
  "served E ctx demands A r s = (\<lambda>(cnt, s'). (\<exists>n. cnt = r + int n \<and> grown E ctx n s s') \<and>
     (r < demands \<longrightarrow> cnt \<le> demands) \<and>
     (demands \<le> cnt \<or> length (hosted (prim s' ctx)) = MAX_CRT_PER_THREAD \<or> exhausted E A s'))"

lemma served_grown:
  assumes g: "grown E ctx n s s1" and x: "exhausted E {i} s1"
    and sv: "served E ctx demands A (r + int n) s1 z" and "r < demands \<longrightarrow> r + int n < demands"
  shows "served E ctx demands (insert i A) r s z"
proof -
  obtain cnt s' where z: "z = (cnt, s')" by (cases z)
  obtain m where m: "cnt = r + int n + int m" "grown E ctx m s1 s'"
    using sv by (auto simp: served_def z)
  have "grown E ctx (n + m) s s'" using g m(2) by (rule grown_trans)
  moreover have "exhausted E {i} s'" using m(2) x by (rule exhausted_grown)
  ultimately show ?thesis
    using sv assms(4) m(1)
    by (auto simp: served_def z exhausted_insert [of E i A] exhausted_insert [of E i "{}"]
        intro!: exI [of _ "n + m"])
qed

lemma alloc_from_pool_serves:
  assumes "ready E ctx s" and "set idxs \<subseteq> {..<MAX_ACTIVE_CRT_NUM_PER_APPLICATION}"
  shows "ends (alloc_from_pool E ctx ctx demands idxs r s) may_exit (served E ctx demands (set idxs) r s)"
  using assms
proof (induction idxs arbitrary: r s)
  case Nil
  then show ?case by (auto simp: served_def exhausted_def intro!: exI [of _ 0] grown_0)
next
  case (Cons i idxs)
  then have i: "i < MAX_ACTIVE_CRT_NUM_PER_APPLICATION"
    and sub: "set idxs \<subseteq> {..<MAX_ACTIVE_CRT_NUM_PER_APPLICATION}" by auto
  have rng: "scav_in_range (int i)" using i by (simp add: scav_in_range_def)
  note r = Cons.prems(1)
  show ?case
  proof (cases "lib_handle (SCAV_TABLE s ! i) = None \<or> yc (SCAV_TABLE s ! i) \<noteq> None \<or> finished (SCAV_TABLE s ! i)")
    case True
    then have x: "exhausted E {i} s" using rng by (auto simp: exhausted_def abs_def)
    have "alloc_from_pool E ctx ctx demands (i # idxs) r s = alloc_from_pool E ctx ctx demands idxs r s"
      using True by auto
    then show ?thesis
      using Cons.IH [OF r sub, of r] served_grown [OF grown_0 [OF r] x, of demands "set idxs" r]
      by (auto elim: ends_mono)
  next
    case False
    then obtain h where lib: "lib_handle (SCAV_TABLE s ! i) = Some h" and
      free: "yc (SCAV_TABLE s ! i) = None" "\<not> finished (SCAV_TABLE s ! i)" by (metis not_None_eq)
    show ?thesis
    proof (cases "length (items (idx_list (prim s ctx))) = MAX_CRT_PER_THREAD")
      case True
      then have "length (hosted (prim s ctx)) = MAX_CRT_PER_THREAD"
        using hosted_length [OF readyD(1,2) [OF r]] by simp
      then show ?thesis
        using slots.push_full [OF readyD(3) [OF r] True] lib free r
        by (auto simp: served_def intro!: exI [of _ 0] grown_0)
    next
      case room: False
      then obtain l pos where push: "push_back_to_list (idx_list (prim s ctx)) NSLOT (int i) = (l, Some pos)"
        using slots.push_room [OF readyD(3) [OF r], of "int i"] slots.contents_cap [OF readyD(3) [OF r]]
        by (auto simp: le_less)
      have done_or_go: "ends (if r + 1 \<ge> demands then Inr (r + 1, s1)
          else alloc_from_pool E ctx ctx demands idxs (r + 1) s1) may_exit
          (served E ctx demands (set (i # idxs)) r s)"
        if g: "grown E ctx 1 s s1" and a: "abs E s1 = assign (int i) ctx pos (abs E s)" for s1
      proof -
        have x: "exhausted E {i} s1" by (simp add: exhausted_def a assign_def)
        have "served E ctx demands (insert i (set idxs)) r s (r + 1, s1)" if "demands \<le> r + 1"
          using that g by (auto simp: served_def intro!: exI [of _ 1])
        then show ?thesis
          using Cons.IH [OF grownD(1) [OF g] sub, of "r + 1"]
            served_grown [OF g x, of demands "set idxs" r]
          by (auto elim: ends_mono)
      qed
      have "alloc_from_pool E ctx ctx demands (i # idxs) r s =
          bindR (place_scav E ctx ctx i pos (prim_upd ctx (\<lambda>c. c\<lparr>idx_list := l\<rparr>) s)) (\<lambda>s1.
            if r + 1 \<ge> demands then Inr (r + 1, s1) else alloc_from_pool E ctx ctx demands idxs (r + 1) s1)"
        using lib free push by simp
      then show ?thesis
        using place_scav_refines_assign [OF r i lib free push] done_or_go by (auto intro: ends_bindI)
    qed
  qed
qed

lemma allocate_scav_locked_serves:
  assumes r: "ready E ctx s"
  shows "ends (allocate_scav_locked E ctx ctx demands s) may_exit (\<lambda>(cnt, s').
    (\<exists>n. cnt = int n \<and> grown E ctx n s s') \<and>
    (demands \<le> cnt \<or> length (hosted (prim s' ctx)) = MAX_CRT_PER_THREAD \<or>
     exhausted E {..<MAX_ACTIVE_CRT_NUM_PER_APPLICATION} s'))"
proof -
  let ?idxs = "[0..<MAX_ACTIVE_CRT_NUM_PER_APPLICATION]"
  have taken: "ends (realloc_from_threads E ctx ctx demands [0..<MAX_THREAD_NUM] 0 s) may_exit
      (\<lambda>(met, cnt, s'). (\<exists>n. cnt = int n \<and> grown E ctx n s s') \<and> (met \<longrightarrow> demands \<le> cnt))"
    by (rule ends_mono [OF realloc_from_threads_grows [OF r, of _ demands 0]]) auto
  have pool: "ends (alloc_from_pool E ctx ctx demands ?idxs (int n) s1) may_exit (\<lambda>(cnt, s').
      (\<exists>n. cnt = int n \<and> grown E ctx n s s') \<and>
      (demands \<le> cnt \<or> length (hosted (prim s' ctx)) = MAX_CRT_PER_THREAD \<or>
       exhausted E {..<MAX_ACTIVE_CRT_NUM_PER_APPLICATION} s'))" if g: "grown E ctx n s s1" for n s1
  proof (rule ends_mono [OF alloc_from_pool_serves [OF grownD(1) [OF g], of ?idxs demands "int n"]])
    fix z assume z: "served E ctx demands (set ?idxs) (int n) s1 z"
    obtain cnt s' where "z = (cnt, s')" by (cases z)
    moreover from this z obtain m where "cnt = int n + int m" "grown E ctx m s1 s'"
      by (auto simp: served_def)
    ultimately show "case z of (cnt, s') \<Rightarrow> (\<exists>n. cnt = int n \<and> grown E ctx n s s') \<and>
        (demands \<le> cnt \<or> length (hosted (prim s' ctx)) = MAX_CRT_PER_THREAD \<or>
         exhausted E {..<MAX_ACTIVE_CRT_NUM_PER_APPLICATION} s')"
      using z grown_trans [OF g, of m s']
      by (auto simp: served_def lessThan_atLeast0 intro!: exI [of _ "n + m"])
  qed (simp_all add: lessThan_atLeast0)
  show ?thesis
    unfolding allocate_scav_locked_def
    by (rule ends_bindI [OF taken]) (use pool in \<open>auto split: prod.splits\<close>)
qed

section \<open>Running \<open>init\<close>\<close>

text \<open>
  What the runtime relies on when it calls a scavenger's \<open>init\<close>: the links of its slot point to
  itself during the call, so the call comes back without touching another slot, the index list
  or the flags of the thread.
\<close>

definition init_local :: "env \<Rightarrow> bool" where
  "init_local E \<longleftrightarrow> (\<forall>f pos c. idx_list (run_init E f pos c) = idx_list c \<and>
     scav_num (run_init E f pos c) = scav_num c \<and>
     reallocatable (run_init E f pos c) = reallocatable c \<and>
     reallocated (run_init E f pos c) = reallocated c \<and>
     length (regs (run_init E f pos c)) = length (regs c) \<and>
     length (loop_counter (run_init E f pos c)) = length (loop_counter c) \<and>
     length (ycs (run_init E f pos c)) = length (ycs c) \<and>
     (\<forall>q. q \<noteq> pos \<longrightarrow> ycs (run_init E f pos c) ! q = ycs c ! q))"

lemma init_local_rich: "init_local rich_env"
  by (simp add: init_local_def rich_env_def)

text \<open>Initialisation leaves its mark in \<open>inited\<close>, in registers and in loop counters, nowhere else.\<close>

definition same_but_inited :: "nat \<Rightarrow> msh_state \<Rightarrow> msh_state \<Rightarrow> bool" where
  "same_but_inited t s s' \<longleftrightarrow> length (PRIM_TABLE s') = length (PRIM_TABLE s) \<and>
     (\<forall>u. u \<noteq> t \<longrightarrow> prim s' u = prim s u) \<and> idx_list (prim s' t) = idx_list (prim s t) \<and>
     ycs (prim s' t) = ycs (prim s t) \<and> scav_num (prim s' t) = scav_num (prim s t) \<and>
     reallocatable (prim s' t) = reallocatable (prim s t) \<and>
     reallocated (prim s' t) = reallocated (prim s t) \<and>
     length (regs (prim s' t)) = length (regs (prim s t)) \<and>
     length (loop_counter (prim s' t)) = length (loop_counter (prim s t)) \<and>
     map (\<lambda>x. x\<lparr>inited := False\<rparr>) (SCAV_TABLE s') = map (\<lambda>x. x\<lparr>inited := False\<rparr>) (SCAV_TABLE s) \<and>
     libs s' = libs s \<and> unhosted s s'"

lemma same_but_inited_refl: "same_but_inited t s s"
  by (simp add: same_but_inited_def unhosted_def)

lemma same_but_inited_trans:
  "same_but_inited t s s' \<Longrightarrow> same_but_inited t s' s'' \<Longrightarrow> same_but_inited t s s''"
  by (simp add: same_but_inited_def unhosted_def)

lemma same_but_inited_rows:
  assumes "same_but_inited t s s'" and "scav_in_range i" and "shape s"
  shows "yc (scav s' i) = yc (scav s i)" "finished (scav s' i) = finished (scav s i)"
    "lib_handle (scav s' i) = lib_handle (scav s i)" "init (scav s' i) = init (scav s i)"
proof -
  let ?m = "map (\<lambda>x. x\<lparr>inited := False\<rparr>)"
  have m: "?m (SCAV_TABLE s') = ?m (SCAV_TABLE s)" using assms(1) by (simp add: same_but_inited_def)
  then have "length (SCAV_TABLE s') = length (SCAV_TABLE s)" by (metis length_map)
  then have "nat i < length (SCAV_TABLE s)" "nat i < length (SCAV_TABLE s')"
    using assms(2,3) by (auto simp: shape_def scav_in_range_def nat_less_iff)
  then have "(scav s' i)\<lparr>inited := False\<rparr> = (scav s i)\<lparr>inited := False\<rparr>"
    using arg_cong [OF m, of "\<lambda>l. l ! nat i"] by simp
  then show "yc (scav s' i) = yc (scav s i)" "finished (scav s' i) = finished (scav s i)"
      "lib_handle (scav s' i) = lib_handle (scav s i)" "init (scav s' i) = init (scav s i)"
    by (auto dest: arg_cong [where f = yc] arg_cong [where f = finished]
        arg_cong [where f = lib_handle] arg_cong [where f = init])
qed

lemma same_but_inited_view:
  assumes si: "same_but_inited t s s'" and ok: "tables_ok E s" and t: "t < MAX_THREAD_NUM"
  shows "tables_ok E s'" "abs E s' = abs E s"
proof -
  note rows = same_but_inited_rows [OF si _ tables_okD(1) [OF ok]]
  have p: "idx_list (prim s' u) = idx_list (prim s u)" "ycs (prim s' u) = ycs (prim s u)" for u
    using si by (cases "u = t"; simp add: same_but_inited_def)+
  show abs': "abs E s' = abs E s" using rows by (auto simp: abs_def fun_eq_iff p)
  have "prim_shape (prim s' u)" if "u < MAX_THREAD_NUM" for u
    using tables_okD(5) [OF ok that] si
    by (cases "u = t") (auto simp: same_but_inited_def prim_shape_def)
  moreover have "length (SCAV_TABLE s') = length (SCAV_TABLE s)"
    using si by (metis same_but_inited_def length_map)
  ultimately have "shape s'"
    using tables_okD(3,4) [OF ok] si by (simp add: shape_def same_but_inited_def)
  then show "tables_ok E s'" using abs' tables_okD(2) [OF ok] by (simp add: tables_ok_def)
qed

definition init_done :: "nat \<Rightarrow> nat \<Rightarrow> msh_state \<Rightarrow> bool" where
  "init_done t n s \<longleftrightarrow> (\<forall>p. 0 < p \<and> p < n \<and> p < NSLOT \<and> idx_of s t p \<noteq> - 1 \<longrightarrow>
     inited (scav s (idx_of s t p)) \<or> init (scav s (idx_of s t p)) = None)"

text \<open>Calling \<open>init\<close> and restoring the slot's yield context.\<close>

definition run_and_restore :: "env \<Rightarrow> 64 word \<Rightarrow> nat \<Rightarrow> primary_thread_ctx \<Rightarrow> primary_thread_ctx" where
  "run_and_restore E f pos c =
     (let y = ycs c ! pos;
          c = run_init E f pos (c\<lparr>ycs := (ycs c)[pos := y\<lparr>normal_next := offset_of_pos pos,
                special_next := offset_of_pos pos\<rparr>]\<rparr>)
      in c\<lparr>ycs := (ycs c)[pos := (ycs c ! pos)\<lparr>sp := sp y, ip := ip y,
           normal_next := normal_next y, special_next := special_next y\<rparr>]\<rparr>)"

lemma run_and_restore_sel:
  assumes "init_local E" and "pos < length (ycs c)"
  shows "ycs (run_and_restore E f pos c) = ycs c" "idx_list (run_and_restore E f pos c) = idx_list c"
    "scav_num (run_and_restore E f pos c) = scav_num c"
    "reallocatable (run_and_restore E f pos c) = reallocatable c"
    "reallocated (run_and_restore E f pos c) = reallocated c"
    "length (regs (run_and_restore E f pos c)) = length (regs c)"
    "length (loop_counter (run_and_restore E f pos c)) = length (loop_counter c)"
proof -
  show "ycs (run_and_restore E f pos c) = ycs c"
  proof (rule nth_equalityI)
    fix q assume "q < length (ycs (run_and_restore E f pos c))"
    then show "ycs (run_and_restore E f pos c) ! q = ycs c ! q"
      using assms by (simp add: run_and_restore_def Let_def init_local_def nth_list_update)
  qed (use assms in \<open>simp add: run_and_restore_def Let_def init_local_def\<close>)
qed (use assms in \<open>simp_all add: run_and_restore_def Let_def init_local_def\<close>)

lemma init_step_effect:
  assumes E: "init_local E" and ok: "tables_ok E s" and sl: "slot t p" and prev: "init_done t p s"
  shows "ends (init_step E t p s) never (\<lambda>s'. same_but_inited t s s' \<and> init_done t (Suc p) s')"
proof (cases "idx_of s t p = - 1 \<or> inited (scav s (idx_of s t p)) \<or> init (scav s (idx_of s t p)) = None")
  case True
  have "init_step E t p s = Inr s"
    using True sl tables_facts(1) [OF ok sl] by (auto simp: init_step_def get_idx Let_def scav_get_def)
  moreover have "init_done t (Suc p) s"
    using True prev by (auto simp: init_done_def less_Suc_eq)
  ultimately show ?thesis by (simp add: same_but_inited_refl)
next
  case False
  let ?i = "idx_of s t p"
  obtain f where f: "init (scav s ?i) = Some f" "?i \<noteq> - 1" "\<not> inited (scav s ?i)" using False by auto
  have rng: "scav_in_range ?i" using tables_facts(1) [OF ok sl f(2)] .
  have len: "t < length (PRIM_TABLE s)" "nat ?i < length (SCAV_TABLE s)"
    using sl tables_okD(3,4) [OF ok] rng by (auto simp: scav_in_range_def nat_less_iff)
  have ylen: "p < length (ycs (prim s t))"
    using tables_okD(5) [OF ok, of t] sl by (simp add: prim_shape_def)
  note rr = run_and_restore_sel [OF E ylen, of f]
  define s' where "s' = scav_upd ?i (\<lambda>x. x\<lparr>inited := True\<rparr>) (prim_upd t (run_and_restore E f p) s)"
  have "init_step E t p s = Inr s'"
    using f sl rng len
    by (simp add: init_step_def get_idx Let_def scav_get_def tl_yield_ctx_at_def s'_def yc_upd_def
        prim_upd_def scav_upd_def run_and_restore_def)
  moreover have prim': "prim s' u = (if u = t then run_and_restore E f p (prim s t) else prim s u)" for u
    using len by (simp add: s'_def prim_nth_upd)
  have tab: "SCAV_TABLE s' = (SCAV_TABLE s)[nat ?i := (scav s ?i)\<lparr>inited := True\<rparr>]"
    using rng by (simp add: s'_def scav_upd_def)
  have "map (\<lambda>x. x\<lparr>inited := False\<rparr>) (SCAV_TABLE s') = map (\<lambda>x. x\<lparr>inited := False\<rparr>) (SCAV_TABLE s)"
    using len(2) by (simp add: tab map_update list_update_same_conv)
  then have "same_but_inited t s s'"
    using rr rng by (simp add: same_but_inited_def prim' unhosted_def) (simp add: s'_def stray_scav_upd)
  moreover have "init_done t (Suc p) s'"
  proof -
    have row: "inited (scav s' j) \<or> init (scav s' j) = None"
      if "0 \<le> j" "j = ?i \<or> inited (scav s j) \<or> init (scav s j) = None" for j
      using that len(2) by (auto simp: tab nth_list_update)
    have "inited (scav s' (idx_of s t q)) \<or> init (scav s' (idx_of s t q)) = None"
      if "0 < q" "q < Suc p" "q < NSLOT" "idx_of s t q \<noteq> - 1" for q
    proof (rule row)
      show "0 \<le> idx_of s t q"
        using tables_facts(1) [OF ok, of t q] that sl by (auto simp: scav_in_range_def)
    qed (use that prev in \<open>auto simp: init_done_def less_Suc_eq\<close>)
    then show ?thesis by (simp add: init_done_def prim' rr(2))
  qed
  ultimately show ?thesis by simp
qed

lemma call_init_effect:
  assumes E: "init_local E" and ok: "tables_ok E s" and t: "t < MAX_THREAD_NUM"
  shows "ends (call_init_for_new_scav E t s) never (\<lambda>s'. same_but_inited t s s' \<and> init_done t NSLOT s')"
  unfolding call_init_for_new_scav_def
proof (rule foldR_upt_rule)
  fix k s1 assume k: "1 \<le> k" "k < NSLOT" and I: "same_but_inited t s s1 \<and> init_done t k s1"
  then have ok1: "tables_ok E s1" using same_but_inited_view(1) [OF _ ok t] by blast
  have "slot t k" using k t by simp
  from init_step_effect [OF E ok1 this] I
  show "ends (init_step E t k s1) never (\<lambda>s'. same_but_inited t s s' \<and> init_done t (Suc k) s')"
    by (auto elim: ends_mono dest: same_but_inited_trans)
qed (auto simp: same_but_inited_refl init_done_def Suc_le_eq NSLOT_pos)

section \<open>\<open>allocate_scav\<close>\<close>

lemma need_more_scav_eq:
  assumes "length (idx_list (prim s ctx)) = NSLOT"
  shows "need_more_scav s ctx =
    (if int (length (items (idx_list (prim s ctx)))) < max_scav_per_thread s
     then max_scav_per_thread s - int (length (items (idx_list (prim s ctx)))) else 0)"
proof -
  let ?l = "idx_list (prim s ctx)"
  have "tl ?l = map (\<lambda>i. ?l ! i) [1..<NSLOT]"
    by (rule nth_equalityI) (simp_all add: assms nth_tl)
  then have "length (items ?l) = length (filter (\<lambda>i. ?l ! i \<noteq> - 1) [1..<NSLOT])"
    by (simp add: items_def filter_map comp_def)
  then show ?thesis by (simp add: need_more_scav_def Let_def)
qed

definition hosts :: "msh_state \<Rightarrow> nat \<Rightarrow> int list" where
  "hosts s t = items (idx_list (prim s t))"

definition satisfied :: "env \<Rightarrow> nat \<Rightarrow> msh_state \<Rightarrow> bool" where
  "satisfied E ctx s \<longleftrightarrow> max_scav_per_thread s \<le> int (length (hosts s ctx)) \<or>
     length (hosts s ctx) = MAX_CRT_PER_THREAD \<or> exhausted E {..<MAX_ACTIVE_CRT_NUM_PER_APPLICATION} s"

definition alloc_post :: "env \<Rightarrow> nat \<Rightarrow> msh_state \<Rightarrow> int \<times> msh_state \<Rightarrow> bool" where
  "alloc_post E ctx s = (\<lambda>(cnt, s'). msh_inv E s' \<and> ready E ctx s' \<and> satisfied E ctx s' \<and>
     (\<exists>zs. hosts s' ctx = hosts s ctx @ zs \<and> cnt = int (length zs)) \<and>
     (\<forall>u. reallocatable (prim s' u) = reallocatable (prim s u)) \<and>
     (\<forall>u. u \<noteq> ctx \<longrightarrow> \<not> reallocatable (prim s u) \<longrightarrow> prim s' u = prim s u) \<and>
     reallocated (prim s' ctx) = reallocated (prim s ctx) \<and>
     scav_num (prim s' ctx) = scav_num (prim s ctx) \<and>
     (next_of s ctx 0 \<noteq> - 1 \<longrightarrow> next_of s' ctx 0 \<noteq> - 1) \<and>
     (\<forall>u. u \<noteq> ctx \<longrightarrow> next_of s' u 0 = next_of s u 0) \<and>
     gone (abs E s') = gone (abs E s) \<and> linked (abs E s') = linked (abs E s) \<and>
     dom (host (abs E s)) \<subseteq> dom (host (abs E s')) \<and> unhosted s s')"

lemma abs_same_table:
  "SCAV_TABLE s' = SCAV_TABLE s \<Longrightarrow> gone (abs E s') = gone (abs E s)"
  "SCAV_TABLE s' = SCAV_TABLE s \<Longrightarrow> linked (abs E s') = linked (abs E s)"
  "SCAV_TABLE s' = SCAV_TABLE s \<Longrightarrow> host (abs E s') = host (abs E s)"
  by (auto simp: abs_def fun_eq_iff)

lemma exhausted_cong:
  "gone (abs E s') = gone (abs E s) \<Longrightarrow> linked (abs E s') = linked (abs E s) \<Longrightarrow>
   host (abs E s') = host (abs E s) \<Longrightarrow> exhausted E A s' = exhausted E A s"
  by (simp add: exhausted_def)

lemma ready_lock [simp]: "ready E ctx (s\<lparr>scav_table_lock := l\<rparr>) = ready E ctx s"
  by (simp add: ready_def)

text \<open>The stages after the critical section keep what it achieved.\<close>

lemma after_critical_section:
  assumes g: "grown E ctx n (s\<lparr>scav_table_lock := BUSY\<rparr>) s1"
    and si: "same_but_inited ctx (unlock_scav_table s1) s3" and free: "scav_table_lock s = 0"
  shows "msh_inv E s3" "abs E s3 = abs E s1" "hosts s3 ctx = hosts s1 ctx"
    "ready E ctx s3" "unhosted s s3"
proof -
  let ?s2 = "unlock_scav_table s1"
  note r1 = grownD(1) [OF g]
  have un: "?s2 = s1\<lparr>scav_table_lock := 0\<rparr>" by (simp add: unlock_scav_table_def spin_unlock_def)
  have ok2: "tables_ok E ?s2" using readyD(1) [OF r1] by (simp add: un)
  note v = same_but_inited_view [OF si ok2 readyD(2) [OF r1]]
  show "abs E s3 = abs E s1" using v(2) by (simp add: un)
  have lk: "unhosted ?s2 s3" using si by (simp add: same_but_inited_def)
  then show "msh_inv E s3" using v(1) by (simp add: msh_inv_tables unhosted_def un)
  have ix: "idx_list (prim s3 u) = idx_list (prim s1 u)" "reallocatable (prim s3 u) = reallocatable (prim s1 u)" for u
    using si by (cases "u = ctx"; simp add: same_but_inited_def un)+
  then show "hosts s3 ctx = hosts s1 ctx" by (simp add: hosts_def)
  show "ready E ctx s3" using r1 v(1) by (simp add: ready_def ix)
  show "unhosted s s3" using lk grownD(4) [OF g] free by (simp add: unhosted_def un)
qed

lemma alloc_postI:
  assumes r: "ready E ctx s" and free: "scav_table_lock s = 0"
    and d: "demands = max_scav_per_thread s - int (length (hosts s ctx))"
    and n: "cnt = int n" and g: "grown E ctx n (s\<lparr>scav_table_lock := BUSY\<rparr>) s1"
    and sat: "demands \<le> cnt \<or> length (hosted (prim s1 ctx)) = MAX_CRT_PER_THREAD \<or>
      exhausted E {..<MAX_ACTIVE_CRT_NUM_PER_APPLICATION} s1"
    and si: "same_but_inited ctx (unlock_scav_table s1) s3"
  shows "alloc_post E ctx s (cnt, set_special_next ctx s3)"
proof -
  note c = readyD(2) [OF r]
  note a = after_critical_section [OF g si free]
  note sp = set_special_next_frame [OF a(1) c]
  let ?s4 = "set_special_next ctx s3"
  note ab = abs_same_table [OF sp(5), of E]
  have ok1: "tables_ok E s1" using readyD(1) [OF grownD(1) [OF g]] .
  have h1: "hosts s1 ctx = map fst (hosted (prim s1 ctx))" "hosts s ctx = map fst (hosted (prim s ctx))"
    using items_hosted [OF tables_okD(5) tables_primary_slot] ok1 readyD(1) [OF r] c
    unfolding hosts_def by blast+
  obtain zs where zs: "length zs = n" "hosted (prim s1 ctx) = hosted (prim s ctx) @ zs"
    using g by (auto simp: grown_def)
  have h4: "hosts ?s4 ctx = hosts s1 ctx" using a(3) sp(6) by (simp add: hosts_def)
  have grow: "\<exists>zs. hosts ?s4 ctx = hosts s ctx @ zs \<and> cnt = int (length zs)"
    using h1 zs n h4 by auto
  have un: "unhosted s ?s4" using a(5) sp(2,3) msh_invD(2) [OF sp(1)] free
    by (simp add: unhosted_def frame_def)
  have "length (hosts ?s4 ctx) = length (hosts s ctx) + n"
      "length (hosted (prim s1 ctx)) = length (hosts ?s4 ctx)"
      "max_scav_per_thread ?s4 = max_scav_per_thread s"
    using h1 h4 zs un by (simp_all add: unhosted_def)
  then have "satisfied E ctx ?s4"
    using sat d n exhausted_cong [of E ?s4 s1] ab a(2) by (auto simp: satisfied_def)
  moreover have "ready E ctx ?s4"
    using a(4) sp(1,2,6) msh_inv_tables_ok [OF sp(1)]
    by (auto simp: ready_def frame_def) (metis relink_sel(1))+
  moreover have "next_of s ctx 0 \<noteq> - 1 \<longrightarrow> next_of ?s4 ctx 0 \<noteq> - 1"
    using g si sp(6) normal_next_relink [of "prim s3 ctx" 0] msh_invD(6) [OF a(1) c] NSLOT_pos
    by (auto simp: grown_def same_but_inited_def unlock_scav_table_def prim_shape_def)
  moreover have "gone (abs E ?s4) = gone (abs E s)" "linked (abs E ?s4) = linked (abs E s)"
      "dom (host (abs E s)) \<subseteq> dom (host (abs E ?s4))"
    using ab a(2) grownD(5-7) [OF g] by auto
  moreover have "reallocatable (prim ?s4 u) = reallocatable (prim s u)" for u
    using sp(2) si grownD(3) [OF g, of u]
    by (cases "u = ctx") (auto simp: frame_def same_but_inited_def unlock_scav_table_def)
  moreover have "prim ?s4 u = prim s u" if "u \<noteq> ctx" "\<not> reallocatable (prim s u)" for u
    using that sp(2) si g by (simp add: frame_def same_but_inited_def unlock_scav_table_def grown_def)
  moreover have "reallocated (prim ?s4 ctx) = reallocated (prim s ctx)"
      "scav_num (prim ?s4 ctx) = scav_num (prim s ctx)"
    using sp(2) si g by (simp_all add: frame_def same_but_inited_def unlock_scav_table_def grown_def)
  moreover have "next_of ?s4 u 0 = next_of s u 0" if "u \<noteq> ctx" for u
    using that sp(2) si g by (simp add: frame_def same_but_inited_def unlock_scav_table_def grown_def)
  ultimately show ?thesis using sp(1) grow un by (simp add: alloc_post_def)
qed

lemma allocate_scav_ends:
  assumes inv: "msh_inv E s" and r: "ready E ctx s" and il: "init_local E"
  shows "ends (allocate_scav E ctx ctx s) may_exit (alloc_post E ctx s)"
proof (cases "need_more_scav s ctx = 0")
  case True
  have "length (idx_list (prim s ctx)) = NSLOT" using readyD(3) [OF r] by (simp add: slot_inv_def)
  from need_more_scav_eq [OF this] True have "satisfied E ctx s"
    by (auto simp: satisfied_def hosts_def split: if_splits)
  then show ?thesis
    using True inv r by (auto simp: allocate_scav_def alloc_post_def unhosted_def)
next
  case False
  let ?d = "need_more_scav s ctx" and ?sL = "s\<lparr>scav_table_lock := BUSY\<rparr>"
  note c = readyD(2) [OF r] and free = msh_invD(2) [OF inv]
  have d: "?d = max_scav_per_thread s - int (length (hosts s ctx))"
    using need_more_scav_eq [of s ctx] False readyD(3) [OF r]
    by (auto simp: hosts_def slot_inv_def split: if_splits)
  have crit: "ends (allocate_scav_locked E ctx ctx ?d ?sL) may_exit (\<lambda>(cnt, s').
      (\<exists>n. cnt = int n \<and> grown E ctx n ?sL s') \<and>
      (?d \<le> cnt \<or> length (hosted (prim s' ctx)) = MAX_CRT_PER_THREAD \<or>
       exhausted E {..<MAX_ACTIVE_CRT_NUM_PER_APPLICATION} s'))"
    by (rule allocate_scav_locked_serves) (simp add: r)
  have go: "ends (bindR (call_init_for_new_scav E ctx (unlock_scav_table s1))
      (\<lambda>s. Inr (cnt, set_special_next ctx s))) may_exit (alloc_post E ctx s)"
    if "cnt = int n" "grown E ctx n ?sL s1" "?d \<le> cnt \<or> length (hosted (prim s1 ctx)) = MAX_CRT_PER_THREAD \<or>
        exhausted E {..<MAX_ACTIVE_CRT_NUM_PER_APPLICATION} s1" for cnt n s1
  proof (rule ends_bindI)
    have "tables_ok E (unlock_scav_table s1)"
      using readyD(1) [OF grownD(1) [OF that(2)]] by (simp add: unlock_scav_table_def)
    from ends_mono [OF call_init_effect [OF il this c]]
    show "ends (call_init_for_new_scav E ctx (unlock_scav_table s1)) may_exit
        (\<lambda>s'. same_but_inited ctx (unlock_scav_table s1) s')" by auto
  qed (use alloc_postI [OF r free d that] in simp)
  have "allocate_scav E ctx ctx s = bindR (allocate_scav_locked E ctx ctx ?d ?sL) (\<lambda>(ret, s).
      bindR (call_init_for_new_scav E ctx (unlock_scav_table s)) (\<lambda>s. Inr (ret, set_special_next ctx s)))"
    using False free by (simp add: allocate_scav_def lock_scav_table_free)
  also have "ends \<dots> may_exit (alloc_post E ctx s)"
  proof (rule ends_bindI [OF crit], clarsimp)
    fix n s1 assume "grown E ctx n ?sL s1" and "?d \<le> int n \<or>
      length (hosted (prim s1 ctx)) = MAX_CRT_PER_THREAD \<or> exhausted E {..<MAX_ACTIVE_CRT_NUM_PER_APPLICATION} s1"
    then show "ends (bindR (call_init_for_new_scav E ctx (unlock_scav_table s1))
        (\<lambda>s. Inr (int n, set_special_next ctx s))) may_exit (alloc_post E ctx s)"
      by (rule go [OF refl])
  qed
  finally show ?thesis .
qed

text \<open>
  C2. \<open>allocate_scav\<close>, called by a thread with packed slots while every thread that offers its
  scavengers is packed, either exits because a symbol is missing or returns with the tables in
  agreement and the lock free. The thread then hosts what it hosted before, in the same slots,
  with as many new scavengers on top as the returned count says; no scavenger that was hosted
  loses its host; threads that do not offer their scavengers are untouched. It falls short of
  \<open>max_scav_per_thread\<close> only if all its slots are taken or every scavenger of the pool is hosted
  or finished.
\<close>

theorem allocate_scav_serves_thread:
  assumes "msh_inv E s" and "t < MAX_THREAD_NUM" and "packed (idx_list (prim s t))"
    and "\<not> reallocatable (prim s t)"
    and "\<And>u. u < MAX_THREAD_NUM \<Longrightarrow> reallocatable (prim s u) \<Longrightarrow> packed (idx_list (prim s u))"
    and "init_local E"
  shows "ends (allocate_scav E t t s) may_exit (\<lambda>(cnt, s'). msh_inv E s' \<and>
    packed (idx_list (prim s' t)) \<and>
    (\<exists>zs. hosts s' t = hosts s t @ zs \<and> cnt = int (length zs)) \<and>
    (max_scav_per_thread s' \<le> int (length (hosts s' t)) \<or> length (hosts s' t) = MAX_CRT_PER_THREAD \<or>
     exhausted E {..<MAX_ACTIVE_CRT_NUM_PER_APPLICATION} s') \<and>
    dom (host (abs E s)) \<subseteq> dom (host (abs E s')) \<and> gone (abs E s') = gone (abs E s) \<and>
    (\<forall>u. u \<noteq> t \<longrightarrow> \<not> reallocatable (prim s u) \<longrightarrow> prim s' u = prim s u))"
proof -
  have "ready E t s" using assms(1-5) by (simp add: ready_def msh_inv_tables)
  from allocate_scav_ends [OF assms(1) this assms(6)] show ?thesis
    by (rule ends_mono) (auto simp: alloc_post_def ready_def satisfied_def)
qed

theorem allocate_scav_serves_thread_witness:
  "msh_inv rich_env (placed 2 two_hosts) \<and> hosts (placed 2 two_hosts) 0 = [7] \<and>
   ends (allocate_scav rich_env 0 0 (placed 2 two_hosts)) may_exit (\<lambda>(cnt, s').
     msh_inv rich_env s' \<and> hd (hosts s' 0) = 7 \<and> hosts s' 2 = [8, 9])"
proof -
  let ?s = "placed 2 two_hosts"
  note pl = sample_placeable(1)
  have t: "0 < MAX_THREAD_NUM" "2 < MAX_THREAD_NUM" by (simp_all add: capacities)
  have h: "hosts ?s 0 = [7]" "hosts ?s 2 = [8, 9]"
    using placed_row [OF pl t(1)] placed_row [OF pl t(2)] by (simp_all add: hosts_def sample_rows)
  have pk: "packed (idx_list (prim ?s 0))" using placed_row [OF pl t(1)] by (simp add: sample_rows)
  note a = allocate_scav_serves_thread [OF placed_inv [OF pl] t(1) pk placed_facts(5) [OF pl t(1)] _
      init_local_rich]
  have "ends (allocate_scav rich_env 0 0 ?s) may_exit (\<lambda>(cnt, s').
     msh_inv rich_env s' \<and> hd (hosts s' 0) = 7 \<and> hosts s' 2 = [8, 9])"
    by (rule ends_mono [OF a]) (use placed_facts(5) [OF pl] h t in \<open>auto simp: hosts_def\<close>)
  then show ?thesis using placed_inv [OF pl, of 2] h by simp
qed

end
