(* ===== verification/Scheduler.thy ===== *)
theory Scheduler
  imports Allocation
begin

text \<open>
  The scheduler of \<open>libmsh/msh.c\<close>: \<open>ret_to_scheduler\<close>, where a finished coroutine returns to,
  \<open>tl_sched_next_crt\<close>, which retires it and chooses where to continue, and \<open>msh_cleanup\<close>, which
  runs the remaining scavengers of a thread to completion. A jump to a coroutine and a
  \<open>longjmp\<close> are outcomes of the model.
\<close>

section \<open>Operations\<close>

text \<open>
  The assembly of \<open>ret_to_scheduler\<close> in front of the call of the scheduler: subtract 8 from \<open>%rsp\<close>
  unless its last four bits are zero.
\<close>

definition adjust_rsp :: "64 word \<Rightarrow> 64 word" where
  "adjust_rsp stk = (if and stk 15 = 0 then stk else stk - 8)"

text \<open>
  \<open>Resume pos sp ip\<close>: \<open>cur_crt_pos\<close> is \<open>pos\<close> and the thread jumps to \<open>ip\<close> with stack pointer \<open>sp\<close>.
  \<open>LongJump\<close>: control returns to the \<open>setjmp\<close> of \<open>msh_cleanup\<close>.
\<close>

datatype outcome = Resume nat "64 word" "64 word" | LongJump

text \<open>\<open>ret_crt_pos / sizeof(struct yield_ctx)\<close>: an unsigned division, stored in an \<open>int\<close>.\<close>

definition ret_position :: "int \<Rightarrow> int" where
  "ret_position ret_crt_pos = to_int (to_size_t ret_crt_pos div int sizeof_yield_ctx)"

definition resume_at :: "msh_state \<Rightarrow> nat \<Rightarrow> int \<Rightarrow> (outcome \<times> msh_state) res" where
  "resume_at s t pos =
     (if pos < 0 \<or> int NSLOT \<le> pos then Inl OutOfBounds
      else let y = tl_yield_ctx_at s t (nat pos) in Inr (Resume (nat pos) (sp y) (ip y), s))"

definition tl_sched_next_crt :: "env \<Rightarrow> nat \<Rightarrow> int \<Rightarrow> msh_state \<Rightarrow> (outcome \<times> msh_state) res" where
  "tl_sched_next_crt E t ret_crt_pos s =
     (let pos = ret_position ret_crt_pos in
      if pos < 0 \<or> int NSLOT \<le> pos then Inl OutOfBounds
      else
        let ret = nat pos;
            s = (if ret \<noteq> 0 then s\<lparr>finished_scav_cnt := to_int (finished_scav_cnt s + 1)\<rparr> else s);
            nxt = pos_of_offset (normal_next (tl_yield_ctx_at s t ret))
        in bindR (tl_finish_crt t ret s) (\<lambda>s.
           bindR (tl_pack_crts E t (tl_update_next_map t s)) (\<lambda>s.
           bindR (if normal_next (tl_yield_ctx_at s t 0) \<noteq> - 1
                  then bindR (allocate_scav E t t s) (\<lambda>(_, s). Inr (tl_update_next_map t s))
                  else Inr s) (\<lambda>s.
           if normal_next (tl_yield_ctx_at s t 0) = - 1
           then let cur = tl_find_unfinished_crt s t
                in if cur = 0 then if cleanup_jmpbuf s t then Inr (LongJump, s) else Inl Indeterminate
                   else resume_at s t (int cur)
           else resume_at s t nxt))))"

text \<open>
  The result is the stack pointer at the call of the scheduler and what the scheduler does; the
  call does not come back.
\<close>

definition ret_to_scheduler ::
  "env \<Rightarrow> nat \<Rightarrow> 64 word \<Rightarrow> int \<Rightarrow> msh_state \<Rightarrow> 64 word \<times> (outcome \<times> msh_state) res" where
  "ret_to_scheduler E t stk eax s = (adjust_rsp stk, tl_sched_next_crt E t eax s)"

subsection \<open>Cleanup\<close>

definition self_link :: "nat \<Rightarrow> nat \<Rightarrow> msh_state \<Rightarrow> msh_state" where
  "self_link t pos s =
     (if normal_next (tl_yield_ctx_at s t pos) \<noteq> - 1
      then yc_upd t pos (\<lambda>y. y\<lparr>normal_next := offset_of_pos pos, special_next := offset_of_pos pos\<rparr>) s
      else s)"

datatype cleanup = Returned int | Scheduled outcome

text \<open>The part of \<open>msh_cleanup\<close> behind \<open>setjmp\<close>, which a \<open>longjmp\<close> runs again.\<close>

definition cleanup_after_setjmp :: "env \<Rightarrow> nat \<Rightarrow> msh_state \<Rightarrow> (cleanup \<times> msh_state) res" where
  "cleanup_after_setjmp E t s =
     (if tl_find_unfinished_crt s t = 0
      then Inr (Returned 0, yc_upd t 0 (\<lambda>y. y\<lparr>normal_next := 0\<rparr>) s)
      else bindR (tl_sched_next_crt E t 0 s) (\<lambda>(out, s). Inr (Scheduled out, s)))"

definition msh_cleanup :: "env \<Rightarrow> nat \<Rightarrow> msh_state \<Rightarrow> (cleanup \<times> msh_state) res" where
  "msh_cleanup E t s =
     (if getenv E ''SKIP_CLEANUP'' \<noteq> None then Inr (Returned 0, s)
      else let s = fold (self_link t) [1..<NSLOT] s;
               s = s\<lparr>cleanup_jmpbuf := (cleanup_jmpbuf s)(t := True)\<rparr>
           in cleanup_after_setjmp E t s)"

text \<open>
  Cleanup with the scavengers it starts. A resumed scavenger runs to completion, because its
  links point to itself: at its yield points it saves pointers and registers in its own position
  and resumes there. What it leaves in that position is up to its code (\<open>run_scav\<close>). It returns
  the value of its \<open>crt_pos\<close> variable in \<open>%eax\<close> (\<open>apps/src/scavengers/compute.cpp\<close>, \<open>README.md\<close>).
\<close>

definition scav_writes :: "env \<Rightarrow> handle \<Rightarrow> nat \<Rightarrow> nat \<Rightarrow> msh_state \<Rightarrow> msh_state" where
  "scav_writes E h t p = prim_upd t (\<lambda>c. case run_scav E h p c of (sp', ip', r, lc) \<Rightarrow>
     c\<lparr>ycs := (ycs c)[p := (ycs c ! p)\<lparr>sp := sp', ip := ip'\<rparr>],
       loop_counter := (loop_counter c)[p := lc], regs := (regs c)[p := r]\<rparr>)"

fun cleanup_run :: "env \<Rightarrow> nat \<Rightarrow> nat \<Rightarrow> outcome \<times> msh_state \<Rightarrow> (int \<times> msh_state) res" where
  "cleanup_run E t 0 (out, s) = Inl Spinning"
| "cleanup_run E t (Suc n) (LongJump, s) =
     bindR (cleanup_after_setjmp E t s) (\<lambda>(r, s).
       case r of Returned v \<Rightarrow> Inr (v, s) | Scheduled out \<Rightarrow> cleanup_run E t n (out, s))"
| "cleanup_run E t (Suc n) (Resume p sp0 ip0, s) =
     bindR (scav_get s (tl_get_crt_idx_at s t p)) (\<lambda>x.
       case lib_handle x of
         None \<Rightarrow> Inl NullPointer
       | Some h \<Rightarrow> let s = scav_writes E h t p s
                   in bindR (tl_sched_next_crt E t (sym_crt_pos (libs s h)) s) (cleanup_run E t n))"

definition cleanup_thread :: "env \<Rightarrow> nat \<Rightarrow> nat \<Rightarrow> msh_state \<Rightarrow> (int \<times> msh_state) res" where
  "cleanup_thread E t n s =
     bindR (msh_cleanup E t s) (\<lambda>(r, s).
       case r of Returned v \<Rightarrow> Inr (v, s) | Scheduled out \<Rightarrow> cleanup_run E t n (out, s))"

section \<open>The stack of the scheduler\<close>

lemma and_low_bits:
  fixes w :: "64 word"
  shows "and w 7 = 0 \<longleftrightarrow> unat w mod 8 = 0" "and w 15 = 0 \<longleftrightarrow> unat w mod 16 = 0"
proof -
  have "and w 7 = take_bit 3 w" "and w 15 = take_bit 4 w"
    by (simp_all add: take_bit_eq_mask mask_eq_exp_minus_1)
  moreover have "take_bit n w = 0 \<longleftrightarrow> unat w mod 2 ^ n = 0" for n
    by (metis take_bit_eq_mod unat_eq_0 unsigned_take_bit_eq)
  ultimately show "and w 7 = 0 \<longleftrightarrow> unat w mod 8 = 0" "and w 15 = 0 \<longleftrightarrow> unat w mod 16 = 0"
    by simp_all
qed

text \<open>
  C27. The scheduler is called with a stack aligned to 16 bytes: whenever \<open>%rsp\<close> is a multiple
  of 8, as every push and pop keeps it, the adjustment of \<open>ret_to_scheduler\<close> makes it a multiple
  of 16 and moves it by at most 8 bytes downwards.
\<close>

theorem scheduler_stack_is_aligned:
  assumes "and stk 7 = 0"
  shows "and (fst (ret_to_scheduler E t stk eax s)) 15 = 0 \<and>
    fst (ret_to_scheduler E t stk eax s) \<in> {stk, stk - 8}"
proof (cases "and stk 15 = 0")
  case True
  then show ?thesis by (simp add: ret_to_scheduler_def adjust_rsp_def)
next
  case False
  have m: "unat stk mod 8 = 0" "unat stk mod 16 \<noteq> 0"
    using assms False by (simp_all add: and_low_bits)
  then have "8 \<le> unat stk" by (metis mod_less not_le mod_0 le0 less_numeral_extra(3))
  then have "unat (stk - 8) = unat stk - 8" by (simp add: unat_sub word_le_nat_alt)
  moreover have "(unat stk - 8) mod 16 = 0" using m \<open>8 \<le> unat stk\<close> by presburger
  ultimately have "and (stk - 8) 15 = 0" by (simp add: and_low_bits)
  then show ?thesis using False by (simp add: ret_to_scheduler_def adjust_rsp_def)
qed

theorem scheduler_stack_is_aligned_witness:
  "and (4072 :: 64 word) 7 = 0 \<and>
   and (fst (ret_to_scheduler rich_env 0 4072 0 (idle_state 1))) 15 = 0"
proof -
  have "and (4072 :: 64 word) 7 = 0" by simp
  then show ?thesis using scheduler_stack_is_aligned [of 4072] by simp
qed

section \<open>Retiring a scavenger while the primary runs\<close>

lemma ret_position_offset: "p < NSLOT \<Longrightarrow> ret_position (offset_of_pos p) = int p"
  by (simp add: ret_position_def offset_of_pos_eq to_size_t_id to_int_id capacities)

lemma cnt_abs [simp]: "abs E (s\<lparr>finished_scav_cnt := n\<rparr>) = abs E s"
  by (simp add: abs_def fun_eq_iff)

lemma cnt_inv [simp]: "msh_inv E (s\<lparr>finished_scav_cnt := n\<rparr>) = msh_inv E s"
  by (simp add: msh_inv_def shape_def)

lemma jmpbuf_abs [simp]: "abs E (s\<lparr>cleanup_jmpbuf := f\<rparr>) = abs E s"
  by (simp add: abs_def fun_eq_iff)

lemma jmpbuf_inv [simp]: "msh_inv E (s\<lparr>cleanup_jmpbuf := f\<rparr>) = msh_inv E s"
  by (simp add: msh_inv_def shape_def)

lemma filter_cleared:
  assumes "\<And>q. q < length l \<Longrightarrow> q \<noteq> p \<Longrightarrow> l ! q \<noteq> i" and "l ! p = i" and "i \<noteq> (- 1 :: int)"
  shows "filter (\<lambda>x. x \<noteq> - 1) (l[p := - 1]) = filter (\<lambda>x. x \<noteq> i) (filter (\<lambda>x. x \<noteq> - 1) l)"
proof -
  have "l[p := - 1] = map (\<lambda>x. if x = i then - 1 else x) l"
  proof (rule nth_equalityI)
    fix q assume "q < length (l[p := - 1])"
    then show "l[p := - 1] ! q = map (\<lambda>x. if x = i then - 1 else x) l ! q"
      using assms by (cases "q = p") auto
  qed simp
  moreover have "filter (\<lambda>x. x \<noteq> - 1) (map (\<lambda>x. if x = i then - 1 else x) xs) =
      filter (\<lambda>x. x \<noteq> i) (filter (\<lambda>x. x \<noteq> - 1) xs)" for xs
    using assms(3) by (induction xs) auto
  ultimately show ?thesis by simp
qed

text \<open>Clearing the slot of a scavenger removes exactly that scavenger from the thread.\<close>

lemma items_cleared:
  assumes ok: "tables_ok E s" and sl: "slot t p" and occ: "idx_of s t p \<noteq> - 1"
  shows "items ((idx_list (prim s t))[p := - 1]) = filter (\<lambda>x. x \<noteq> idx_of s t p) (hosts s t)"
proof -
  let ?l = "idx_list (prim s t)" and ?i = "idx_of s t p"
  obtain q where q: "p = Suc q" using sl by (cases p) auto
  have len: "length ?l = NSLOT" using tables_okD(5) [OF ok, of t] sl by (simp add: prim_shape_def)
  have uniq: "tl ?l ! r \<noteq> ?i" if "r < length (tl ?l)" "r \<noteq> q" for r
  proof
    assume eq: "tl ?l ! r = ?i"
    have r: "slot t (Suc r)" using that(1) len sl by auto
    have "slot_idx (abs E s) t (Suc r) = slot_idx (abs E s) t p"
      using eq that(1) r sl by (simp add: nth_tl abs_sel)
    then have "Suc r = p"
      using coherent_unique [OF tables_okD(2) [OF ok] r sl] occ sl eq that(1) r by (simp add: abs_sel nth_tl)
    with q that(2) show False by simp
  qed
  have "tl ?l ! q = ?i" using len sl q by (cases ?l) auto
  then show ?thesis
    using filter_cleared [OF uniq _ occ] by (cases ?l) (auto simp: items_def hosts_def q)
qed

lemma tl_update_next_map_next:
  assumes inv: "msh_inv E s" and t: "t < MAX_THREAD_NUM"
  shows "next_of (tl_update_next_map t s) t 0 =
    (if next_of s t 0 = - 1 then - 1 else offset_of_pos (tl_find_unfinished_crt s t))"
proof -
  have "0 < length (ycs (prim s t))" "t < length (PRIM_TABLE s)"
    using msh_invD(4,6) [OF inv] t NSLOT_pos by (auto simp: prim_shape_def)
  then show ?thesis
    using tl_next_available_eq_unfinished [OF inv t] by (simp add: tl_update_next_map_def prim_nth_yc_upd)
qed

lemma tl_update_next_map_same:
  "prim_shape (prim s t) \<Longrightarrow> t < length (PRIM_TABLE s) \<Longrightarrow> hosts (tl_update_next_map t s) t = hosts s t"
  "SCAV_TABLE (tl_update_next_map t s) = SCAV_TABLE s"
  by (simp_all add: hosts_def prim_nth_update_next_map)

lemma find_unfinished_packed:
  assumes inv: "msh_inv E s" and t: "t < MAX_THREAD_NUM" and pk: "packed (idx_list (prim s t))"
  shows "tl_find_unfinished_crt s t = (if hosts s t = [] then 0 else 1)"
proof -
  let ?f = "tl_find_unfinished_crt s t"
  note f = tl_find_unfinished_crt_spec [OF inv t]
  have len: "length (idx_list (prim s t)) = NSLOT" using msh_invD(6) [OF inv t] by (simp add: prim_shape_def)
  have occ: "idx_of s t p \<noteq> - 1 \<longleftrightarrow> p \<le> length (hosts s t)" if "0 < p" "p < NSLOT" for p
    using packed_occupied [OF pk that(1)] that len by (simp add: hosts_def)
  have one: "1 < NSLOT" by (simp add: capacities)
  show ?thesis
  proof (cases "hosts s t = []")
    case True
    then show ?thesis using f occ [of ?f] by (auto split: if_splits)
  next
    case False
    then have "idx_of s t 1 \<noteq> - 1" using occ [OF _ one] by (simp add: Suc_le_eq)
    then have "?f \<noteq> 0" "\<not> 1 < ?f" using f one by (auto split: if_splits)
    then show ?thesis using False by simp
  qed
qed

lemma hosts_hosted: "msh_inv E s \<Longrightarrow> t < MAX_THREAD_NUM \<Longrightarrow> hosts s t = map fst (hosted (prim s t))"
  unfolding hosts_def using items_hosted msh_invD(6) primary_slot by blast

text \<open>Finishing, updating the primary's link and packing.\<close>

lemma retire_and_pack:
  assumes inv: "msh_inv E s" and sl: "slot t p" and occ: "idx_of s t p \<noteq> - 1"
    and live: "next_of s t 0 \<noteq> - 1"
  shows "ends (bindR (tl_finish_crt t p s) (\<lambda>s. tl_pack_crts E t (tl_update_next_map t s))) never
    (\<lambda>s'. msh_inv E s' \<and> packed (idx_list (prim s' t)) \<and> next_of s' t 0 \<noteq> - 1 \<and> frame t s s' \<and>
       hosts s' t = filter (\<lambda>x. x \<noteq> idx_of s t p) (hosts s t) \<and>
       gone (abs E s') = (gone (abs E s))(idx_of s t p := True))"
proof (rule ends_bindI [OF tl_finish_crt_refines_release [OF inv sl occ]], elim conjE)
  let ?i = "idx_of s t p"
  fix s1 assume s1: "msh_inv E s1" "abs E s1 = release t p (abs E s)" "frame t s s1"
    "prim s1 t = (prim s t)\<lparr>ycs := (ycs (prim s t))[p := (ycs (prim s t) ! p)\<lparr>normal_next := - 1\<rparr>],
      idx_list := (idx_list (prim s t))[p := - 1]\<rparr>"
  have t: "t < MAX_THREAD_NUM" using sl by simp
  let ?s2 = "tl_update_next_map t s1"
  have live1: "next_of s1 t 0 \<noteq> - 1" using live sl by (simp add: s1(4))
  have inv2: "msh_inv E ?s2" and fr2: "frame t s1 ?s2" using tl_update_next_map_inv [OF s1(1) t] by auto
  have "tl_find_unfinished_crt s1 t \<le> NSLOT"
    using tl_find_unfinished_crt_spec [OF s1(1) t] by (auto split: if_splits)
  then have live2: "next_of ?s2 t 0 \<noteq> - 1"
    using tl_update_next_map_next [OF s1(1) t] live1 offset_of_pos_nonneg by simp
  have h2: "hosts ?s2 t = filter (\<lambda>x. x \<noteq> ?i) (hosts s t)"
    using tl_update_next_map_same(1) [OF msh_invD(6) [OF s1(1) t]] t msh_invD(4) [OF s1(1)]
      items_cleared [OF msh_inv_tables_ok [OF inv] sl occ] by (simp add: hosts_def s1(4))
  have g2: "gone (abs E ?s2) = (gone (abs E s))(?i := True)"
    using abs_same_table(1) [OF tl_update_next_map_same(2), of E t s1] s1(2) sl
    by (simp add: release_def Let_def abs_sel)
  show "ends (tl_pack_crts E t ?s2) never (\<lambda>s'. msh_inv E s' \<and> packed (idx_list (prim s' t)) \<and>
      next_of s' t 0 \<noteq> - 1 \<and> frame t s s' \<and> hosts s' t = filter (\<lambda>x. x \<noteq> ?i) (hosts s t) \<and>
      gone (abs E s') = (gone (abs E s))(?i := True))"
  proof (rule ends_mono [OF tl_pack_crts_ends [OF inv2 t live2]], simp, elim conjE)
    fix s3 assume J: "pack_inv E t ?s2 NSLOT s3" and pk: "packed (idx_list (prim s3 t))"
    have inv3: "msh_inv E s3" using J by (simp add: pack_inv_def)
    have "hosts s3 t = hosts ?s2 t"
      using J hosts_hosted [OF inv3 t] hosts_hosted [OF inv2 t] by (simp add: pack_inv_def)
    moreover have "frame t s s3"
      using J frame_trans [OF s1(3) frame_trans [OF fr2]] by (simp add: pack_inv_def)
    ultimately show "msh_inv E s3 \<and> packed (idx_list (prim s3 t)) \<and> next_of s3 t 0 \<noteq> - 1 \<and>
        frame t s s3 \<and> hosts s3 t = filter (\<lambda>x. x \<noteq> ?i) (hosts s t) \<and>
        gone (abs E s3) = (gone (abs E s))(?i := True)"
      using J pk inv3 h2 g2 by (simp add: pack_inv_def)
  qed
qed

text \<open>Refilling the thread afterwards and pointing the primary at its first scavenger.\<close>

lemma refill:
  assumes inv: "msh_inv E s" and r: "ready E t s" and il: "init_local E" and live: "next_of s t 0 \<noteq> - 1"
  shows "ends (bindR (allocate_scav E t t s) (\<lambda>(_, s). Inr (tl_update_next_map t s))) may_exit
    (\<lambda>s'. msh_inv E s' \<and> packed (idx_list (prim s' t)) \<and> satisfied E t s' \<and>
       next_of s' t 0 = (if hosts s' t = [] then 0 else int sizeof_yield_ctx) \<and>
       (\<exists>zs. hosts s' t = hosts s t @ zs) \<and> gone (abs E s') = gone (abs E s) \<and>
       (\<forall>u. reallocatable (prim s' u) = reallocatable (prim s u)) \<and>
       dom (host (abs E s)) \<subseteq> dom (host (abs E s')) \<and>
       finished_scav_cnt s' = finished_scav_cnt s)"
proof (rule ends_bindI [OF allocate_scav_ends [OF inv r il]])
  note t = readyD(2) [OF r]
  fix z assume z: "alloc_post E t s z"
  obtain cnt s1 where p: "alloc_post E t s (cnt, s1)" and zz: "z = (cnt, s1)" using z by (cases z) auto
  have inv1: "msh_inv E s1" and r1: "ready E t s1" using p by (auto simp: alloc_post_def)
  let ?s2 = "tl_update_next_map t s1"
  note inv2 = tl_update_next_map_inv [OF inv1 t]
  have shp: "prim_shape (prim s1 t)" "t < length (PRIM_TABLE s1)"
    using msh_invD(4,6) [OF inv1] t by auto
  have idx: "idx_list (prim ?s2 t) = idx_list (prim s1 t)"
    using shp by (simp add: prim_nth_update_next_map)
  note ab = abs_same_table [OF tl_update_next_map_same(2), of E t s1]
  have pk: "packed (idx_list (prim s1 t))" using r1 by (simp add: ready_def)
  have "offset_of_pos 1 = 20" by (simp add: offset_of_pos_eq capacities)
  then have nxt: "next_of ?s2 t 0 = (if hosts ?s2 t = [] then 0 else 20)"
    using tl_update_next_map_next [OF inv1 t] find_unfinished_packed [OF inv1 t pk] p live idx
    by (simp add: alloc_post_def hosts_def)
  have flags: "reallocatable (prim ?s2 u) = reallocatable (prim s1 u)" for u
    using inv2(2) by (cases "u = t") (auto simp: frame_def)
  have "satisfied E t ?s2"
    using p idx ab exhausted_cong [of E ?s2 s1] by (simp add: alloc_post_def satisfied_def hosts_def)
  with p idx ab nxt inv2 pk zz
  show "ends (case z of (_, s) \<Rightarrow> Inr (tl_update_next_map t s)) may_exit
    (\<lambda>s'. msh_inv E s' \<and> packed (idx_list (prim s' t)) \<and> satisfied E t s' \<and>
       next_of s' t 0 = (if hosts s' t = [] then 0 else int sizeof_yield_ctx) \<and>
       (\<exists>zs. hosts s' t = hosts s t @ zs) \<and> gone (abs E s') = gone (abs E s) \<and>
       (\<forall>u. reallocatable (prim s' u) = reallocatable (prim s u)) \<and>
       dom (host (abs E s)) \<subseteq> dom (host (abs E s')) \<and>
       finished_scav_cnt s' = finished_scav_cnt s)"
    by (auto simp: alloc_post_def hosts_def unhosted_def flags)
qed

text \<open>The stages of the scheduler: retire and pack, refill, pick where to continue.\<close>

definition sched_refill :: "env \<Rightarrow> nat \<Rightarrow> msh_state \<Rightarrow> msh_state res" where
  "sched_refill E t s = (if normal_next (tl_yield_ctx_at s t 0) \<noteq> - 1
     then bindR (allocate_scav E t t s) (\<lambda>(_, s). Inr (tl_update_next_map t s)) else Inr s)"

definition sched_pick :: "nat \<Rightarrow> int \<Rightarrow> msh_state \<Rightarrow> (outcome \<times> msh_state) res" where
  "sched_pick t nxt s = (if normal_next (tl_yield_ctx_at s t 0) = - 1
     then let cur = tl_find_unfinished_crt s t
          in if cur = 0 then if cleanup_jmpbuf s t then Inr (LongJump, s) else Inl Indeterminate
             else resume_at s t (int cur)
     else resume_at s t nxt)"

definition counted :: "nat \<Rightarrow> msh_state \<Rightarrow> msh_state" where
  "counted p s = (if p \<noteq> 0 then s\<lparr>finished_scav_cnt := to_int (finished_scav_cnt s + 1)\<rparr> else s)"

lemma counted_sel [simp]:
  "PRIM_TABLE (counted p s) = PRIM_TABLE s" "SCAV_TABLE (counted p s) = SCAV_TABLE s"
  "cleanup_jmpbuf (counted p s) = cleanup_jmpbuf s" "libs (counted p s) = libs s"
  "msh_inv E (counted p s) = msh_inv E s" "abs E (counted p s) = abs E s"
  by (simp_all add: counted_def)

lemma sched_stages:
  assumes "p < NSLOT"
  shows "tl_sched_next_crt E t (offset_of_pos p) s =
    bindR (bindR (bindR (tl_finish_crt t p (counted p s))
        (\<lambda>s. tl_pack_crts E t (tl_update_next_map t s))) (sched_refill E t))
      (sched_pick t (pos_of_offset (next_of s t p)))"
  using assms
  by (simp add: tl_sched_next_crt_def ret_position_offset Let_def tl_yield_ctx_at_def bindR_assoc
      sched_refill_def [abs_def] sched_pick_def [abs_def] counted_def cong del: if_weak_cong)

lemma ready_after_retire:
  assumes "ready E t s \<or> (t < MAX_THREAD_NUM \<and> \<not> reallocatable (prim s t) \<and>
      (\<forall>u < MAX_THREAD_NUM. reallocatable (prim s u) \<longrightarrow> packed (idx_list (prim s u))))"
    and "msh_inv E s'" and "frame t s s'" and "packed (idx_list (prim s' t))"
  shows "ready E t s'"
proof -
  have flags: "reallocatable (prim s' u) = reallocatable (prim s u)" for u
    using assms(3) by (cases "u = t") (auto simp: frame_def)
  have "packed (idx_list (prim s' u))" if "u < MAX_THREAD_NUM" "reallocatable (prim s u)" for u
    using that assms by (cases "u = t") (auto simp: frame_def ready_def)
  then show ?thesis using assms flags by (auto simp: ready_def msh_inv_tables)
qed

text \<open>
  C1. When the scavenger in slot \<open>p\<close> finishes and returns the byte offset of its slot while the
  primary is running, the scheduler retires exactly that scavenger: it is marked finished, the
  thread keeps its other scavengers in their order, packed, possibly with new ones from the pool
  or from blocked threads on top; the count of finished scavengers grows by one, the tables
  agree, the primary's link names the first scavenger (or the primary itself if there is none),
  and control goes to the primary with its saved stack and instruction pointers.
\<close>

theorem scheduler_retires_scavenger:
  assumes inv: "msh_inv E s" and sl: "slot t p" and occ: "idx_of s t p \<noteq> - 1"
    and live: "next_of s t 0 \<noteq> - 1" and home: "next_of s t p = 0"
    and flag: "\<not> reallocatable (prim s t)"
    and offers: "\<And>u. u < MAX_THREAD_NUM \<Longrightarrow> reallocatable (prim s u) \<Longrightarrow> packed (idx_list (prim s u))"
    and il: "init_local E"
  shows "ends (tl_sched_next_crt E t (offset_of_pos p) s) may_exit (\<lambda>(out, s'). msh_inv E s' \<and>
    packed (idx_list (prim s' t)) \<and> satisfied E t s' \<and>
    (\<exists>zs. hosts s' t = filter (\<lambda>x. x \<noteq> idx_of s t p) (hosts s t) @ zs) \<and>
    gone (abs E s') = (gone (abs E s))(idx_of s t p := True) \<and>
    finished_scav_cnt s' = to_int (finished_scav_cnt s + 1) \<and>
    next_of s' t 0 = (if hosts s' t = [] then 0 else int sizeof_yield_ctx) \<and>
    out = Resume 0 (sp (ycs (prim s' t) ! 0)) (ip (ycs (prim s' t) ! 0)))"
proof -
  let ?i = "idx_of s t p" and ?s = "counted p s"
  have cnt: "finished_scav_cnt ?s = to_int (finished_scav_cnt s + 1)" using sl by (simp add: counted_def)
  have home': "pos_of_offset (next_of s t p) = 0"
    using home by (simp add: pos_of_offset_def to_size_t_def to_short_def)
  have eq: "tl_sched_next_crt E t (offset_of_pos p) s = bindR (bindR (bindR (tl_finish_crt t p ?s)
      (\<lambda>s. tl_pack_crts E t (tl_update_next_map t s))) (sched_refill E t)) (sched_pick t 0)"
    using sched_stages [of p E t s] sl by (simp add: home')
  have first: "ends (bindR (tl_finish_crt t p ?s) (\<lambda>s. tl_pack_crts E t (tl_update_next_map t s))) may_exit
      (\<lambda>s'. msh_inv E s' \<and> packed (idx_list (prim s' t)) \<and> next_of s' t 0 \<noteq> - 1 \<and> frame t ?s s' \<and>
       hosts s' t = filter (\<lambda>x. x \<noteq> ?i) (hosts s t) \<and> gone (abs E s') = (gone (abs E s))(?i := True))"
    by (rule ends_mono [OF retire_and_pack [of E ?s t p]]) (use inv sl occ live in \<open>auto simp: hosts_def\<close>)
  have second: "ends (sched_refill E t s1) may_exit (\<lambda>s'. msh_inv E s' \<and> packed (idx_list (prim s' t)) \<and>
      satisfied E t s' \<and> next_of s' t 0 = (if hosts s' t = [] then 0 else int sizeof_yield_ctx) \<and>
      (\<exists>zs. hosts s' t = filter (\<lambda>x. x \<noteq> ?i) (hosts s t) @ zs) \<and>
      gone (abs E s') = (gone (abs E s))(?i := True) \<and>
      finished_scav_cnt s' = to_int (finished_scav_cnt s + 1))"
    if s1: "msh_inv E s1" "packed (idx_list (prim s1 t))" "next_of s1 t 0 \<noteq> - 1" "frame t ?s s1"
      "hosts s1 t = filter (\<lambda>x. x \<noteq> ?i) (hosts s t)" "gone (abs E s1) = (gone (abs E s))(?i := True)" for s1
  proof -
    have "ready E t s1"
      by (rule ready_after_retire [OF _ s1(1,4,2)]) (use sl flag offers in auto)
    from refill [OF s1(1) this il s1(3)] show ?thesis
      using s1(3-6) cnt by (auto simp: sched_refill_def tl_yield_ctx_at_def frame_def elim!: ends_mono)
  qed
  have last: "sched_pick t 0 s1 = Inr (Resume 0 (sp (ycs (prim s1 t) ! 0)) (ip (ycs (prim s1 t) ! 0)), s1)"
    if "next_of s1 t 0 = (if hosts s1 t = [] then 0 else int sizeof_yield_ctx)" for s1
  proof -
    have "next_of s1 t 0 \<noteq> - 1" using that by (simp split: if_splits)
    then show ?thesis by (simp add: sched_pick_def tl_yield_ctx_at_def resume_at_def Let_def NSLOT_pos)
  qed
  show ?thesis
    unfolding eq by (rule ends_bindI [OF ends_bindI [OF first second]]) (auto simp: last)
qed

theorem scheduler_retires_scavenger_witness:
  "idx_of (placed 2 with_hole) 0 3 = 5 \<and> next_of (placed 2 with_hole) 0 3 = 0 \<and>
   ends (tl_sched_next_crt rich_env 0 (offset_of_pos 3) (placed 2 with_hole)) may_exit (\<lambda>(out, s').
     msh_inv rich_env s' \<and> take 2 (hosts s' 0) = [4, 6] \<and> gone (abs rich_env s') 5 \<and> next_of s' 0 0 = 20)"
proof -
  let ?s = "placed 2 with_hole"
  note pl = sample_placeable(2)
  have sl: "slot 0 3" by (simp add: capacities)
  have n: "next_of ?s 0 3 = 0" "idx_of ?s 0 3 = 5"
    using placed_next [OF pl, of 5 0 3] by (simp_all add: with_hole_def)
  have h: "hosts ?s 0 = [4, 5, 6]"
    using placed_row [OF pl, of 0] sl by (simp add: hosts_def sample_rows)
  have f: "\<not> reallocatable (prim ?s u)" if "u < MAX_THREAD_NUM" for u
    using placed_facts(5) [OF pl that] .
  have "ends (tl_sched_next_crt rich_env 0 (offset_of_pos 3) ?s) may_exit (\<lambda>(out, s'). msh_inv rich_env s' \<and>
    packed (idx_list (prim s' 0)) \<and> satisfied rich_env 0 s' \<and>
    (\<exists>zs. hosts s' 0 = filter (\<lambda>x. x \<noteq> idx_of ?s 0 3) (hosts ?s 0) @ zs) \<and>
    gone (abs rich_env s') = (gone (abs rich_env ?s))(idx_of ?s 0 3 := True) \<and>
    finished_scav_cnt s' = to_int (finished_scav_cnt ?s + 1) \<and>
    next_of s' 0 0 = (if hosts s' 0 = [] then 0 else int sizeof_yield_ctx) \<and>
    out = Resume 0 (sp (ycs (prim s' 0) ! 0)) (ip (ycs (prim s' 0) ! 0)))"
    by (rule scheduler_retires_scavenger [OF placed_inv [OF pl] sl _ _ n(1) f _ init_local_rich])
      (use n f sl placed_facts(1) [OF pl, of 0] in auto)
  then have "ends (tl_sched_next_crt rich_env 0 (offset_of_pos 3) ?s) may_exit (\<lambda>(out, s').
     msh_inv rich_env s' \<and> take 2 (hosts s' 0) = [4, 6] \<and> gone (abs rich_env s') 5 \<and> next_of s' 0 0 = 20)"
    by (rule ends_mono) (use n h in auto)
  then show ?thesis using n by simp
qed

end
