(* ===== verification/Cleanup.thy ===== *)
theory Cleanup
  imports Scheduler
begin

text \<open>
  \<open>msh_cleanup\<close> and the scavengers it runs: every scavenger of the thread is linked to itself,
  resumed, retired when it returns, and after the last one control is back behind \<open>setjmp\<close>. The
  theory shows that the run ends, within one scheduling step per scavenger and one more, and
  what it leaves.
\<close>

section \<open>Linking every scavenger to itself\<close>

text \<open>The slots below \<open>n\<close> that are not finished link to themselves; nothing else is different.\<close>

definition run_alone :: "nat \<Rightarrow> primary_thread_ctx \<Rightarrow> primary_thread_ctx" where
  "run_alone n c = c\<lparr>ycs := map (\<lambda>q.
     if 0 < q \<and> q < n \<and> normal_next (ycs c ! q) \<noteq> - 1
     then (ycs c ! q)\<lparr>normal_next := offset_of_pos q, special_next := offset_of_pos q\<rparr>
     else ycs c ! q) [0..<length (ycs c)]\<rparr>"

lemma length_run_alone: "length (ycs (run_alone n c)) = length (ycs c)"
  by (simp add: run_alone_def)

lemma nth_run_alone:
  "q < length (ycs c) \<Longrightarrow> ycs (run_alone n c) ! q =
     (if 0 < q \<and> q < n \<and> normal_next (ycs c ! q) \<noteq> - 1
      then (ycs c ! q)\<lparr>normal_next := offset_of_pos q, special_next := offset_of_pos q\<rparr>
      else ycs c ! q)"
  by (simp add: run_alone_def)

lemma run_alone_eqI:
  "length ys = length (ycs c) \<Longrightarrow> (\<And>q. q < length (ycs c) \<Longrightarrow> ys ! q = ycs (run_alone n c) ! q) \<Longrightarrow>
   run_alone n c = c\<lparr>ycs := ys\<rparr>"
  using nth_equalityI [of ys "ycs (run_alone n c)"] by (simp add: run_alone_def)

lemma run_alone_1: "run_alone (Suc 0) c = c"
  by (subst run_alone_eqI [of "ycs c"]) (auto simp: nth_run_alone)

lemma run_alone_Suc:
  assumes "0 < n" and "n < length (ycs c)"
  shows "run_alone (Suc n) c = (if normal_next (ycs (run_alone n c) ! n) \<noteq> - 1
    then (run_alone n c)\<lparr>ycs := (ycs (run_alone n c))[n := (ycs (run_alone n c) ! n)
      \<lparr>normal_next := offset_of_pos n, special_next := offset_of_pos n\<rparr>]\<rparr> else run_alone n c)"
proof -
  let ?ys = "if normal_next (ycs c ! n) \<noteq> - 1 then (ycs (run_alone n c))[n := (ycs c ! n)
      \<lparr>normal_next := offset_of_pos n, special_next := offset_of_pos n\<rparr>] else ycs (run_alone n c)"
  have ys: "length ?ys = length (ycs c)" by (simp add: length_run_alone)
  have "?ys ! q = ycs (run_alone (Suc n) c) ! q" if "q < length (ycs c)" for q
    using assms that by (cases "q = n") (auto simp: nth_run_alone length_run_alone less_Suc_eq)
  from run_alone_eqI [OF ys this] have "run_alone (Suc n) c = c\<lparr>ycs := ?ys\<rparr>" by blast
  moreover have "ycs (run_alone n c) ! n = ycs c ! n" using assms by (simp add: nth_run_alone)
  ultimately show ?thesis by (simp add: run_alone_def)
qed

lemma fold_self_link:
  assumes sh: "shape s" and t: "t < MAX_THREAD_NUM" and n: "0 < n" "n \<le> NSLOT"
  shows "fold (self_link t) [1..<n] s = prim_upd t (run_alone n) s"
  using n
proof (induction n rule: nat_induct_non_zero)
  case 1
  have "t < length (PRIM_TABLE s)" using sh t by (simp add: shape_def)
  then show ?case by (simp add: prim_upd_def run_alone_1)
next
  case (Suc n)
  have "n < length (ycs (prim s t))" using shapeD(3) [OF sh t] Suc by (simp add: prim_shape_def)
  note step = run_alone_Suc [OF Suc.hyps this]
  have len: "t < length (PRIM_TABLE s)" using sh t by (simp add: shape_def)
  have "fold (self_link t) [1..<Suc n] s = self_link t n (prim_upd t (run_alone n) s)"
    using Suc by simp
  also have "\<dots> = prim_upd t (run_alone (Suc n)) s"
    using len step by (simp add: self_link_def tl_yield_ctx_at_def yc_upd_def prim_upd_def)
  finally show ?case .
qed

lemma run_alone_sel:
  "idx_list (run_alone n c) = idx_list c" "regs (run_alone n c) = regs c"
  "reallocatable (run_alone n c) = reallocatable c" "reallocated (run_alone n c) = reallocated c"
  "scav_num (run_alone n c) = scav_num c" "length (ycs (run_alone n c)) = length (ycs c)"
  "prim_shape (run_alone n c) = prim_shape c"
  by (simp_all add: run_alone_def prim_shape_def)

lemma self_links:
  assumes inv: "msh_inv E s" and t: "t < MAX_THREAD_NUM"
  defines "s' \<equiv> prim_upd t (run_alone NSLOT) s"
  shows "msh_inv E s'" "frame t s s'" "SCAV_TABLE s' = SCAV_TABLE s" "libs s' = libs s"
    "idx_list (prim s' t) = idx_list (prim s t)"
    "slot t p \<Longrightarrow> idx_of s t p \<noteq> - 1 \<Longrightarrow> next_of s' t p = offset_of_pos p \<and>
       special_next (ycs (prim s' t) ! p) = offset_of_pos p"
proof -
  note sh = msh_invD(1) [OF inv] and ps = msh_invD(6) [OF inv t]
  note p = prim_prim_upd [OF sh t, of "run_alone NSLOT"]
  have len: "length (ycs (prim s t)) = NSLOT" using ps by (simp add: prim_shape_def)
  show "msh_inv E s'"
  proof (rule msh_inv_same_view [OF inv])
    show "shape s'" unfolding s'_def by (rule shape_prim_upd [OF sh t]) (use ps in \<open>simp add: run_alone_sel\<close>)
    show "next_of s' u q = - 1 \<longleftrightarrow> next_of s u q = - 1" if "slot u q" for u q
      using that len offset_of_pos_nonneg [of q] by (auto simp: s'_def p run_alone_def)
  qed (use msh_invD(2) [OF inv] p in \<open>simp_all add: s'_def run_alone_sel\<close>)
  show "next_of s' t p = offset_of_pos p \<and> special_next (ycs (prim s' t) ! p) = offset_of_pos p"
    if "slot t p" "idx_of s t p \<noteq> - 1"
    using that hosted_facts(5) [OF inv that] len by (simp add: s'_def p run_alone_def)
qed (use prim_prim_upd [OF msh_invD(1) [OF inv] t, of "run_alone NSLOT"] in
    \<open>simp_all add: s'_def frame_def run_alone_sel\<close>)

text \<open>
  C21. The setup of \<open>msh_cleanup\<close> links every hosted scavenger of the thread to itself, on both
  links, so that yielding resumes it at once and it runs to completion. It changes nothing else
  (neither stack or instruction pointers nor registers, indices, other threads, the scavenger
  table or the libraries): the new state differs from the old exactly by the two links of the
  slots 1 to 128 whose \<open>normal_next\<close> is not -1, and the tables still agree. Only then is the
  jump buffer set and the search for an unfinished scavenger begun.
\<close>

theorem cleanup_links_scavengers_to_themselves:
  assumes "msh_inv E s" and "t < MAX_THREAD_NUM" and "getenv E ''SKIP_CLEANUP'' = None"
  shows "let s' = prim_upd t (\<lambda>c. c\<lparr>ycs := map (\<lambda>q.
        if 0 < q \<and> normal_next (ycs c ! q) \<noteq> - 1
        then (ycs c ! q)\<lparr>normal_next := offset_of_pos q, special_next := offset_of_pos q\<rparr>
        else ycs c ! q) [0..<NSLOT]\<rparr>) s
    in msh_cleanup E t s = cleanup_after_setjmp E t (s'\<lparr>cleanup_jmpbuf := (cleanup_jmpbuf s)(t := True)\<rparr>) \<and>
      msh_inv E s' \<and>
      (\<forall>p. slot t p \<longrightarrow> idx_of s t p \<noteq> - 1 \<longrightarrow>
        pos_of_offset (next_of s' t p) = int p \<and> follow (prim s' t) p = p)"
proof -
  let ?s = "prim_upd t (run_alone NSLOT) s"
  have len: "length (ycs (prim s t)) = NSLOT" using msh_invD(6) [OF assms(1,2)] by (simp add: prim_shape_def)
  have "map (\<lambda>q. if 0 < q \<and> normal_next (ycs (prim s t) ! q) \<noteq> - 1
        then (ycs (prim s t) ! q)\<lparr>normal_next := offset_of_pos q, special_next := offset_of_pos q\<rparr>
        else ycs (prim s t) ! q) [0..<NSLOT] = ycs (run_alone NSLOT (prim s t))"
    unfolding run_alone_def by (simp add: len)
  then have eq: "prim_upd t (\<lambda>c. c\<lparr>ycs := map (\<lambda>q. if 0 < q \<and> normal_next (ycs c ! q) \<noteq> - 1
        then (ycs c ! q)\<lparr>normal_next := offset_of_pos q, special_next := offset_of_pos q\<rparr>
        else ycs c ! q) [0..<NSLOT]\<rparr>) s = ?s"
    by (simp add: prim_upd_def run_alone_def)
  note f = fold_self_link [OF msh_invD(1) [OF assms(1)] assms(2) NSLOT_pos order_refl]
  note l = self_links [OF assms(1,2)]
  have "pos_of_offset (next_of ?s t p) = int p \<and> follow (prim ?s t) p = p" if "slot t p" "idx_of s t p \<noteq> - 1" for p
    using l(6) [OF that] that pos_of_offset_inverse [of p] by (simp add: follow_def)
  moreover have "msh_cleanup E t s = cleanup_after_setjmp E t (?s\<lparr>cleanup_jmpbuf := (cleanup_jmpbuf s)(t := True)\<rparr>)"
    using assms(3) f l(2) by (simp add: msh_cleanup_def Let_def frame_def)
  ultimately show ?thesis unfolding eq Let_def using l(1) by blast
qed

theorem cleanup_links_scavengers_to_themselves_witness:
  "idx_of (placed 2 two_hosts) 2 2 = 9 \<and>
   (\<exists>s'. msh_cleanup rich_env 2 (placed 2 two_hosts) =
       cleanup_after_setjmp rich_env 2 (s'\<lparr>cleanup_jmpbuf := (cleanup_jmpbuf (placed 2 two_hosts))(2 := True)\<rparr>) \<and>
     msh_inv rich_env s' \<and> follow (prim s' 2) 2 = 2)"
proof -
  have sl: "slot 2 2" "2 < MAX_THREAD_NUM" by (simp_all add: capacities)
  have i: "idx_of (placed 2 two_hosts) 2 2 = 9"
    using placed_next(2) [OF sample_placeable(1), of 9 2 2] by (simp add: two_hosts_def)
  have g: "getenv rich_env ''SKIP_CLEANUP'' = None" by (simp add: rich_env_def)
  have n: "idx_of (placed 2 two_hosts) 2 2 \<noteq> - 1" by (simp add: i)
  from cleanup_links_scavengers_to_themselves [OF placed_inv [OF sample_placeable(1)] sl(2) g] sl(1) n
  show ?thesis unfolding Let_def using i by blast
qed

section \<open>Scheduling during cleanup\<close>

definition cleaning :: "env \<Rightarrow> nat \<Rightarrow> msh_state \<Rightarrow> bool" where
  "cleaning E t s \<longleftrightarrow> msh_inv E s \<and> t < MAX_THREAD_NUM \<and> next_of s t 0 = - 1 \<and> cleanup_jmpbuf s t"

definition next_outcome :: "msh_state \<Rightarrow> nat \<Rightarrow> outcome" where
  "next_outcome s t = (let q = tl_find_unfinished_crt s t in
     if q = 0 then LongJump else Resume q (sp (ycs (prim s t) ! q)) (ip (ycs (prim s t) ! q)))"

text \<open>With the primary finished the scheduler neither packs nor refills.\<close>

lemma finished_primary_stages:
  assumes inv: "msh_inv E s" and t: "t < MAX_THREAD_NUM" and fin: "next_of s t 0 = - 1"
    and target: "cleanup_jmpbuf s t \<or> tl_find_unfinished_crt s t \<noteq> 0"
  shows "bindR (bindR (tl_pack_crts E t (tl_update_next_map t s)) (sched_refill E t)) (sched_pick t n) =
    Inr (next_outcome s t, s)"
proof -
  have "tl_find_unfinished_crt s t < NSLOT"
    using tl_find_unfinished_crt_spec [OF inv t] NSLOT_pos by (auto split: if_splits)
  then show ?thesis
    using fin target
    by (auto simp: tl_update_next_map_def tl_pack_crts_def sched_refill_def sched_pick_def
        tl_yield_ctx_at_def next_outcome_def Let_def resume_at_def)
qed

lemma cleaning_stages:
  "cleaning E t s \<Longrightarrow>
   bindR (bindR (tl_pack_crts E t (tl_update_next_map t s)) (sched_refill E t)) (sched_pick t n) =
    Inr (next_outcome s t, s)"
  using finished_primary_stages by (simp add: cleaning_def)

lemma sched_from_finish:
  assumes "p < NSLOT" and "tl_finish_crt t p (counted p s) = Inr s'" and "cleaning E t s'"
  shows "tl_sched_next_crt E t (offset_of_pos p) s = Inr (next_outcome s' t, s')"
  using sched_stages [OF assms(1), of E t s] assms(2) cleaning_stages [OF assms(3)]
  by (simp add: bindR_assoc)

text \<open>The call \<open>tl_sched_next_crt(0)\<close> marks the primary finished and starts a scavenger.\<close>

lemma cleanup_starts:
  assumes inv: "msh_inv E s" and t: "t < MAX_THREAD_NUM" and buf: "cleanup_jmpbuf s t"
  defines "s' \<equiv> yc_upd t 0 (\<lambda>y. y\<lparr>normal_next := - 1\<rparr>) s"
  shows "tl_sched_next_crt E t 0 s = Inr (next_outcome s' t, s')" "cleaning E t s'"
proof -
  have "0 < length (ycs (prim s t))" using msh_invD(6) [OF inv t] NSLOT_pos by (simp add: prim_shape_def)
  then show c: "cleaning E t s'"
    using msh_inv_yc_upd [OF inv t NSLOT_pos] prim_yc_upd [OF msh_invD(1) [OF inv] t] t buf
    by (simp add: cleaning_def s'_def)
  show "tl_sched_next_crt E t 0 s = Inr (next_outcome s' t, s')"
    using sched_from_finish [OF NSLOT_pos _ c, of s] tl_finish_crt_primary [OF inv t]
    by (simp add: counted_def s'_def)
qed

text \<open>A scavenger that returns its offset is released, and the next one is chosen.\<close>

lemma cleanup_retires:
  assumes c: "cleaning E t s" and sl: "slot t p" and occ: "idx_of s t p \<noteq> - 1"
  obtains s' where "tl_sched_next_crt E t (offset_of_pos p) s = Inr (next_outcome s' t, s')"
    "cleaning E t s'" "abs E s' = release t p (abs E s)" "libs s' = libs s"
    "map lib_handle (SCAV_TABLE s') = map lib_handle (SCAV_TABLE s)"
    "idx_list (prim s' t) = (idx_list (prim s t))[p := - 1]"
    "\<And>u. u \<noteq> t \<Longrightarrow> prim s' u = prim s u"
    "finished_scav_cnt s' = to_int (finished_scav_cnt s + 1)"
    "reallocatable (prim s' t) = reallocatable (prim s t)" "max_scav_per_thread s' = max_scav_per_thread s"
proof -
  let ?s = "counted p s"
  have inv: "msh_inv E ?s" using c by (simp add: cleaning_def)
  have occ': "idx_of ?s t p \<noteq> - 1" using occ by simp
  obtain s' where s': "tl_finish_crt t p ?s = Inr s'" "msh_inv E s'" "abs E s' = release t p (abs E ?s)"
      "frame t ?s s'" "libs s' = libs ?s"
      "prim s' t = (prim ?s t)\<lparr>ycs := (ycs (prim ?s t))[p := (ycs (prim ?s t) ! p)\<lparr>normal_next := - 1\<rparr>],
        idx_list := (idx_list (prim ?s t))[p := - 1]\<rparr>"
    using tl_finish_crt_refines_release [OF inv sl occ'] by (auto simp: ends_never)
  have tab: "SCAV_TABLE s' = (SCAV_TABLE s)[nat (idx_of s t p) :=
      (scav s (idx_of s t p))\<lparr>yc := None, finished := True\<rparr>]"
    using s'(1) tl_finish_crt_hosted [OF inv sl occ'] by auto
  have n: "nat (idx_of s t p) < length (SCAV_TABLE s)"
    using hosted_facts(1) [OF inv sl occ'] msh_invD(5) [OF inv] by (simp add: scav_in_range_def nat_less_iff)
  have cl: "cleaning E t s'" using c s' sl by (auto simp: cleaning_def frame_def)
  show thesis
  proof (rule that)
    show "tl_sched_next_crt E t (offset_of_pos p) s = Inr (next_outcome s' t, s')"
      using sched_from_finish [OF _ s'(1) cl] sl by simp
    show "map lib_handle (SCAV_TABLE s') = map lib_handle (SCAV_TABLE s)"
      using n by (simp add: tab map_update list_update_same_conv)
    show "finished_scav_cnt s' = to_int (finished_scav_cnt s + 1)"
      using s'(4) sl by (simp add: frame_def counted_def)
  qed (use s' cl in \<open>auto simp: frame_def counted_def\<close>)
qed

section \<open>The whole run\<close>

text \<open>
  Every hosted scavenger of the thread exports the byte offset of its own slot, as
  \<open>set_scav_symbol\<close> writes it.
\<close>

definition exports_ok :: "msh_state \<Rightarrow> nat \<Rightarrow> bool" where
  "exports_ok s t \<longleftrightarrow> (\<forall>p. 0 < p \<and> p < NSLOT \<and> idx_of s t p \<noteq> - 1 \<longrightarrow>
     (\<exists>h. lib_handle (scav s (idx_of s t p)) = Some h \<and> sym_crt_pos (libs s h) = offset_of_pos p))"

lemma exports_ok_release:
  assumes ex: "exports_ok s t" and ok: "tables_ok E s" and t: "t < MAX_THREAD_NUM"
    and lib: "libs s' = libs s" "map lib_handle (SCAV_TABLE s') = map lib_handle (SCAV_TABLE s)"
    and idx: "idx_list (prim s' t) = (idx_list (prim s t))[p := - 1]"
  shows "exports_ok s' t"
  unfolding exports_ok_def
proof (intro allI impI, elim conjE)
  fix q assume q: "0 < q" "q < NSLOT" "idx_of s' t q \<noteq> - 1"
  have len: "length (idx_list (prim s t)) = NSLOT" using tables_okD(5) [OF ok t] by (simp add: prim_shape_def)
  have qp: "q \<noteq> p" "idx_of s' t q = idx_of s t q" using q idx len by (cases "q = p"; simp)+
  then have rng: "scav_in_range (idx_of s t q)" using tables_facts(1) [OF ok, of t q] q t by simp
  then have n: "nat (idx_of s t q) < length (SCAV_TABLE s)" "length (SCAV_TABLE s') = length (SCAV_TABLE s)"
    using tables_okD(4) [OF ok] lib(2) by (auto simp: scav_in_range_def nat_less_iff dest: map_eq_imp_length_eq)
  then have "lib_handle (scav s' (idx_of s t q)) = lib_handle (scav s (idx_of s t q))"
    using arg_cong [OF lib(2), of "\<lambda>l. l ! nat (idx_of s t q)"] by simp
  moreover obtain h where "lib_handle (scav s (idx_of s t q)) = Some h" "sym_crt_pos (libs s h) = offset_of_pos q"
    using ex q qp by (auto simp: exports_ok_def)
  ultimately show "\<exists>h. lib_handle (scav s' (idx_of s' t q)) = Some h \<and> sym_crt_pos (libs s' h) = offset_of_pos q"
    using qp lib(1) by simp
qed

lemma hosts_remove:
  assumes inv: "msh_inv E s" and sl: "slot t p" and occ: "idx_of s t p \<noteq> - 1"
  shows "length (hosts s t) = Suc (length (filter (\<lambda>x. x \<noteq> idx_of s t p) (hosts s t))) \<and>
    idx_of s t p \<in> set (hosts s t)"
proof -
  let ?l = "idx_list (prim s t)" and ?i = "idx_of s t p"
  have len: "length ?l = NSLOT" using msh_invD(6) [OF inv, of t] sl by (simp add: prim_shape_def)
  obtain q where q: "p = Suc q" "q < length (tl ?l)" "tl ?l ! q = ?i"
    using sl len by (cases p; cases ?l) auto
  define a b where "a = take q (tl ?l)" and "b = drop (Suc q) (tl ?l)"
  have tl: "tl ?l = a @ ?i # b" using q(2,3) id_take_nth_drop [of q "tl ?l"] by (simp add: a_def b_def)
  have upd: "tl (?l[p := - 1]) = a @ (- 1) # b"
    using q(1,2) by (cases ?l) (simp_all add: upd_conv_take_nth_drop a_def b_def)
  have "items (?l[p := - 1]) = filter (\<lambda>x. x \<noteq> - 1) a @ filter (\<lambda>x. x \<noteq> - 1) b"
    by (simp add: items_def upd)
  moreover have "hosts s t = filter (\<lambda>x. x \<noteq> - 1) a @ ?i # filter (\<lambda>x. x \<noteq> - 1) b"
    using occ by (simp add: hosts_def items_def tl)
  ultimately show ?thesis
    using items_cleared [OF msh_inv_tables_ok [OF inv] sl occ] by simp
qed

lemma find_unfinished_hosts:
  assumes inv: "msh_inv E s" and t: "t < MAX_THREAD_NUM"
  shows "tl_find_unfinished_crt s t = 0 \<longleftrightarrow> hosts s t = []"
proof -
  have len: "length (idx_list (prim s t)) = NSLOT" using msh_invD(6) [OF inv t] by (simp add: prim_shape_def)
  have "hosts s t = [] \<longleftrightarrow> (\<forall>p. 0 < p \<and> p < NSLOT \<longrightarrow> idx_of s t p = - 1)"
  proof -
    have "set (tl (idx_list (prim s t))) = (!) (idx_list (prim s t)) ` {p. 0 < p \<and> p < NSLOT}"
    proof -
      have "tl (idx_list (prim s t)) = map ((!) (idx_list (prim s t))) [1..<NSLOT]"
        by (rule nth_equalityI) (simp_all add: len nth_tl)
      then show ?thesis by auto
    qed
    then show ?thesis by (auto simp: hosts_def items_def filter_empty_conv)
  qed
  then show ?thesis using tl_find_unfinished_crt_spec [OF inv t] by (auto split: if_splits)
qed

text \<open>A scavenger that runs writes to its own position only, and leaves the links alone.\<close>

lemma scav_writes_keeps:
  assumes inv: "msh_inv E s" and t: "t < MAX_THREAD_NUM"
  shows "msh_inv E (scav_writes E h t p s)" "frame t s (scav_writes E h t p s)"
    "SCAV_TABLE (scav_writes E h t p s) = SCAV_TABLE s" "libs (scav_writes E h t p s) = libs s"
    "idx_list (prim (scav_writes E h t p s) t) = idx_list (prim s t)"
    "next_of (scav_writes E h t p s) t q = next_of s t q"
proof -
  let ?s = "scav_writes E h t p s"
  note sh = msh_invD(1) [OF inv] and ps = msh_invD(6) [OF inv t]
  obtain sp' ip' r lc where w: "run_scav E h p (prim s t) = (sp', ip', r, lc)" by (metis prod_cases4)
  have at: "prim ?s u = (if u = t then (prim s t)\<lparr>ycs := (ycs (prim s t))[p := (ycs (prim s t) ! p)\<lparr>sp := sp', ip := ip'\<rparr>],
      loop_counter := (loop_counter (prim s t))[p := lc], regs := (regs (prim s t))[p := r]\<rparr> else prim s u)" for u
    by (simp add: scav_writes_def prim_prim_upd [OF sh t] w)
  have n: "next_of ?s u q = next_of s u q" for u q
    by (cases "p < length (ycs (prim s t))") (auto simp: at nth_list_update list_update_beyond)
  show "next_of ?s t q = next_of s t q" by (rule n)
  show "idx_list (prim ?s t) = idx_list (prim s t)" by (simp add: at)
  show "SCAV_TABLE ?s = SCAV_TABLE s" "libs ?s = libs s" by (simp_all add: scav_writes_def)
  show "frame t s ?s" by (simp add: frame_def at) (simp add: scav_writes_def)
  show "msh_inv E ?s"
  proof (rule msh_inv_same_view [OF inv])
    show "shape ?s"
      unfolding scav_writes_def by (rule shape_prim_upd [OF sh t]) (use ps in \<open>simp add: w prim_shape_def\<close>)
    show "next_of ?s u q = - 1 \<longleftrightarrow> next_of s u q = - 1" for u q by (simp only: n)
    show "idx_of ?s u q = idx_of s u q" for u q by (simp add: at)
  qed (use msh_invD(2) [OF inv] in \<open>simp_all add: scav_writes_def\<close>)
qed

text \<open>What a run started in \<open>s\<close> leaves behind.\<close>

definition cleaned :: "env \<Rightarrow> nat \<Rightarrow> msh_state \<Rightarrow> int \<times> msh_state \<Rightarrow> bool" where
  "cleaned E t s = (\<lambda>(v, s'). v = 0 \<and> msh_inv E s' \<and> hosts s' t = [] \<and> next_of s' t 0 = 0 \<and>
     gone (abs E s') = (\<lambda>i. gone (abs E s) i \<or> i \<in> set (hosts s t)) \<and>
     (\<forall>u. u \<noteq> t \<longrightarrow> prim s' u = prim s u) \<and>
     finished_scav_cnt s' = ((\<lambda>c. to_int (c + 1)) ^^ length (hosts s t)) (finished_scav_cnt s) \<and>
     reallocatable (prim s' t) = reallocatable (prim s t) \<and>
     max_scav_per_thread s' = max_scav_per_thread s \<and>
     libs s' = libs s \<and> map lib_handle (SCAV_TABLE s') = map lib_handle (SCAV_TABLE s))"

lemma cleanup_finishes:
  assumes inv: "msh_inv E s" and t: "t < MAX_THREAD_NUM" and "hosts s t = []"
  shows "ends (cleanup_after_setjmp E t s) never (\<lambda>(r, s'). r = Returned 0 \<and> cleaned E t s (0, s'))"
proof -
  let ?s = "yc_upd t 0 (\<lambda>y. y\<lparr>normal_next := 0\<rparr>) s"
  have len: "0 < length (ycs (prim s t))" using msh_invD(6) [OF inv t] NSLOT_pos by (simp add: prim_shape_def)
  note pr = prim_yc_upd [OF msh_invD(1) [OF inv] t]
  have "msh_inv E ?s" by (rule msh_inv_yc_upd [OF inv t NSLOT_pos]) simp
  then have "cleaned E t s (0, ?s)"
    using assms(3) len pr abs_same_table(1) [of ?s s E] by (simp add: cleaned_def hosts_def)
  then show ?thesis using find_unfinished_hosts [OF inv t] assms(3) by (simp add: cleanup_after_setjmp_def)
qed

lemma cleaned_cong:
  assumes "hosts s1 t = hosts s t" and "SCAV_TABLE s1 = SCAV_TABLE s"
    and "\<And>u. u \<noteq> t \<Longrightarrow> prim s1 u = prim s u" and "finished_scav_cnt s1 = finished_scav_cnt s"
    and "libs s1 = libs s" and "reallocatable (prim s1 t) = reallocatable (prim s t)"
    and "max_scav_per_thread s1 = max_scav_per_thread s"
  shows "cleaned E t s1 = cleaned E t s"
  using assms abs_same_table(1) [OF assms(2), of E] by (auto simp: cleaned_def fun_eq_iff)

lemma exports_ok_cong:
  "libs s' = libs s \<Longrightarrow> SCAV_TABLE s' = SCAV_TABLE s \<Longrightarrow> idx_list (prim s' t) = idx_list (prim s t) \<Longrightarrow>
   exports_ok s' t = exports_ok s t"
  by (simp add: exports_ok_def)

lemma cleanup_run_ends:
  assumes "cleaning E t s" and "exports_ok s t" and "length (hosts s t) < n"
  shows "ends (cleanup_run E t n (next_outcome s t, s)) never (cleaned E t s)"
  using assms
proof (induction n arbitrary: s)
  case (Suc n)
  have inv: "msh_inv E s" and t: "t < MAX_THREAD_NUM" using Suc.prems(1) by (auto simp: cleaning_def)
  note ok = msh_inv_tables_ok [OF inv]
  let ?p = "tl_find_unfinished_crt s t"
  show ?case
  proof (cases "hosts s t = []")
    case True
    then have "next_outcome s t = LongJump"
      using find_unfinished_hosts [OF inv t] by (simp add: next_outcome_def)
    then show ?thesis using cleanup_finishes [OF inv t True] by (auto simp: ends_never)
  next
    case False
    then have p0: "?p \<noteq> 0" using find_unfinished_hosts [OF inv t] by simp
    have sl: "slot t ?p" and occ: "idx_of s t ?p \<noteq> - 1"
      using tl_find_unfinished_crt_spec [OF inv t] p0 by (auto split: if_splits)
    obtain h where h: "lib_handle (scav s (idx_of s t ?p)) = Some h" "sym_crt_pos (libs s h) = offset_of_pos ?p"
      using Suc.prems(2) sl occ by (auto simp: exports_ok_def)
    define sw where "sw = scav_writes E h t ?p s"
    note w = scav_writes_keeps [OF inv t, of h ?p, folded sw_def]
    have cw: "cleaning E t sw" using Suc.prems(1) w(1,2,6) by (simp add: cleaning_def frame_def)
    have "idx_of sw t ?p \<noteq> - 1" using occ by (simp add: w(5))
    then obtain s' where s': "tl_sched_next_crt E t (offset_of_pos ?p) sw = Inr (next_outcome s' t, s')"
        "cleaning E t s'" "abs E s' = release t ?p (abs E sw)" "libs s' = libs s"
        "map lib_handle (SCAV_TABLE s') = map lib_handle (SCAV_TABLE s)"
        "idx_list (prim s' t) = (idx_list (prim s t))[?p := - 1]" "\<And>u. u \<noteq> t \<Longrightarrow> prim s' u = prim s u"
        "finished_scav_cnt s' = to_int (finished_scav_cnt s + 1)"
        "reallocatable (prim s' t) = reallocatable (prim s t)" "max_scav_per_thread s' = max_scav_per_thread s"
      using cleanup_retires [OF cw sl] w by (auto simp: frame_def)
    have hs: "hosts s' t = filter (\<lambda>x. x \<noteq> idx_of s t ?p) (hosts s t)"
      using items_cleared [OF ok sl occ] s'(6) by (simp add: hosts_def)
    have hl: "length (hosts s t) = Suc (length (hosts s' t))" "idx_of s t ?p \<in> set (hosts s t)"
      using hosts_remove [OF inv sl occ] hs by auto
    have step: "cleanup_run E t (Suc n) (next_outcome s t, s) = cleanup_run E t n (next_outcome s' t, s')"
      using p0 sl h s'(1) hosted_facts(1) [OF inv sl occ] w(4)
      by (simp add: next_outcome_def Let_def get_idx scav_get_def sw_def)
    have "ends (cleanup_run E t n (next_outcome s' t, s')) never (cleaned E t s')"
      using Suc.IH [OF s'(2) exports_ok_release [OF Suc.prems(2) ok t s'(4,5,6)]] Suc.prems(3) hl by simp
    then show ?thesis
      unfolding step
    proof (rule ends_mono)
      fix z assume z: "cleaned E t s' z"
      have "gone (abs E s') = (gone (abs E s))(idx_of s t ?p := True)"
        using s'(3) sl w(5) abs_same_table(1) [OF w(3), of E] by (simp add: release_def Let_def abs_sel)
      then show "cleaned E t s z"
        using z hl hs s'(4,5,7-10) by (auto simp: cleaned_def funpow_Suc_right simp del: funpow.simps)
    qed
  qed
qed simp

lemma cleanup_thread_ends:
  assumes inv: "msh_inv E s" and t: "t < MAX_THREAD_NUM" and ex: "exports_ok s t"
    and run: "getenv E ''SKIP_CLEANUP'' = None" and n: "length (hosts s t) < n"
  shows "ends (cleanup_thread E t n s) never (cleaned E t s)"
proof -
  define s1 where "s1 = fold (self_link t) [1..<NSLOT] s"
  define s2 where "s2 = s1\<lparr>cleanup_jmpbuf := (cleanup_jmpbuf s1)(t := True)\<rparr>"
  have l: "msh_inv E s1" "frame t s s1" "SCAV_TABLE s1 = SCAV_TABLE s" "libs s1 = libs s"
      "idx_list (prim s1 t) = idx_list (prim s t)"
    using self_links [OF inv t] fold_self_link [OF msh_invD(1) [OF inv] t NSLOT_pos order_refl]
    by (simp_all add: s1_def)
  have inv2: "msh_inv E s2" and buf: "cleanup_jmpbuf s2 t" using l by (simp_all add: s2_def)
  have ex2: "exports_ok s2 t" and h2: "hosts s2 t = hosts s t" and c2: "cleaned E t s2 = cleaned E t s"
    using l ex exports_ok_cong [of s2 s t] cleaned_cong [of s2 t s E]
    by (simp_all add: s2_def hosts_def frame_def)
  let ?after = "\<lambda>(r, s). case r of Returned v \<Rightarrow> Inr (v, s) | Scheduled out \<Rightarrow> cleanup_run E t n (out, s)"
  have eq: "cleanup_thread E t n s = bindR (cleanup_after_setjmp E t s2) ?after"
    using run by (simp add: cleanup_thread_def msh_cleanup_def s1_def s2_def Let_def)
  have "ends (bindR (cleanup_after_setjmp E t s2) ?after) never (cleaned E t s2)"
  proof (cases "hosts s2 t = []")
    case True
    then show ?thesis using cleanup_finishes [OF inv2 t True] by (auto simp: ends_never)
  next
    case False
    let ?s3 = "yc_upd t 0 (\<lambda>y. y\<lparr>normal_next := - 1\<rparr>) s2"
    note st = cleanup_starts [OF inv2 t buf]
    have pr: "idx_list (prim ?s3 t) = idx_list (prim s2 t)" "\<And>u. u \<noteq> t \<Longrightarrow> prim ?s3 u = prim s2 u"
        "reallocatable (prim ?s3 t) = reallocatable (prim s2 t)"
      using prim_yc_upd [OF msh_invD(1) [OF inv2] t] by simp_all
    have "exports_ok ?s3 t" "hosts ?s3 t = hosts s2 t" "cleaned E t ?s3 = cleaned E t s2"
      using pr ex2 exports_ok_cong [of ?s3 s2 t] cleaned_cong [of ?s3 t s2 E] by (simp_all add: hosts_def)
    then have "ends (cleanup_run E t n (next_outcome ?s3 t, ?s3)) never (cleaned E t s2)"
      using cleanup_run_ends [OF st(2), of n] n h2 by simp
    then show ?thesis
      using False find_unfinished_hosts [OF inv2 t] st(1) by (simp add: cleanup_after_setjmp_def)
  qed
  then show ?thesis unfolding eq c2 .
qed

text \<open>
  C5. Cleanup terminates and finishes everything: if every hosted scavenger of the thread exports
  the offset of its slot and returns it when it is done, then \<open>msh_cleanup\<close> with the scavengers it
  resumes comes back with 0 after at most one scheduling step per scavenger and one more (a
  fuel above the number of hosted scavengers is enough). Afterwards the thread hosts nothing,
  exactly its scavengers have been marked finished in addition and counted, the other threads
  are untouched, and the primary's link is reset to 0.
\<close>

theorem cleanup_terminates:
  assumes inv: "msh_inv E s" and t: "t < MAX_THREAD_NUM" and ex: "exports_ok s t"
    and run: "getenv E ''SKIP_CLEANUP'' = None" and n: "length (hosts s t) < n"
  shows "ends (cleanup_thread E t n s) never (\<lambda>(v, s'). v = 0 \<and> msh_inv E s' \<and> hosts s' t = [] \<and>
    next_of s' t 0 = 0 \<and> gone (abs E s') = (\<lambda>i. gone (abs E s) i \<or> i \<in> set (hosts s t)) \<and>
    (\<forall>u. u \<noteq> t \<longrightarrow> prim s' u = prim s u) \<and>
    finished_scav_cnt s' = ((\<lambda>c. to_int (c + 1)) ^^ length (hosts s t)) (finished_scav_cnt s))"
  by (rule ends_mono [OF cleanup_thread_ends [OF assms]]) (auto simp: cleaned_def)

text \<open>A placed state whose scavengers export the offsets of their slots.\<close>

definition exporting :: "(int \<times> nat \<times> nat) list \<Rightarrow> msh_state" where
  "exporting l = (placed 2 l)\<lparr>libs := (\<lambda>h. \<lparr>sym_argc = 0, sym_argv = [],
     sym_crt_pos = (case map_of l (int h - 1) of Some (t, p) \<Rightarrow> offset_of_pos p | None \<Rightarrow> 0),
     sym_loop_counter_loc = 0\<rparr>)\<rparr>"

lemma exporting_ok:
  assumes pl: "placeable l" and t: "t < MAX_THREAD_NUM"
  shows "msh_inv rich_env (exporting l)" "exports_ok (exporting l) t"
proof -
  let ?s = "placed 2 l"
  have inv: "msh_inv rich_env ?s" using placed_inv [OF pl] .
  have "abs rich_env (exporting l) = abs rich_env ?s" by (simp add: abs_def exporting_def fun_eq_iff)
  then show "msh_inv rich_env (exporting l)"
    using inv by (simp add: msh_inv_def shape_def) (simp add: exporting_def)
  show "exports_ok (exporting l) t"
    unfolding exports_ok_def
  proof (intro allI impI, elim conjE)
    fix p assume p: "0 < p" "p < NSLOT" "idx_of (exporting l) t p \<noteq> - 1"
    let ?i = "idx_of ?s t p"
    have hf: "scav_in_range ?i" "yc (scav ?s ?i) = Some (t, p)"
      using hosted_facts(1,2) [OF inv, of t p] p t by (simp_all add: exporting_def)
    moreover have "agrees l ?s" using placed_ok [OF pl] by simp
    ultimately have "map_of l ?i = Some (t, p)" "lib_handle (scav ?s ?i) = Some (nat ?i + 1)"
      by (auto simp: agrees_def)
    moreover have "int (nat ?i + 1) - 1 = ?i" using hf(1) by (simp add: scav_in_range_def)
    ultimately show "\<exists>h. lib_handle (scav (exporting l) (idx_of (exporting l) t p)) = Some h \<and>
        sym_crt_pos (libs (exporting l) h) = offset_of_pos p"
      by (intro exI [of _ "nat ?i + 1"]) (simp add: exporting_def)
  qed
qed

theorem cleanup_terminates_witness:
  "msh_inv rich_env (exporting two_hosts) \<and> hosts (exporting two_hosts) 2 = [8, 9] \<and>
   ends (cleanup_thread rich_env 2 3 (exporting two_hosts)) never (\<lambda>(v, s'). v = 0 \<and> hosts s' 2 = [] \<and>
     gone (abs rich_env s') 8 \<and> gone (abs rich_env s') 9 \<and> hosts s' 0 = [7])"
proof -
  let ?s = "exporting two_hosts"
  note pl = sample_placeable(1)
  have t: "0 < MAX_THREAD_NUM" "2 < MAX_THREAD_NUM" by (simp_all add: capacities)
  have h: "hosts ?s 2 = [8, 9]" "hosts ?s 0 = [7]"
    using placed_row [OF pl t(1), of 2] placed_row [OF pl t(2), of 2]
    by (simp_all add: hosts_def exporting_def sample_rows)
  have "ends (cleanup_thread rich_env 2 3 ?s) never (\<lambda>(v, s'). v = 0 \<and> hosts s' 2 = [] \<and>
     gone (abs rich_env s') 8 \<and> gone (abs rich_env s') 9 \<and> hosts s' 0 = [7])"
    by (rule ends_mono [OF cleanup_terminates [OF exporting_ok(1) [OF pl t(2)] t(2) exporting_ok(2) [OF pl t(2)]]])
      (use t h in \<open>auto simp: rich_env_def hosts_def\<close>)
  then show ?thesis using exporting_ok(1) [OF pl t(2)] h(1) by simp
qed

section \<open>A scavenger that was moved\<close>

text \<open>
  C34. The value a scavenger exports after it was moved by packing is its position, not the byte
  offset of its slot. When it then finishes in a position below 20, the scheduler takes the
  returned value for the primary's: it marks the primary finished, leaves the scavenger in its
  slot as unfinished, and jumps to a scavenger of the thread as if it were cleaning up.
\<close>

theorem moved_scavenger_is_taken_for_primary:
  assumes inv: "msh_inv E s" and a: "slot t a" and b: "slot t b" and lt: "a < 20"
    and free: "idx_of s t a = - 1" and occ: "idx_of s t b \<noteq> - 1"
    and h: "lib_handle (scav s (idx_of s t b)) = Some h"
  shows "ends (bindR (tl_swap_crts E t a b s) (\<lambda>s1. tl_sched_next_crt E t (sym_crt_pos (libs s1 h)) s1))
    never (\<lambda>(out, s'). next_of s' t 0 = - 1 \<and> idx_of s' t a = idx_of s t b \<and>
      \<not> finished (scav s' (idx_of s t b)) \<and> out \<noteq> LongJump \<and>
      finished_scav_cnt s' = finished_scav_cnt s)"
proof -
  let ?i = "idx_of s t b"
  have t: "t < MAX_THREAD_NUM" using a by simp
  obtain s1 where s1: "tl_swap_crts E t a b s = Inr s1" "msh_inv E s1" "frame t s s1"
      "prim s1 t = swap_ctx a b (prim s t)"
    using tl_swap_crts_refines_move [OF inv a b free occ] by (auto simp: ends_never)
  have eax: "sym_crt_pos (libs s1 h) = int a"
    using s1(1) tl_swap_crts_free [OF inv a b free occ h] by auto
  have len: "length (idx_list (prim s t)) = NSLOT" using msh_invD(6) [OF inv t] by (simp add: prim_shape_def)
  have at: "idx_of s1 t a = ?i" using a b len by (auto simp: s1(4) swap_ctx_def nth_swap_nth)
  define s2 where "s2 = yc_upd t 0 (\<lambda>y. y\<lparr>normal_next := - 1\<rparr>) s1"
  have pr: "idx_list (prim s2 t) = idx_list (prim s1 t)" "next_of s2 t 0 = - 1"
    using prim_yc_upd [OF msh_invD(1) [OF s1(2)] t] msh_invD(6) [OF s1(2) t] NSLOT_pos
    by (simp_all add: s2_def prim_shape_def)
  have inv2: "msh_inv E s2"
    unfolding s2_def by (rule msh_inv_yc_upd [OF s1(2) t NSLOT_pos]) simp
  have busy: "tl_find_unfinished_crt s2 t \<noteq> 0"
    using tl_find_unfinished_crt_spec [OF inv2 t] a at pr(1) occ by (auto split: if_splits)
  have same: "tl_sched_next_crt E t (int a) s1 = tl_sched_next_crt E t (offset_of_pos 0) s1"
    using lt by (simp add: tl_sched_next_crt_def ret_position_def to_size_t_id)
  have "tl_sched_next_crt E t (int a) s1 = Inr (next_outcome s2 t, s2)"
    unfolding same sched_stages [OF NSLOT_pos]
    using tl_finish_crt_primary [OF s1(2) t] finished_primary_stages [OF inv2 t pr(2)] busy
    by (simp add: counted_def bindR_assoc s2_def)
  moreover have "next_outcome s2 t \<noteq> LongJump" using busy by (simp add: next_outcome_def Let_def)
  moreover have "\<not> finished (scav s2 ?i)"
    using hosted_facts(3) [OF inv2 a] at pr(1) occ by simp
  moreover have "finished_scav_cnt s2 = finished_scav_cnt s" using s1(3) by (simp add: s2_def frame_def)
  ultimately show ?thesis using s1(1) eax at pr by simp
qed

theorem moved_scavenger_is_taken_for_primary_witness:
  "idx_of (placed 2 with_hole) 0 2 = - 1 \<and> idx_of (placed 2 with_hole) 0 3 = 5 \<and>
   ends (bindR (tl_swap_crts rich_env 0 2 3 (placed 2 with_hole))
       (\<lambda>s1. tl_sched_next_crt rich_env 0 (sym_crt_pos (libs s1 6)) s1)) never
     (\<lambda>(out, s'). next_of s' 0 0 = - 1 \<and> idx_of s' 0 2 = 5 \<and> \<not> finished (scav s' 5))"
proof -
  let ?s = "placed 2 with_hole"
  note pl = sample_placeable(2)
  have sl: "slot 0 2" "slot 0 3" "(0::nat) < MAX_THREAD_NUM" by (simp_all add: capacities)
  have i: "idx_of ?s 0 3 = 5" using placed_next(2) [OF pl, of 5 0 3] by (simp add: with_hole_def)
  have f: "idx_of ?s 0 2 = - 1"
    using placed_ok [OF pl, of 2] sl by (simp add: agrees_def with_hole_def)
  have h: "lib_handle (scav ?s (idx_of ?s 0 3)) = Some 6"
    using placed_handle [OF pl, of 5 2] by (simp add: i scav_in_range_def capacities)
  have occ: "idx_of ?s 0 3 \<noteq> - 1" by (simp add: i)
  have "ends (bindR (tl_swap_crts rich_env 0 2 3 ?s)
       (\<lambda>s1. tl_sched_next_crt rich_env 0 (sym_crt_pos (libs s1 6)) s1)) never
     (\<lambda>(out, s'). next_of s' 0 0 = - 1 \<and> idx_of s' 0 2 = 5 \<and> \<not> finished (scav s' 5))"
    by (rule ends_mono [OF moved_scavenger_is_taken_for_primary [OF placed_inv [OF pl] sl(1,2) _ f occ h]])
      (auto simp: i)
  then show ?thesis using i f by simp
qed

end
