(* ===== verification/Exports.thy ===== *)
theory Exports
  imports Cleanup
begin

text \<open>
  The positions that scavengers export. A scavenger taken from the pool exports the byte offset of
  its slot, which is what the scheduler expects back and what makes cleanup terminate.
\<close>

text \<open>No two scavengers share a library handle, that is, each was loaded from a file of its own.\<close>

definition own_libs :: "msh_state \<Rightarrow> bool" where
  "own_libs s \<longleftrightarrow> inj_on (\<lambda>i. lib_handle (SCAV_TABLE s ! i))
     {i. i < MAX_ACTIVE_CRT_NUM_PER_APPLICATION \<and> lib_handle (SCAV_TABLE s ! i) \<noteq> None}"

lemma own_libsD:
  assumes "own_libs s" and "scav_in_range i" and "scav_in_range j"
    and "lib_handle (scav s i) = Some h" and "lib_handle (scav s j) = Some h"
  shows "i = j"
proof -
  have "nat i = nat j"
    using inj_onD [OF assms(1) [unfolded own_libs_def], of "nat i" "nat j"] assms(2-5)
    by (simp add: scav_in_range_def nat_less_iff)
  then show ?thesis using assms(2,3) by (metis scav_in_range_def eq_nat_nat_iff)
qed

lemma own_libs_cong:
  assumes "map lib_handle (SCAV_TABLE s') = map lib_handle (SCAV_TABLE s)"
    and "length (SCAV_TABLE s) = MAX_ACTIVE_CRT_NUM_PER_APPLICATION"
  shows "own_libs s' = own_libs s"
proof -
  have "lib_handle (SCAV_TABLE s' ! i) = lib_handle (SCAV_TABLE s ! i)"
    if "i < MAX_ACTIVE_CRT_NUM_PER_APPLICATION" for i
    using that assms map_eq_imp_length_eq [OF assms(1)] by (metis nth_map)
  then show ?thesis unfolding own_libs_def by (auto simp: inj_on_def)
qed

text \<open>Below, \<open>u\<close> is any thread, the allocating one or another.\<close>

lemma place_exports:
  assumes r: "ready E ctx s" and own: "own_libs s" and u: "u < MAX_THREAD_NUM" and ex: "exports_ok s u"
    and idx: "idx < MAX_ACTIVE_CRT_NUM_PER_APPLICATION" and lib: "lib_handle (SCAV_TABLE s ! idx) = Some h"
    and free: "yc (SCAV_TABLE s ! idx) = None" and sl: "slot ctx pos"
    and s': "ready E ctx s'" "abs E s' = assign (int idx) ctx pos (abs E s)"
      "\<forall>h'. h' \<noteq> h \<longrightarrow> libs s' h' = libs s h'" "sym_crt_pos (libs s' h) = offset_of_pos pos"
      "map lib_handle (SCAV_TABLE s') = map lib_handle (SCAV_TABLE s)"
  shows "exports_ok s' u \<and> own_libs s'"
proof -
  note ok = readyD(1) [OF r]
  have handles: "lib_handle (scav s' i) = lib_handle (scav s i)" if "scav_in_range i" for i
    using that tables_okD(4) [OF ok] s'(5) map_eq_imp_length_eq [OF s'(5)]
    by (metis nth_map scav_in_range_def nat_less_iff)
  have at: "idx_of s' u q = (if u = ctx \<and> q = pos then int idx else idx_of s u q)" if "q < NSLOT" for q
    using arg_cong [OF s'(2), of "\<lambda>h. slot_idx h u q"] that u by (simp add: abs_sel assign_def)
  have "\<exists>h. lib_handle (scav s' (idx_of s' u q)) = Some h \<and> sym_crt_pos (libs s' h) = offset_of_pos q"
    if q: "0 < q" "q < NSLOT" "idx_of s' u q \<noteq> - 1" for q
  proof (cases "u = ctx \<and> q = pos")
    case True
    then show ?thesis using at [OF q(2)] handles [of "int idx"] idx lib s'(4) by (simp add: scav_in_range_def)
  next
    case False
    have sq: "slot u q" "idx_of s u q \<noteq> - 1" using q u at [OF q(2)] False by auto
    note tf = tables_facts [OF ok sq]
    obtain g where g: "lib_handle (scav s (idx_of s u q)) = Some g" "sym_crt_pos (libs s g) = offset_of_pos q"
      using ex sq by (auto simp: exports_ok_def)
    have "idx_of s u q \<noteq> int idx" using tf(2) free by auto
    then have "g \<noteq> h"
      using own_libsD [OF own tf(1), of "int idx" g] g(1) lib idx by (auto simp: scav_in_range_def)
    then show ?thesis using g handles [OF tf(1)] at [OF q(2)] False s'(3) by auto
  qed
  moreover have "own_libs s'" using own_libs_cong [OF s'(5) tables_okD(4) [OF ok]] own by simp
  ultimately show ?thesis by (simp add: exports_ok_def)
qed

lemma alloc_from_pool_exports:
  assumes "ready E ctx s" and "own_libs s" and u: "u < MAX_THREAD_NUM" and "exports_ok s u"
    and "set idxs \<subseteq> {..<MAX_ACTIVE_CRT_NUM_PER_APPLICATION}"
  shows "ends (alloc_from_pool E ctx ctx demands idxs r s) may_exit (\<lambda>(_, s'). exports_ok s' u \<and> own_libs s')"
  using assms(1,2,4,5)
proof (induction idxs arbitrary: r s)
  case (Cons i idxs)
  note r = Cons.prems(1)
  have sub: "set idxs \<subseteq> {..<MAX_ACTIVE_CRT_NUM_PER_APPLICATION}" and i: "i < MAX_ACTIVE_CRT_NUM_PER_APPLICATION"
    using Cons.prems(4) by auto
  note skip = Cons.IH [OF Cons.prems(1-3) sub]
  consider "lib_handle (SCAV_TABLE s ! i) = None \<or> yc (SCAV_TABLE s ! i) \<noteq> None \<or> finished (SCAV_TABLE s ! i)"
    | h where "lib_handle (SCAV_TABLE s ! i) = Some h" "yc (SCAV_TABLE s ! i) = None" "\<not> finished (SCAV_TABLE s ! i)"
    by (metis not_None_eq)
  then show ?case
  proof cases
    case 1
    then show ?thesis using skip by auto
  next
    case (2 h)
    obtain l po where push: "push_back_to_list (idx_list (prim s ctx)) NSLOT (int i) = (l, po)" by fastforce
    show ?thesis
    proof (cases po)
      case None
      then show ?thesis using 2 push Cons.prems(2,3) by simp
    next
      case (Some pos)
      note push' = push [unfolded Some]
      have sl: "slot ctx pos"
        using push' readyD(2) [OF r] by (auto simp: push_back_to_list_def first_pos_Some split: option.splits)
      have "ends (if r' + 1 \<ge> demands then Inr (r' + 1, s1)
          else alloc_from_pool E ctx ctx demands idxs (r' + 1) s1) may_exit (\<lambda>(_, s'). exports_ok s' u \<and> own_libs s')"
        if g: "grown E ctx 1 s s1" "abs E s1 = assign (int i) ctx pos (abs E s)"
          "\<forall>h'. h' \<noteq> h \<longrightarrow> libs s1 h' = libs s h'" "sym_crt_pos (libs s1 h) = offset_of_pos pos"
          "map lib_handle (SCAV_TABLE s1) = map lib_handle (SCAV_TABLE s)" for s1 r'
        using place_exports [OF Cons.prems(1,2) u Cons.prems(3) i 2(1,2) sl grownD(1) [OF g(1)] g(2-5)]
          Cons.IH [OF grownD(1) [OF g(1)] _ _ sub] by simp
      then show ?thesis
        using 2 push' place_scav_refines_assign [OF r i 2 push']
        by (auto intro!: ends_bindI)
    qed
  qed
qed simp

lemma no_offers:
  "\<forall>u \<in> set tids. \<not> reallocatable (prim s u) \<Longrightarrow>
   realloc_from_threads E t ctx demands tids r s = Inr (False, r, s)"
  by (induction tids) auto

lemma exports_ok_transfer:
  assumes ex: "exports_ok s t" and ok: "tables_ok E s" and t: "t < MAX_THREAD_NUM"
    and "libs s' = libs s" and "idx_list (prim s' t) = idx_list (prim s t)"
    and "\<And>i. scav_in_range i \<Longrightarrow> lib_handle (scav s' i) = lib_handle (scav s i)"
  shows "exports_ok s' t"
  using ex tables_facts(1) [OF ok, of t] t assms(4-6) by (simp add: exports_ok_def)

lemma after_section_exports:
  assumes r: "ready E t s1" and ex: "exports_ok s1 u" "own_libs s1" and u: "u < MAX_THREAD_NUM"
    and si: "same_but_inited t (unlock_scav_table s1) s3"
  shows "exports_ok (set_special_next t s3) u \<and> own_libs (set_special_next t s3)"
proof -
  let ?s2 = "unlock_scav_table s1"
  note t = readyD(2) [OF r]
  have ok2: "tables_ok E ?s2" and ex2: "exports_ok ?s2 u" and own2: "own_libs ?s2"
    using readyD(1) [OF r] ex by (simp_all add: unlock_scav_table_def exports_ok_def own_libs_def)
  note v = same_but_inited_view(1) [OF si ok2 t]
  note rows = same_but_inited_rows(3) [OF si _ tables_okD(1) [OF ok2]]
  have idx: "idx_list (prim s3 u) = idx_list (prim ?s2 u)"
    using si by (cases "u = t") (simp_all add: same_but_inited_def)
  have "exports_ok s3 u"
    by (rule exports_ok_transfer [OF ex2 ok2 u _ idx]) (use si rows in \<open>auto simp: same_but_inited_def\<close>)
  moreover have "own_libs s3"
    using own2 rows [of "int _"] by (auto simp: own_libs_def inj_on_def scav_in_range_def)
  ultimately show ?thesis
    using set_special_next_eq [OF tables_okD(1) [OF v] t] prim_prim_upd [OF tables_okD(1) [OF v] t]
      exports_ok_cong [of "set_special_next t s3" s3 u] by (simp add: own_libs_def)
qed

lemma allocate_scav_exports:
  assumes inv: "msh_inv E s" and t: "t < MAX_THREAD_NUM" and pk: "packed (idx_list (prim s t))"
    and no: "\<And>u. u < MAX_THREAD_NUM \<Longrightarrow> \<not> reallocatable (prim s u)"
    and own: "own_libs s" and ex: "exports_ok s u" and il: "init_local E" and u: "u < MAX_THREAD_NUM"
  shows "ends (allocate_scav E t t s) may_exit (\<lambda>(_, s'). exports_ok s' u \<and> own_libs s')"
proof (cases "need_more_scav s t = 0")
  case True
  then show ?thesis using ex own by (simp add: allocate_scav_def)
next
  case False
  let ?d = "need_more_scav s t" and ?sL = "s\<lparr>scav_table_lock := BUSY\<rparr>"
  have r: "ready E t ?sL" using inv t pk no by (simp add: ready_def msh_inv_tables)
  have exL: "exports_ok ?sL u" "own_libs ?sL" using ex own by (simp_all add: exports_ok_def own_libs_def)
  have "allocate_scav_locked E t t ?d ?sL =
      alloc_from_pool E t t ?d [0..<MAX_ACTIVE_CRT_NUM_PER_APPLICATION] 0 ?sL"
    using no by (simp add: allocate_scav_locked_def no_offers)
  then have ex1: "ends (allocate_scav_locked E t t ?d ?sL) may_exit (\<lambda>(_, s'). exports_ok s' u \<and> own_libs s')"
    using alloc_from_pool_exports [OF r exL(2) u exL(1), of "[0..<MAX_ACTIVE_CRT_NUM_PER_APPLICATION]" ?d 0]
    by (simp add: lessThan_atLeast0)
  have r1: "ends (allocate_scav_locked E t t ?d ?sL) may_exit (\<lambda>(_, s'). ready E t s')"
    by (rule ends_mono [OF allocate_scav_locked_serves [OF r]]) (auto dest: grownD(1))
  have crit: "ends (allocate_scav_locked E t t ?d ?sL) may_exit
      (\<lambda>z. (case z of (_, s') \<Rightarrow> ready E t s') \<and> (case z of (_, s') \<Rightarrow> exports_ok s' u \<and> own_libs s'))"
    by (rule ends_conj [OF r1 ex1])
  have go: "ends (bindR (call_init_for_new_scav E t (unlock_scav_table s1))
      (\<lambda>s. Inr (cnt, set_special_next t s))) may_exit (\<lambda>(_, s'). exports_ok s' u \<and> own_libs s')"
    if "ready E t s1" "exports_ok s1 u" "own_libs s1" for cnt :: int and s1
  proof (rule ends_bindI)
    have "tables_ok E (unlock_scav_table s1)"
      using readyD(1) [OF that(1)] by (simp add: unlock_scav_table_def)
    from ends_mono [OF call_init_effect [OF il this t]]
    show "ends (call_init_for_new_scav E t (unlock_scav_table s1)) may_exit
        (same_but_inited t (unlock_scav_table s1))" by auto
  qed (use after_section_exports [OF that u] in simp)
  show ?thesis
    using False msh_invD(2) [OF inv]
    by (simp add: allocate_scav_def lock_scav_table_free)
      (rule ends_bindI [OF crit], use go in auto)
qed

text \<open>
  C18. As long as no thread offers its scavengers and every scavenger has a library of its own,
  allocation keeps the positions right: after \<open>allocate_scav\<close> every scavenger that the thread
  hosts, old or new, exports the byte offset of its slot.
\<close>

theorem allocation_exports_slot_offsets:
  assumes inv: "msh_inv E s" and t: "t < MAX_THREAD_NUM" and pk: "packed (idx_list (prim s t))"
    and no: "\<And>u. u < MAX_THREAD_NUM \<Longrightarrow> \<not> reallocatable (prim s u)"
    and own: "own_libs s" and ex: "exports_ok s t" and il: "init_local E"
  shows "ends (allocate_scav E t t s) may_exit (\<lambda>(_, s'). exports_ok s' t)"
  by (rule ends_mono [OF allocate_scav_exports [OF assms t]]) auto

theorem allocation_exports_slot_offsets_witness:
  "own_libs (exporting two_hosts) \<and> exports_ok (exporting two_hosts) 0 \<and>
   ends (allocate_scav rich_env 0 0 (exporting two_hosts)) may_exit (\<lambda>(_, s'). exports_ok s' 0)"
proof -
  let ?s = "exporting two_hosts"
  note pl = sample_placeable(1)
  have t: "0 < MAX_THREAD_NUM" by (simp add: capacities)
  have own: "own_libs ?s"
    using placed_handle [OF pl, of "int _" 2]
    by (auto simp: own_libs_def inj_on_def exporting_def scav_in_range_def)
  have pk: "packed (idx_list (prim ?s 0))"
    using placed_row [OF pl t, of 2] by (simp add: exporting_def sample_rows)
  have no: "\<not> reallocatable (prim ?s u)" if "u < MAX_THREAD_NUM" for u
    using placed_facts(5) [OF pl that, of 2] by (simp add: exporting_def)
  show ?thesis
    using own exporting_ok [OF pl t] pk t
      allocation_exports_slot_offsets [OF exporting_ok(1) [OF pl t] t pk no own exporting_ok(2) [OF pl t]
        init_local_rich] by simp
qed

end
