(* ===== verification/Api.thy ===== *)
theory Api
  imports Exports
begin

text \<open>
  The interface that the pthread wrappers call (\<open>libmsh/msh.h\<close>, end of \<open>libmsh/msh.c\<close>): a thread
  takes a context, and brackets every call in which it may block by \<open>msh_enter_blockable_call\<close> and
  \<open>msh_exit_blockable_call\<close>, between which other threads may take its scavengers.
\<close>

section \<open>Thread-local variables\<close>

text \<open>
  \<open>msh_reallocatable\<close> and \<open>msh_reallocated\<close> are pointers: to the static variable \<open>dummy\<close> until the
  thread has a context, to the two flags of its context afterwards. \<open>gsbase\<close> is null or points
  to the context of the thread.
\<close>

datatype flag_ptr = DummyFlag | CtxFlag nat

record tls =
  gsbase :: "nat option"
  cur_crt_pos :: nat
  msh_tid :: int
  msh_reallocatable :: flag_ptr
  msh_reallocated :: flag_ptr

definition new_thread :: tls where
  "new_thread = \<lparr>gsbase = None, cur_crt_pos = 0, msh_tid = - 1, msh_reallocatable = DummyFlag,
     msh_reallocated = DummyFlag\<rparr>"

fun read_reallocatable :: "flag_ptr \<Rightarrow> msh_state \<Rightarrow> bool" where
  "read_reallocatable DummyFlag s = dummy s"
| "read_reallocatable (CtxFlag t) s = reallocatable (prim s t)"

fun write_reallocatable :: "flag_ptr \<Rightarrow> bool \<Rightarrow> msh_state \<Rightarrow> msh_state" where
  "write_reallocatable DummyFlag b s = s\<lparr>dummy := b\<rparr>"
| "write_reallocatable (CtxFlag t) b s = prim_upd t (\<lambda>c. c\<lparr>reallocatable := b\<rparr>) s"

fun read_reallocated :: "flag_ptr \<Rightarrow> msh_state \<Rightarrow> bool" where
  "read_reallocated DummyFlag s = dummy s"
| "read_reallocated (CtxFlag t) s = reallocated (prim s t)"

section \<open>Operations\<close>

definition msh_alloc_ctx :: "env \<Rightarrow> int \<Rightarrow> tls \<Rightarrow> msh_state \<Rightarrow> (int \<times> tls \<times> msh_state) res" where
  "msh_alloc_ctx E tid th s =
     (let th = th\<lparr>msh_tid := tid, cur_crt_pos := 0\<rparr> in
      if tid \<ge> int MAX_THREAD_NUM then Inr (- 1, th, s)
      else if tid < 0 then Inl OutOfBounds
      else
        let ctx = nat tid; th = th\<lparr>gsbase := Some ctx\<rparr>
        in bindR (allocate_scav E ctx ctx s) (\<lambda>(cnt, s).
           Inr (0, th\<lparr>msh_reallocatable := CtxFlag ctx, msh_reallocated := CtxFlag ctx\<rparr>,
                init_primary_ctx ctx cnt s)))"

definition msh_enter_blockable_call :: "tls \<Rightarrow> msh_state \<Rightarrow> msh_state" where
  "msh_enter_blockable_call th s = write_reallocatable (msh_reallocatable th) True s"

text \<open>
  \<open>Spinning\<close>: the flag is clear, and only another thread can set it. The slow path runs on
  \<open>PRIM_TABLE[msh_tid]\<close>.
\<close>

definition msh_exit_blockable_call :: "env \<Rightarrow> tls \<Rightarrow> msh_state \<Rightarrow> msh_state res" where
  "msh_exit_blockable_call E th s =
     (if \<not> read_reallocatable (msh_reallocatable th) s then Inl Spinning
      else
        let s = write_reallocatable (msh_reallocatable th) False s
        in if read_reallocated (msh_reallocated th) s
           then if msh_tid th < 0 then Inl OutOfBounds
                else let t = nat (msh_tid th)
                     in bindR (allocate_scav E t t s) (\<lambda>(_, s).
                        Inr (prim_upd t (\<lambda>c. c\<lparr>reallocated := False\<rparr>) (tl_update_next_map t s)))
           else Inr s)"

section \<open>Taking a context\<close>

definition owns :: "tls \<Rightarrow> nat \<Rightarrow> bool" where
  "owns th t \<longleftrightarrow> gsbase th = Some t \<and> msh_tid th = int t \<and> msh_reallocatable th = CtxFlag t \<and>
     msh_reallocated th = CtxFlag t"

lemma init_primary_ctx_effect:
  assumes inv: "msh_inv E s" and t: "t < MAX_THREAD_NUM"
  shows "msh_inv E (init_primary_ctx t n s)" "SCAV_TABLE (init_primary_ctx t n s) = SCAV_TABLE s"
    "libs (init_primary_ctx t n s) = libs s"
    "max_scav_per_thread (init_primary_ctx t n s) = max_scav_per_thread s"
    "u \<noteq> t \<Longrightarrow> prim (init_primary_ctx t n s) u = prim s u"
    "idx_list (prim (init_primary_ctx t n s) t) = idx_list (prim s t)"
    "next_of (init_primary_ctx t n s) t 0 = (if n > 0 then 20 else 0)"
    "scav_num (prim (init_primary_ctx t n s) t) = n"
    "\<not> reallocatable (prim (init_primary_ctx t n s) t)" "\<not> reallocated (prim (init_primary_ctx t n s) t)"
proof -
  let ?f = "\<lambda>y. y\<lparr>normal_next := (if n > 0 then to_short (int sizeof_yield_ctx) else 0)\<rparr>"
  let ?g = "\<lambda>c. c\<lparr>scav_num := n, reallocatable := False, reallocated := False\<rparr>"
  have eq: "init_primary_ctx t n s = prim_upd t ?g (yc_upd t 0 ?f s)"
    by (simp add: init_primary_ctx_def Let_def)
  have inv1: "msh_inv E (yc_upd t 0 ?f s)" by (rule msh_inv_yc_upd [OF inv t NSLOT_pos]) simp
  have sh1: "shape (yc_upd t 0 ?f s)" using msh_invD(1) [OF inv1] .
  note p1 = prim_yc_upd [OF msh_invD(1) [OF inv] t] and p2 = prim_prim_upd [OF sh1 t]
  have len: "0 < length (ycs (prim s t))" using msh_invD(6) [OF inv t] NSLOT_pos by (simp add: prim_shape_def)
  show "msh_inv E (init_primary_ctx t n s)"
    unfolding eq
  proof (rule msh_inv_same_view [OF inv1])
    show "shape (prim_upd t ?g (yc_upd t 0 ?f s))"
      by (rule shape_prim_upd [OF sh1 t]) (use msh_invD(6) [OF inv1 t] in \<open>simp add: prim_shape_def\<close>)
  qed (use msh_invD(2) [OF inv1] p2 in simp_all)
  show "next_of (init_primary_ctx t n s) t 0 = (if n > 0 then 20 else 0)"
    using len by (simp add: eq p2 p1 to_short_id)
qed (use prim_yc_upd [OF msh_invD(1) [OF assms(1)] t]
    prim_prim_upd [OF shape_yc_upd [OF msh_invD(1) [OF assms(1)] t] t] in \<open>simp_all add: init_primary_ctx_def Let_def\<close>)

lemma alloc_ctx_ends:
  assumes inv: "msh_inv E s" and tid: "0 \<le> tid" "tid < int MAX_THREAD_NUM"
    and fresh: "hosts s (nat tid) = []" and flag: "\<not> reallocatable (prim s (nat tid))"
    and offers: "\<And>u. u < MAX_THREAD_NUM \<Longrightarrow> reallocatable (prim s u) \<Longrightarrow> packed (idx_list (prim s u))"
    and il: "init_local E"
  shows "ends (msh_alloc_ctx E tid th s) may_exit (\<lambda>(v, th', s'). v = 0 \<and> owns th' (nat tid) \<and>
    cur_crt_pos th' = 0 \<and> msh_inv E s' \<and> packed (idx_list (prim s' (nat tid))) \<and>
    satisfied E (nat tid) s' \<and> scav_num (prim s' (nat tid)) = int (length (hosts s' (nat tid))) \<and>
    next_of s' (nat tid) 0 = (if hosts s' (nat tid) = [] then 0 else int sizeof_yield_ctx) \<and>
    \<not> reallocatable (prim s' (nat tid)) \<and> \<not> reallocated (prim s' (nat tid)) \<and>
    max_scav_per_thread s' = max_scav_per_thread s \<and> gone (abs E s') = gone (abs E s) \<and>
    linked (abs E s') = linked (abs E s) \<and>
    (\<forall>u. u \<noteq> nat tid \<longrightarrow> \<not> reallocatable (prim s u) \<longrightarrow> prim s' u = prim s u))"
proof -
  let ?t = "nat tid"
  have t: "?t < MAX_THREAD_NUM" using tid by (simp add: nat_less_iff)
  have len: "length (idx_list (prim s ?t)) = NSLOT" using msh_invD(6) [OF inv t] by (simp add: prim_shape_def)
  have "packed (idx_list (prim s ?t))"
  proof (rule packed_no_hole)
    show "idx_list (prim s ?t) \<noteq> []" using len NSLOT_pos by (metis length_greater_0_conv)
    show "idx_of s ?t q = - 1" if "0 < p" "p < q" "q < length (idx_list (prim s ?t))" "idx_of s ?t p = - 1" for p q
      using tl_find_unfinished_crt_spec [OF inv t] find_unfinished_hosts [OF inv t] fresh that len by auto
  qed
  then have r: "ready E ?t s" using inv t flag offers by (simp add: ready_def msh_inv_tables)
  have eq: "msh_alloc_ctx E tid th s = bindR (allocate_scav E ?t ?t s) (\<lambda>(cnt, s).
      Inr (0, th\<lparr>msh_tid := tid, cur_crt_pos := 0, gsbase := Some ?t, msh_reallocatable := CtxFlag ?t,
        msh_reallocated := CtxFlag ?t\<rparr>, init_primary_ctx ?t cnt s))"
    using tid by (simp add: msh_alloc_ctx_def Let_def)
  show ?thesis
    unfolding eq
  proof (rule ends_bindI [OF allocate_scav_ends [OF inv r il]])
    fix z assume z: "alloc_post E ?t s z"
    obtain cnt s1 where zz: "z = (cnt, s1)" by (cases z)
    have inv1: "msh_inv E s1" and p1: "packed (idx_list (prim s1 ?t))" "satisfied E ?t s1"
      and c: "cnt = int (length (hosts s1 ?t))" "max_scav_per_thread s1 = max_scav_per_thread s"
      using z fresh by (auto simp: zz alloc_post_def ready_def unhosted_def)
    note i = init_primary_ctx_effect [OF inv1 t, where n = cnt]
    have g: "gone (abs E (init_primary_ctx ?t cnt s1)) = gone (abs E s)"
        "linked (abs E (init_primary_ctx ?t cnt s1)) = linked (abs E s)"
        "u \<noteq> ?t \<Longrightarrow> \<not> reallocatable (prim s u) \<Longrightarrow> prim s1 u = prim s u" for u
      using z abs_same_table(1,2) [OF i(2)] by (auto simp: zz alloc_post_def)
    have h: "hosts (init_primary_ctx ?t cnt s1) ?t = hosts s1 ?t" by (simp add: hosts_def i(6))
    have "satisfied E ?t (init_primary_ctx ?t cnt s1)"
      using p1(2) h i(4) exhausted_cong [OF abs_same_table [OF i(2)]] by (simp add: satisfied_def)
    then show "ends (case z of (cnt, s) \<Rightarrow> Inr (0, th\<lparr>msh_tid := tid, cur_crt_pos := 0, gsbase := Some ?t,
        msh_reallocatable := CtxFlag ?t, msh_reallocated := CtxFlag ?t\<rparr>, init_primary_ctx ?t cnt s)) may_exit
      (\<lambda>(v, th', s'). v = 0 \<and> owns th' ?t \<and> cur_crt_pos th' = 0 \<and> msh_inv E s' \<and>
        packed (idx_list (prim s' ?t)) \<and> satisfied E ?t s' \<and>
        scav_num (prim s' ?t) = int (length (hosts s' ?t)) \<and>
        next_of s' ?t 0 = (if hosts s' ?t = [] then 0 else int sizeof_yield_ctx) \<and>
        \<not> reallocatable (prim s' ?t) \<and> \<not> reallocated (prim s' ?t) \<and>
        max_scav_per_thread s' = max_scav_per_thread s \<and> gone (abs E s') = gone (abs E s) \<and>
        linked (abs E s') = linked (abs E s) \<and>
        (\<forall>u. u \<noteq> ?t \<longrightarrow> \<not> reallocatable (prim s u) \<longrightarrow> prim s' u = prim s u))"
      using i p1(1) h c g tid by (simp add: zz owns_def)
  qed
qed

lemma alloc_ctx_exports:
  assumes "msh_inv E s" and t: "t < MAX_THREAD_NUM" and "packed (idx_list (prim s t))"
    and no: "\<And>u. u < MAX_THREAD_NUM \<Longrightarrow> \<not> reallocatable (prim s u)"
    and "own_libs s" and "exports_ok s u" and il: "init_local E" and "u < MAX_THREAD_NUM"
  shows "ends (msh_alloc_ctx E (int t) th s) may_exit (\<lambda>(v, th', s'). exports_ok s' u \<and> own_libs s')"
proof -
  have r: "ready E t s" using assms by (simp add: ready_def msh_inv_tables)
  have "ends (allocate_scav E t t s) may_exit
      (\<lambda>z. alloc_post E t s z \<and> (case z of (_, s') \<Rightarrow> exports_ok s' u \<and> own_libs s'))"
    by (rule ends_conj [OF allocate_scav_ends [OF assms(1) r il] allocate_scav_exports [OF assms]])
  moreover have "exports_ok (init_primary_ctx t cnt s1) u \<and> own_libs (init_primary_ctx t cnt s1)"
    if "alloc_post E t s (cnt, s1)" "exports_ok s1 u" "own_libs s1" for cnt s1
  proof -
    have inv1: "msh_inv E s1" using that(1) by (simp add: alloc_post_def)
    note i = init_primary_ctx_effect [OF inv1 t, where n = cnt]
    have "idx_list (prim (init_primary_ctx t cnt s1) u) = idx_list (prim s1 u)"
      using i(5,6) by (cases "u = t") simp_all
    then show ?thesis using that(2,3) exports_ok_cong [OF i(3,2)] i(2) by (simp add: own_libs_def)
  qed
  ultimately show ?thesis
    using t by (simp add: msh_alloc_ctx_def Let_def) (erule ends_bindI, auto)
qed

text \<open>
  C14. A thread with a valid id takes its context: when its slots are free and every thread that
  offers its scavengers is packed, \<open>msh_alloc_ctx\<close> exits because a symbol is missing or returns
  0 with the tables in agreement, the thread packed and served as far as cap, room and pool
  allow, \<open>scav_num\<close> the number of hosted scavengers, the primary's link on its first
  scavenger (or itself), both flags clear, and the thread's pointers on its own context.
\<close>

theorem msh_alloc_ctx_gives_context:
  assumes inv: "msh_inv E s" and tid: "0 \<le> tid" "tid < int MAX_THREAD_NUM"
    and fresh: "hosts s (nat tid) = []" and flag: "\<not> reallocatable (prim s (nat tid))"
    and offers: "\<And>u. u < MAX_THREAD_NUM \<Longrightarrow> reallocatable (prim s u) \<Longrightarrow> packed (idx_list (prim s u))"
    and il: "init_local E"
  shows "ends (msh_alloc_ctx E tid th s) may_exit (\<lambda>(v, th', s'). v = 0 \<and> owns th' (nat tid) \<and>
    cur_crt_pos th' = 0 \<and> msh_inv E s' \<and> packed (idx_list (prim s' (nat tid))) \<and>
    satisfied E (nat tid) s' \<and> scav_num (prim s' (nat tid)) = int (length (hosts s' (nat tid))) \<and>
    next_of s' (nat tid) 0 = (if hosts s' (nat tid) = [] then 0 else int sizeof_yield_ctx) \<and>
    \<not> reallocatable (prim s' (nat tid)) \<and> \<not> reallocated (prim s' (nat tid)))"
  by (rule ends_mono [OF alloc_ctx_ends [OF assms]]) auto

theorem msh_alloc_ctx_gives_context_witness:
  "msh_inv rich_env (placed 2 two_hosts) \<and> hosts (placed 2 two_hosts) 3 = [] \<and>
   ends (msh_alloc_ctx rich_env 3 new_thread (placed 2 two_hosts)) may_exit (\<lambda>(v, th', s').
     v = 0 \<and> owns th' 3 \<and> msh_inv rich_env s' \<and> scav_num (prim s' 3) = int (length (hosts s' 3)))"
proof -
  let ?s = "placed 2 two_hosts"
  note pl = sample_placeable(1)
  have t: "3 < MAX_THREAD_NUM" by (simp add: capacities)
  have h: "hosts ?s 3 = []" using placed_row [OF pl t, of 2] by (simp add: hosts_def sample_rows)
  have "ends (msh_alloc_ctx rich_env 3 new_thread ?s) may_exit (\<lambda>(v, th', s').
     v = 0 \<and> owns th' 3 \<and> msh_inv rich_env s' \<and> scav_num (prim s' 3) = int (length (hosts s' 3)))"
    by (rule ends_mono [OF msh_alloc_ctx_gives_context [OF placed_inv [OF pl], of 3 2]])
      (use t h placed_facts(5) [OF pl] init_local_rich in auto)
  then show ?thesis using placed_inv [OF pl, of 2] h by simp
qed

section \<open>Blockable calls\<close>

lemma set_flag_write: "write_reallocatable (CtxFlag t) b = set_flag t b"
  by (simp add: set_flag_def fun_eq_iff)

lemma msh_inv_set_flag:
  assumes "msh_inv E s" and "t < MAX_THREAD_NUM"
  shows "msh_inv E (set_flag t b s)"
  using assms tables_ok_set_flag [OF assms(2), of E s b] by (simp add: msh_inv_tables) (simp add: set_flag_def)

lemma exit_after_reallocation:
  assumes inv: "msh_inv E s" and t: "t < MAX_THREAD_NUM" and o: "owns th t"
    and flags: "reallocatable (prim s t)" "reallocated (prim s t)" and live: "next_of s t 0 \<noteq> - 1"
    and offers: "\<And>u. u < MAX_THREAD_NUM \<Longrightarrow> reallocatable (prim s u) \<Longrightarrow> packed (idx_list (prim s u))"
    and il: "init_local E"
  shows "ends (msh_exit_blockable_call E th s) may_exit (\<lambda>s'. msh_inv E s' \<and>
    (\<forall>u. reallocatable (prim s' u) = (u \<noteq> t \<and> reallocatable (prim s u))) \<and>
    \<not> reallocated (prim s' t) \<and> packed (idx_list (prim s' t)) \<and>
    satisfied E t s' \<and> (\<exists>zs. hosts s' t = hosts s t @ zs) \<and>
    next_of s' t 0 = (if hosts s' t = [] then 0 else int sizeof_yield_ctx) \<and>
    dom (host (abs E s)) \<subseteq> dom (host (abs E s')))"
proof -
  let ?s1 = "set_flag t False s"
  have len: "t < length (PRIM_TABLE s)" using t msh_invD(4) [OF inv] by simp
  note p = prim_set_flag [OF len]
  have inv1: "msh_inv E ?s1" by (rule msh_inv_set_flag [OF inv t])
  have r: "ready E t ?s1" using inv1 t flags offers by (auto simp: ready_def msh_inv_tables p)
  have h1: "hosts ?s1 t = hosts s t" "next_of ?s1 t 0 \<noteq> - 1" using live by (simp_all add: hosts_def p)
  have eq: "msh_exit_blockable_call E th s = bindR (bindR (allocate_scav E t t ?s1)
      (\<lambda>(_, s). Inr (tl_update_next_map t s))) (\<lambda>s. Inr (prim_upd t (\<lambda>c. c\<lparr>reallocated := False\<rparr>) s))"
    using o flags len
    by (simp add: msh_exit_blockable_call_def owns_def Let_def set_flag_def prim_nth_upd bindR_assoc
        split_def)
  show ?thesis
    unfolding eq
  proof (rule ends_bindI [OF refill [OF inv1 r il h1(2)]], elim conjE)
    fix s2 assume s2: "msh_inv E s2" "packed (idx_list (prim s2 t))" "satisfied E t s2"
       "next_of s2 t 0 = (if hosts s2 t = [] then 0 else int sizeof_yield_ctx)"
       "\<exists>zs. hosts s2 t = hosts ?s1 t @ zs" "\<forall>u. reallocatable (prim s2 u) = reallocatable (prim ?s1 u)"
       "dom (host (abs E ?s1)) \<subseteq> dom (host (abs E s2))"
    let ?s3 = "prim_upd t (\<lambda>c. c\<lparr>reallocated := False\<rparr>) s2"
    note q = prim_prim_upd [OF msh_invD(1) [OF s2(1)] t, of "\<lambda>c. c\<lparr>reallocated := False\<rparr>"]
    have "msh_inv E ?s3"
    proof (rule msh_inv_same_view [OF s2(1)])
      show "shape ?s3"
        by (rule shape_prim_upd [OF msh_invD(1) [OF s2(1)] t])
          (use msh_invD(6) [OF s2(1) t] in \<open>simp add: prim_shape_def\<close>)
    qed (use msh_invD(2) [OF s2(1)] q in simp_all)
    moreover have "satisfied E t ?s3"
      using s2(3) q exhausted_cong [OF abs_same_table, of ?s3 s2 E] by (simp add: satisfied_def hosts_def)
    moreover have "dom (host (abs E s)) \<subseteq> dom (host (abs E ?s3))"
      using s2(7) abs_same_table(3) [of ?s3 s2 E] len by simp
    ultimately show "ends (Inr ?s3) may_exit (\<lambda>s'. msh_inv E s' \<and>
        (\<forall>u. reallocatable (prim s' u) = (u \<noteq> t \<and> reallocatable (prim s u))) \<and>
        \<not> reallocated (prim s' t) \<and> packed (idx_list (prim s' t)) \<and> satisfied E t s' \<and>
        (\<exists>zs. hosts s' t = hosts s t @ zs) \<and>
        next_of s' t 0 = (if hosts s' t = [] then 0 else int sizeof_yield_ctx) \<and>
        dom (host (abs E s)) \<subseteq> dom (host (abs E s')))"
      using s2 q h1(1) by (simp add: hosts_def p)
  qed
qed

text \<open>
  C15. Coming back from a blockable call after scavengers were taken: with its flag set, its slots
  and those of every offering thread packed, the thread leaves with its flag clear, keeps the
  scavengers it still has in their order, is served again as far as cap, room and pool allow,
  its primary links to its first scavenger (or itself), and \<open>reallocated\<close> is reset.
\<close>
theorem disturbed_blockable_call_refills:
  assumes "msh_inv E s" and "t < MAX_THREAD_NUM" and "owns th t"
    and "reallocatable (prim s t)" and "reallocated (prim s t)" and "next_of s t 0 \<noteq> - 1"
    and "\<And>u. u < MAX_THREAD_NUM \<Longrightarrow> reallocatable (prim s u) \<Longrightarrow> packed (idx_list (prim s u))"
    and "init_local E"
  shows "ends (msh_exit_blockable_call E th s) may_exit (\<lambda>s'. msh_inv E s' \<and>
    \<not> reallocatable (prim s' t) \<and> \<not> reallocated (prim s' t) \<and> packed (idx_list (prim s' t)) \<and>
    satisfied E t s' \<and> (\<exists>zs. hosts s' t = hosts s t @ zs) \<and>
    next_of s' t 0 = (if hosts s' t = [] then 0 else int sizeof_yield_ctx))"
  by (rule ends_mono [OF exit_after_reallocation [OF assms]]) auto

text \<open>A placed state in which thread 0 is blocked and scavengers were taken from it.\<close>

definition owner0 :: tls where
  "owner0 = new_thread\<lparr>gsbase := Some 0, msh_tid := 0, msh_reallocatable := CtxFlag 0,
     msh_reallocated := CtxFlag 0\<rparr>"

definition robbed :: msh_state where
  "robbed = prim_upd 0 (\<lambda>c. c\<lparr>reallocatable := True, reallocated := True\<rparr>) (placed 2 two_hosts)"

lemma robbed_ok:
  "msh_inv rich_env robbed" "prim robbed 0 = (prim (placed 2 two_hosts) 0)\<lparr>reallocatable := True, reallocated := True\<rparr>"
  "u \<noteq> 0 \<Longrightarrow> prim robbed u = prim (placed 2 two_hosts) u"
proof -
  have t: "0 < MAX_THREAD_NUM" by (simp add: capacities)
  note inv = placed_inv [OF sample_placeable(1), of 2]
  note q = prim_prim_upd [OF msh_invD(1) [OF inv] t]
  show "msh_inv rich_env robbed"
    unfolding robbed_def
  proof (rule msh_inv_same_view [OF inv])
    show "shape (prim_upd 0 (\<lambda>c. c\<lparr>reallocatable := True, reallocated := True\<rparr>) (placed 2 two_hosts))"
      by (rule shape_prim_upd [OF msh_invD(1) [OF inv] t])
        (use msh_invD(6) [OF inv t] in \<open>simp add: prim_shape_def\<close>)
  qed (use msh_invD(2) [OF inv] q in simp_all)
qed (use prim_prim_upd [OF msh_invD(1) [OF placed_inv [OF sample_placeable(1), of 2]], of 0] in
    \<open>simp_all add: robbed_def capacities\<close>)

theorem disturbed_blockable_call_refills_witness:
  "msh_inv rich_env robbed \<and> reallocated (prim robbed 0) \<and> hosts robbed 0 = [7] \<and>
   ends (msh_exit_blockable_call rich_env owner0 robbed) may_exit (\<lambda>s'. msh_inv rich_env s' \<and>
     \<not> reallocated (prim s' 0) \<and> hd (hosts s' 0) = 7 \<and> next_of s' 0 0 = 20)"
proof -
  note pl = sample_placeable(1)
  have t: "0 < MAX_THREAD_NUM" by (simp add: capacities)
  have o: "owns owner0 0" by (simp add: owns_def owner0_def)
  have h: "hosts robbed 0 = [7]" and pk: "packed (idx_list (prim robbed 0))"
    using placed_row [OF pl t, of 2] by (simp_all add: hosts_def robbed_ok(2) sample_rows)
  have "ends (msh_exit_blockable_call rich_env owner0 robbed) may_exit (\<lambda>s'. msh_inv rich_env s' \<and>
     \<not> reallocated (prim s' 0) \<and> hd (hosts s' 0) = 7 \<and> next_of s' 0 0 = 20)"
  proof (rule ends_mono [OF disturbed_blockable_call_refills [OF robbed_ok(1) t o]])
    show "next_of robbed 0 0 \<noteq> - 1" using placed_facts(1) [OF pl t, of 2] by (simp add: robbed_ok(2))
    show "packed (idx_list (prim robbed u))" if "u < MAX_THREAD_NUM" "reallocatable (prim robbed u)" for u
      using that pk placed_facts(5) [OF pl that(1), of 2] robbed_ok(3) [of u] by (cases "u = 0") auto
  qed (use h init_local_rich in \<open>auto simp: robbed_ok(2)\<close>)
  then show ?thesis using robbed_ok(1,2) h by simp
qed

end
