(* ===== verification/Flag_Protocol.thy ===== *)
theory Flag_Protocol
  imports Api
begin

text \<open>
  How threads share contexts. First the sequential composition: a thread blocks, another one takes
  its scavengers, the first comes back. Then the protocol on the \<open>reallocatable\<close> flags under every
  interleaving: entering stores \<open>true\<close>, leaving and taking are compare-and-swaps from \<open>true\<close> to
  \<open>false\<close>, and giving back stores \<open>true\<close>. Last, what goes wrong for threads without a context.
\<close>

section \<open>Handing scavengers over\<close>

text \<open>
  C6. A whole hand-over: thread \<open>t\<close> enters a blockable call, thread \<open>u\<close> allocates (taking
  scavengers from \<open>t\<close> as it needs them), and \<open>t\<close> comes back. Unless a symbol is missing, the
  tables agree afterwards, both threads are packed, no flag is left set, the primary of \<open>t\<close> is
  still live, and every scavenger that had a host has one.
\<close>

theorem handover_keeps_scavengers_hosted:
  assumes inv: "msh_inv E s" and t: "t < MAX_THREAD_NUM" and u: "u < MAX_THREAD_NUM" and ne: "t \<noteq> u"
    and o: "owns th t" and clear: "\<And>v. v < MAX_THREAD_NUM \<Longrightarrow> \<not> reallocatable (prim s v)" "\<not> reallocated (prim s t)"
    and pk: "packed (idx_list (prim s t))" "packed (idx_list (prim s u))"
    and live: "next_of s t 0 \<noteq> - 1" and il: "init_local E"
  shows "ends (bindR (allocate_scav E u u (msh_enter_blockable_call th s))
      (\<lambda>(_, s). msh_exit_blockable_call E th s)) may_exit
    (\<lambda>s'. msh_inv E s' \<and> (\<forall>v < MAX_THREAD_NUM. \<not> reallocatable (prim s' v)) \<and> \<not> reallocated (prim s' t) \<and>
      packed (idx_list (prim s' t)) \<and> next_of s' t 0 \<noteq> - 1 \<and>
      dom (host (abs E s)) \<subseteq> dom (host (abs E s')))"
proof -
  let ?s1 = "set_flag t True s"
  have len: "t < length (PRIM_TABLE s)" using t msh_invD(4) [OF inv] by simp
  note p = prim_set_flag [OF len]
  have e: "msh_enter_blockable_call th s = ?s1"
    using o by (simp add: msh_enter_blockable_call_def owns_def set_flag_def)
  have inv1: "msh_inv E ?s1" by (rule msh_inv_set_flag [OF inv t])
  have r: "ready E u ?s1" using inv1 u clear(1) pk ne by (simp add: ready_def msh_inv_tables p)
  show ?thesis
    unfolding e
  proof (rule ends_bindI [OF allocate_scav_ends [OF inv1 r il]])
    fix z assume z: "alloc_post E u ?s1 z"
    obtain cnt s2 where zz: "z = (cnt, s2)" by (cases z)
    have s2: "msh_inv E s2" "ready E u s2" "dom (host (abs E ?s1)) \<subseteq> dom (host (abs E s2))"
        "next_of s2 t 0 = next_of ?s1 t 0" "\<And>v. v < MAX_THREAD_NUM \<Longrightarrow> reallocatable (prim s2 v) = (v = t)"
      using z ne clear(1) by (auto simp: zz alloc_post_def p)
    have live2: "next_of s2 t 0 \<noteq> - 1" using s2(4) live by (simp add: p)
    have offers: "packed (idx_list (prim s2 v))" if "v < MAX_THREAD_NUM" "reallocatable (prim s2 v)" for v
      using that s2(2) by (simp add: ready_def)
    have dom2: "dom (host (abs E s)) \<subseteq> dom (host (abs E s2))" using s2(3) len by simp
    have len2: "t < length (PRIM_TABLE s2)" using t msh_invD(4) [OF s2(1)] by simp
    show "ends (case z of (_, s) \<Rightarrow> msh_exit_blockable_call E th s) may_exit
      (\<lambda>s'. msh_inv E s' \<and> (\<forall>v < MAX_THREAD_NUM. \<not> reallocatable (prim s' v)) \<and> \<not> reallocated (prim s' t) \<and>
        packed (idx_list (prim s' t)) \<and> next_of s' t 0 \<noteq> - 1 \<and>
        dom (host (abs E s)) \<subseteq> dom (host (abs E s')))"
    proof (cases "reallocated (prim s2 t)")
      case True
      have "reallocatable (prim s2 t)" using s2(5) t by simp
      from exit_after_reallocation [OF s2(1) t o this True live2 offers il] show ?thesis
        unfolding zz prod.case
        by (rule ends_mono) (use s2(5) subset_trans [OF dom2] in \<open>simp_all split: if_splits\<close>)
    next
      case False
      have "msh_exit_blockable_call E th s2 = Inr (set_flag t False s2)"
        using o False s2(5) t len2
        by (simp add: msh_exit_blockable_call_def owns_def Let_def set_flag_def prim_nth_upd)
      then show ?thesis
        using msh_inv_set_flag [OF s2(1) t, of False] offers [OF t] s2(5) t False live2 dom2 len2
        by (simp add: zz prim_set_flag [OF len2])
    qed
  qed
qed

definition owner_of :: "nat \<Rightarrow> tls" where
  "owner_of t = new_thread\<lparr>gsbase := Some t, msh_tid := int t, msh_reallocatable := CtxFlag t,
     msh_reallocated := CtxFlag t\<rparr>"

theorem handover_keeps_scavengers_hosted_witness:
  "owns (owner_of 2) 2 \<and> hosts (placed 3 two_hosts) 2 = [8, 9] \<and>
   ends (bindR (allocate_scav rich_env 0 0 (msh_enter_blockable_call (owner_of 2) (placed 3 two_hosts)))
      (\<lambda>(_, s). msh_exit_blockable_call rich_env (owner_of 2) s)) may_exit
    (\<lambda>s'. msh_inv rich_env s' \<and> \<not> reallocatable (prim s' 2) \<and> 9 \<in> dom (host (abs rich_env s')))"
proof -
  let ?s = "placed 3 two_hosts"
  note pl = sample_placeable(1)
  have t: "0 < MAX_THREAD_NUM" "2 < MAX_THREAD_NUM" by (simp_all add: capacities)
  have o: "owns (owner_of 2) 2" by (simp add: owns_def owner_of_def)
  have rows: "idx_list (prim ?s 0) = idx_row two_hosts 0" "idx_list (prim ?s 2) = idx_row two_hosts 2"
    using placed_row [OF pl t(1)] placed_row [OF pl t(2)] by auto
  have nr: "\<not> reallocated (prim ?s 2)" using placed_ok [OF pl, of 3] t by (simp add: agrees_def)
  have hst: "9 \<in> dom (host (abs rich_env ?s))"
    using placed_yc [OF pl, of 9 rich_env 3] by (simp add: dom_def scav_in_range_def capacities)
      (simp add: two_hosts_def)
  have "ends (bindR (allocate_scav rich_env 0 0 (msh_enter_blockable_call (owner_of 2) ?s))
      (\<lambda>(_, s). msh_exit_blockable_call rich_env (owner_of 2) s)) may_exit
    (\<lambda>s'. msh_inv rich_env s' \<and> (\<forall>v < MAX_THREAD_NUM. \<not> reallocatable (prim s' v)) \<and>
      \<not> reallocated (prim s' 2) \<and> packed (idx_list (prim s' 2)) \<and> next_of s' 2 0 \<noteq> - 1 \<and>
      dom (host (abs rich_env ?s)) \<subseteq> dom (host (abs rich_env s')))"
    by (rule handover_keeps_scavengers_hosted [OF placed_inv [OF pl] t(2,1) _ o placed_facts(5) [OF pl] nr])
      (use init_local_rich placed_facts(1) [OF pl t(2), of 3] in \<open>simp_all add: rows sample_rows\<close>)
  then have "ends (bindR (allocate_scav rich_env 0 0 (msh_enter_blockable_call (owner_of 2) ?s))
      (\<lambda>(_, s). msh_exit_blockable_call rich_env (owner_of 2) s)) may_exit
    (\<lambda>s'. msh_inv rich_env s' \<and> \<not> reallocatable (prim s' 2) \<and> 9 \<in> dom (host (abs rich_env s')))"
    by (rule ends_mono) (use hst t in blast)+
  then show ?thesis using o rows by (simp add: hosts_def sample_rows)
qed

section \<open>The flags under interleaving\<close>

text \<open>
  The owner of a context is running or inside a blockable call; \<open>taker\<close> is the thread that moves
  scavengers out of the context at the moment. A failed compare-and-swap changes nothing and is
  not a step. \<open>Take\<close> is the \<open>CAS\<close> of \<open>_allocate_scav\<close>, \<open>Give\<close> its \<open>t->reallocatable = true\<close>.
\<close>

datatype phase = Running | Blocked

record flags =
  flag :: "nat \<Rightarrow> bool"
  phase_of :: "nat \<Rightarrow> phase"
  taker :: "nat \<Rightarrow> nat option"

inductive flag_step :: "flags \<Rightarrow> flags \<Rightarrow> bool" where
  Enter: "phase_of c t = Running \<Longrightarrow>
    flag_step c (c\<lparr>flag := (flag c)(t := True), phase_of := (phase_of c)(t := Blocked)\<rparr>)"
| Exit: "phase_of c t = Blocked \<Longrightarrow> flag c t \<Longrightarrow>
    flag_step c (c\<lparr>flag := (flag c)(t := False), phase_of := (phase_of c)(t := Running)\<rparr>)"
| Take: "flag c t \<Longrightarrow> u \<noteq> t \<Longrightarrow>
    flag_step c (c\<lparr>flag := (flag c)(t := False), taker := (taker c)(t := Some u)\<rparr>)"
| Give: "taker c t = Some u \<Longrightarrow>
    flag_step c (c\<lparr>flag := (flag c)(t := True), taker := (taker c)(t := None)\<rparr>)"

inductive_cases flag_stepE: "flag_step c d"

definition flags_start :: "flags \<Rightarrow> bool" where
  "flags_start c \<longleftrightarrow> (\<forall>t. \<not> flag c t \<and> phase_of c t = Running \<and> taker c t = None)"

definition flags_inv :: "flags \<Rightarrow> bool" where
  "flags_inv c \<longleftrightarrow> (\<forall>t. (flag c t \<longleftrightarrow> phase_of c t = Blocked \<and> taker c t = None) \<and>
     (taker c t \<noteq> None \<longrightarrow> phase_of c t = Blocked))"

interpretation realloc_flags: inv_system flags_start flag_step flags_inv
proof
  show "flags_inv c" if "flags_start c" for c using that by (simp add: flags_start_def flags_inv_def)
  show "flags_inv d" if "flags_inv c" "flag_step c d" for c d
    using that(2,1) by (cases rule: flag_stepE) (auto simp: flags_inv_def split: if_splits)
qed

text \<open>
  C16. Exclusive access to a context: under every interleaving of entering, leaving, taking and
  giving back, no other thread moves scavengers out of a context while its owner is running,
  so the owner never has to lock its own tables.
\<close>

theorem running_owner_has_exclusive_access:
  assumes "flags_start c0" and "flag_step\<^sup>*\<^sup>* c0 c" and "phase_of c t = Running"
  shows "taker c t = None \<and> \<not> flag c t"
  using realloc_flags.inv_reachable [OF assms(1,2)] assms(3) by (auto simp: flags_inv_def)

definition idle_flags :: flags where
  "idle_flags = \<lparr>flag = (\<lambda>_. False), phase_of = (\<lambda>_. Running), taker = (\<lambda>_. None)\<rparr>"

definition blocked0 :: flags where
  "blocked0 = idle_flags\<lparr>flag := (flag idle_flags)(0 := True), phase_of := (phase_of idle_flags)(0 := Blocked)\<rparr>"

lemma blocked0_reachable: "flags_start idle_flags" "flag_step\<^sup>*\<^sup>* idle_flags blocked0"
  using Enter [of idle_flags 0] by (auto simp: flags_start_def idle_flags_def blocked0_def)

theorem running_owner_has_exclusive_access_witness:
  "flags_start idle_flags \<and> flag_step\<^sup>*\<^sup>* idle_flags blocked0 \<and> phase_of blocked0 1 = Running \<and>
   taker blocked0 1 = None"
proof -
  have "phase_of blocked0 1 = Running" by (simp add: blocked0_def idle_flags_def)
  then show ?thesis using blocked0_reachable running_owner_has_exclusive_access by blast
qed

text \<open>
  C17. The busy wait of \<open>msh_exit_blockable_call\<close> can end: from every reachable state in which a
  thread is inside a blockable call, it can leave within two steps (the taker, if there is one,
  gives the flag back, then the thread's compare-and-swap succeeds).
\<close>

theorem blocked_owner_can_leave:
  assumes "flags_start c0" and "flag_step\<^sup>*\<^sup>* c0 c" and "phase_of c t = Blocked"
  shows "\<exists>d. flag_step\<^sup>*\<^sup>* c d \<and> phase_of d t = Running"
proof -
  have inv: "flags_inv c" using realloc_flags.inv_reachable [OF assms(1,2)] .
  show ?thesis
  proof (cases "taker c t")
    case None
    then have "flag c t" using inv assms(3) by (simp add: flags_inv_def)
    then show ?thesis using Exit [OF assms(3)] by (metis flags.select_convs(2) flags.surjective
        flags.update_convs(1,2) fun_upd_same r_into_rtranclp)
  next
    case (Some u)
    let ?c1 = "c\<lparr>flag := (flag c)(t := True), taker := (taker c)(t := None)\<rparr>"
    let ?d = "?c1\<lparr>flag := (flag ?c1)(t := False), phase_of := (phase_of ?c1)(t := Running)\<rparr>"
    have "flag_step c ?c1" using Give [OF Some] .
    moreover have "flag_step ?c1 ?d" by (rule Exit) (use assms(3) in simp_all)
    ultimately have "flag_step\<^sup>*\<^sup>* c ?d" by simp
    then show ?thesis by (intro exI [of _ ?d]) simp
  qed
qed

theorem blocked_owner_can_leave_witness:
  "phase_of blocked0 0 = Blocked \<and> (\<exists>d. flag_step\<^sup>*\<^sup>* blocked0 d \<and> phase_of d 0 = Running)"
proof -
  have "phase_of blocked0 0 = Blocked" by (simp add: blocked0_def)
  then show ?thesis using blocked_owner_can_leave [OF blocked0_reachable] by blast
qed

section \<open>Threads without a context\<close>

text \<open>
  C36. Threads that have no context share the one flag \<open>dummy\<close>. If two of them are inside a
  blockable call at the same time, the first to leave clears the flag of both, and the second
  spins: its \<open>msh_exit_blockable_call\<close> cannot return by itself.
\<close>

theorem contextless_threads_block_each_other:
  "bindR (msh_exit_blockable_call E new_thread
      (msh_enter_blockable_call new_thread (msh_enter_blockable_call new_thread s)))
    (msh_exit_blockable_call E new_thread) = Inl Spinning"
  by (simp add: msh_exit_blockable_call_def msh_enter_blockable_call_def new_thread_def Let_def)

section \<open>More than one offer\<close>

text \<open>
  C35. \<open>_allocate_scav\<close> asks every offering thread for the whole demand, not for what is still
  missing. With two offers, of which the first is too small and the second alone is enough, the
  taking thread ends up with more scavengers than it demanded, by the size of the first offer.
\<close>

theorem two_offers_exceed_demand:
  assumes r: "ready E ctx s" and ab: "a \<noteq> b" "a < MAX_THREAD_NUM" "b < MAX_THREAD_NUM"
    and fl: "reallocatable (prim s a)" "reallocatable (prim s b)"
    and few: "length (hosted (prim s a)) < d" and enough: "d \<le> length (hosted (prim s b))"
    and room: "length (hosted (prim s ctx)) + length (hosted (prim s a)) + d \<le> MAX_CRT_PER_THREAD"
  shows "ends (realloc_from_threads E ctx ctx (int d) [a, b] 0 s) never (\<lambda>(met, cnt, s'). met \<and>
    cnt = int (length (hosted (prim s a)) + d) \<and>
    length (hosted (prim s' ctx)) = length (hosted (prim s ctx)) + length (hosted (prim s a)) + d)"
proof -
  let ?n = "length (hosted (prim s a))"
  have bc: "b \<noteq> ctx" using fl(2) readyD(4) [OF r] by auto
  have tr1: "transferable s a ctx (int d) = ?n" using few room by (simp add: transferable_def)
  obtain s1 where s1: "realloc_scav E ctx a ctx (int d) (set_flag a False s) = Inr (int ?n, s1)"
      "grown E ctx ?n s (set_flag a True s1)" "prim (set_flag a True s1) b = prim s b"
    using realloc_from_one [OF r ab(2) fl(1), of "int d"] ab(1) bc by (auto simp: ends_never tr1)
  let ?s1 = "set_flag a True s1"
  have fl1: "reallocatable (prim ?s1 b)" using s1(3) fl(2) by simp
  have tr2: "transferable ?s1 b ctx (int d) = d"
    using enough room grownD(2) [OF s1(2)] s1(3) by (simp add: transferable_def)
  obtain s2 where s2: "realloc_scav E ctx b ctx (int d) (set_flag b False ?s1) = Inr (int d, s2)"
      "grown E ctx d ?s1 (set_flag b True s2)"
    using realloc_from_one [OF grownD(1) [OF s1(2)] ab(3) fl1, of "int d"] by (auto simp: ends_never tr2)
  show ?thesis
    using s1(1) s2(1) fl(1) fl1 few grownD(2) [OF s1(2)] grownD(2) [OF s2(2)]
    by (simp add: set_flag_def [symmetric] Let_def)
qed

definition three_hosts :: "(int \<times> nat \<times> nat) list" where
  "three_hosts = [(1, 0, 1), (2, 2, 1), (3, 2, 2)]"

definition two_offers :: msh_state where
  "two_offers = set_flag 2 True (set_flag 0 True (placed 2 three_hosts))"

theorem two_offers_exceed_demand_witness:
  "ready rich_env 3 two_offers \<and> ends (realloc_from_threads rich_env 3 3 2 [0, 2] 0 two_offers) never
     (\<lambda>(met, cnt, s'). met \<and> cnt = 3 \<and> length (hosted (prim s' 3)) = 3)"
proof -
  let ?s = "placed 2 three_hosts"
  have pl: "placeable three_hosts" by code_simp
  have rows: "packed (idx_row three_hosts 0)" "items (idx_row three_hosts 0) = [1]"
      "packed (idx_row three_hosts 2)" "items (idx_row three_hosts 2) = [2, 3]"
      "packed (idx_row three_hosts 3)" "items (idx_row three_hosts 3) = []"
    by code_simp+
  have t: "0 < MAX_THREAD_NUM" "2 < MAX_THREAD_NUM" "3 < MAX_THREAD_NUM" by (simp_all add: capacities)
  have ok: "tables_ok rich_env ?s" using placed_ok [OF pl] by simp
  have len: "length (PRIM_TABLE ?s) = MAX_THREAD_NUM" using tables_okD(3) [OF ok] .
  have p: "prim two_offers u = (if u = 2 \<or> u = 0 then (prim ?s u)\<lparr>reallocatable := True\<rparr> else prim ?s u)" for u
    using t len by (simp add: two_offers_def prim_set_flag) (simp add: set_flag_def prim_nth_upd)
  have ok2: "tables_ok rich_env two_offers"
    using ok t unfolding two_offers_def by (intro tables_ok_set_flag)
  have h: "length (hosted (prim two_offers 0)) = 1" "length (hosted (prim two_offers 2)) = 2"
      "length (hosted (prim two_offers 3)) = 0"
    using arg_cong [OF placed_hosted [OF pl t(1), of 2], of length]
      arg_cong [OF placed_hosted [OF pl t(2), of 2], of length]
      arg_cong [OF placed_hosted [OF pl t(3), of 2], of length] by (simp_all add: p rows)
  have idx: "packed (idx_list (prim two_offers u))" if "u = 0 \<or> u = 2 \<or> u = 3" for u
    using that rows placed_row [OF pl t(1), of 2] placed_row [OF pl t(2), of 2] placed_row [OF pl t(3), of 2]
    by (auto simp: p)
  have fl: "reallocatable (prim two_offers u) \<longleftrightarrow> u = 0 \<or> u = 2" if "u < MAX_THREAD_NUM" for u
    using placed_facts(5) [OF pl that, of 2] by (auto simp: p)
  have r: "ready rich_env 3 two_offers" using ok2 t idx fl by (simp add: ready_def)
  have "ends (realloc_from_threads rich_env 3 3 (int 2) [0, 2] 0 two_offers) never (\<lambda>(met, cnt, s'). met \<and>
      cnt = int (length (hosted (prim two_offers 0)) + 2) \<and> length (hosted (prim s' 3)) =
        length (hosted (prim two_offers 3)) + length (hosted (prim two_offers 0)) + 2)"
    by (rule two_offers_exceed_demand [OF r _ t(1,2)]) (use fl t h in \<open>simp_all add: capacities\<close>)
  then have "ends (realloc_from_threads rich_env 3 3 2 [0, 2] 0 two_offers) never
     (\<lambda>(met, cnt, s'). met \<and> cnt = 3 \<and> length (hosted (prim s' 3)) = 3)"
    unfolding of_nat_numeral by (rule ends_mono) (auto simp: h)
  then show ?thesis using r by blast
qed

end
