(* ===== verification/C_Library.thy ===== *)
theory C_Library
  imports Prelude
begin

text \<open>
  The conversions of strings to numbers that the wrappers and the sample programs call:
  \<open>atoi\<close> (leading white space, an optional sign, digits; saturating at the range of \<open>long\<close> and
  cut to \<open>int\<close>) and \<open>std::stoull\<close> (which throws when there is no digit or the value does not fit).
\<close>

definition is_space :: "char \<Rightarrow> bool" where
  "is_space c \<longleftrightarrow> of_char c \<in> {9, 10, 11, 12, 13, 32 :: nat}"

definition is_digit :: "char \<Rightarrow> bool" where
  "is_digit c \<longleftrightarrow> 48 \<le> (of_char c :: int) \<and> (of_char c :: int) \<le> 57"

fun digits_value :: "int \<Rightarrow> string \<Rightarrow> int" where
  "digits_value acc [] = acc"
| "digits_value acc (c # cs) =
     (if is_digit c then digits_value (acc * 10 + (of_char c - 48)) cs else acc)"

definition split_sign :: "string \<Rightarrow> bool \<times> string" where
  "split_sign cs = (case dropWhile is_space cs of
     [] \<Rightarrow> (False, [])
   | c # ds \<Rightarrow> if c = CHR ''-'' then (True, ds) else if c = CHR ''+'' then (False, ds) else (False, c # ds))"

definition atoi :: "string \<Rightarrow> int" where
  "atoi cs = (case split_sign cs of (neg, ds) \<Rightarrow>
     let v = digits_value 0 ds; v = (if neg then - v else v)
     in to_int (max (- (2 ^ 63)) (min (2 ^ 63 - 1) v)))"

text \<open>\<open>None\<close>: an exception leaves the function.\<close>

definition stoull :: "string \<Rightarrow> int option" where
  "stoull cs = (case split_sign cs of (neg, ds) \<Rightarrow>
     if ds = [] \<or> \<not> is_digit (hd ds) then None
     else let v = digits_value 0 ds
          in if v \<ge> 2 ^ 64 then None else Some ((if neg then - v else v) mod 2 ^ 64))"

lemma digits_value_mono: "0 \<le> acc \<Longrightarrow> acc \<le> digits_value acc cs"
proof (induction acc cs rule: digits_value.induct)
  case (2 acc c cs)
  show ?case
  proof (cases "is_digit c")
    case True
    then have "(0 :: int) \<le> of_char c - 48" by (simp add: is_digit_def)
    then show ?thesis using 2 True by simp
  qed simp
qed simp

end
