(* ===== verification/Pthread.thy ===== *)
theory Pthread
  imports Flag_Protocol C_Library
begin

text \<open>
  The preloaded wrappers of \<open>libmsh/pthread.c\<close>: thread creation initialises the runtime and gives
  every thread a context, blocking calls are bracketed by the blockable-call interface, and
  joining cleans up the first thread.
\<close>

section \<open>State and the functions behind the wrappers\<close>

text \<open>
  \<open>original\<close> holds the pointers \<open>original_pthread_...\<close>, null until the first call resolves them.
\<close>

record pt_state =
  runtime :: msh_state
  thread_cnt :: int
  first_join :: bool
  original :: "string \<Rightarrow> 64 word option"

record msh_start_routine_arg =
  start_routine :: "64 word"
  user_arg :: "64 word"
  thread_id :: int

text \<open>
  Code outside the repository: \<open>next_sym\<close> is \<open>dlsym(RTLD_NEXT, name)\<close>; \<open>invoke\<close> calls a resolved
  function with its arguments (other threads act on the shared state meanwhile); \<open>spawn\<close> calls the
  resolved \<open>pthread_create\<close> on \<open>msh_start_routine\<close>; \<open>run_user\<close> runs the thread's own routine.
\<close>

record libc =
  next_sym :: "string \<Rightarrow> 64 word option"
  invoke :: "64 word \<Rightarrow> 64 word list \<Rightarrow> pt_state \<Rightarrow> int \<times> pt_state"
  spawn :: "64 word \<Rightarrow> 64 word \<Rightarrow> 64 word \<Rightarrow> msh_start_routine_arg \<Rightarrow> pt_state \<Rightarrow> int \<times> pt_state"
  run_user :: "64 word \<Rightarrow> 64 word \<Rightarrow> tls \<Rightarrow> pt_state \<Rightarrow> 64 word \<times> pt_state"

definition resolve :: "libc \<Rightarrow> string \<Rightarrow> pt_state \<Rightarrow> (64 word \<times> pt_state) res" where
  "resolve L name s =
     (case original s name of
        Some f \<Rightarrow> Inr (f, s)
      | None \<Rightarrow> (case next_sym L name of
            None \<Rightarrow> Inl NullPointer
          | Some f \<Rightarrow> Inr (f, s\<lparr>original := (original s)(name := Some f)\<rparr>)))"

section \<open>Blocking and non-blocking calls\<close>

definition blockable_call ::
  "env \<Rightarrow> libc \<Rightarrow> tls \<Rightarrow> string \<Rightarrow> 64 word list \<Rightarrow> pt_state \<Rightarrow> (int \<times> pt_state) res" where
  "blockable_call E L th name args s =
     (let s = s\<lparr>runtime := msh_enter_blockable_call th (runtime s)\<rparr>
      in bindR (resolve L name s) (\<lambda>(f, s).
         let (ret, s) = invoke L f args s
         in bindR (msh_exit_blockable_call E th (runtime s)) (\<lambda>m. Inr (ret, s\<lparr>runtime := m\<rparr>))))"

definition pthread_mutex_lock :: "env \<Rightarrow> libc \<Rightarrow> tls \<Rightarrow> 64 word \<Rightarrow> pt_state \<Rightarrow> (int \<times> pt_state) res" where
  "pthread_mutex_lock E L th mutex = blockable_call E L th ''pthread_mutex_lock'' [mutex]"

definition pthread_cond_wait ::
  "env \<Rightarrow> libc \<Rightarrow> tls \<Rightarrow> 64 word \<Rightarrow> 64 word \<Rightarrow> pt_state \<Rightarrow> (int \<times> pt_state) res" where
  "pthread_cond_wait E L th cond mutex = blockable_call E L th ''pthread_cond_wait'' [cond, mutex]"

definition pthread_cond_timedwait ::
  "env \<Rightarrow> libc \<Rightarrow> tls \<Rightarrow> 64 word \<Rightarrow> 64 word \<Rightarrow> 64 word \<Rightarrow> pt_state \<Rightarrow> (int \<times> pt_state) res" where
  "pthread_cond_timedwait E L th cond mutex abstime =
     blockable_call E L th ''pthread_cond_timedwait'' [cond, mutex, abstime]"

definition pthread_barrier_wait :: "env \<Rightarrow> libc \<Rightarrow> tls \<Rightarrow> 64 word \<Rightarrow> pt_state \<Rightarrow> (int \<times> pt_state) res" where
  "pthread_barrier_wait E L th barrier = blockable_call E L th ''pthread_barrier_wait'' [barrier]"

definition plain_call :: "libc \<Rightarrow> string \<Rightarrow> 64 word list \<Rightarrow> pt_state \<Rightarrow> (int \<times> pt_state) res" where
  "plain_call L name args s = bindR (resolve L name s) (\<lambda>(f, s). Inr (invoke L f args s))"

definition pthread_cond_signal :: "libc \<Rightarrow> 64 word \<Rightarrow> pt_state \<Rightarrow> (int \<times> pt_state) res" where
  "pthread_cond_signal L cond = plain_call L ''pthread_cond_signal'' [cond]"

definition pthread_mutex_unlock :: "libc \<Rightarrow> 64 word \<Rightarrow> pt_state \<Rightarrow> (int \<times> pt_state) res" where
  "pthread_mutex_unlock L mutex = plain_call L ''pthread_mutex_unlock'' [mutex]"

section \<open>Cleanup, creation and joining\<close>

text \<open>
  A call of \<open>msh_cleanup\<close> with the scavengers it runs; a thread with no context has \<open>gsbase\<close> null,
  which cleanup dereferences. A thread has at most \<open>MAX_CRT_PER_THREAD\<close> scavengers, so \<open>NSLOT\<close>
  scheduling steps are enough.
\<close>

definition call_cleanup :: "env \<Rightarrow> tls \<Rightarrow> msh_state \<Rightarrow> (int \<times> msh_state) res" where
  "call_cleanup E th s =
     (if getenv E ''SKIP_CLEANUP'' \<noteq> None then Inr (0, s)
      else case gsbase th of None \<Rightarrow> Inl NullPointer | Some t \<Rightarrow> cleanup_thread E t NSLOT s)"

text \<open>The result is the pointer that the thread returns; 0 is \<open>NULL\<close>.\<close>

definition msh_start_routine ::
  "env \<Rightarrow> libc \<Rightarrow> msh_start_routine_arg \<Rightarrow> pt_state \<Rightarrow> (64 word \<times> pt_state) res" where
  "msh_start_routine E L arg s =
     bindR (msh_alloc_ctx E (thread_id arg) new_thread (runtime s)) (\<lambda>(err, th, m).
       let s = s\<lparr>runtime := m\<rparr>
       in if err \<noteq> 0 then Inr (0, s)
          else let (ret, s) = run_user L (start_routine arg) (user_arg arg) th s
               in bindR (call_cleanup E th (runtime s)) (\<lambda>(err, m).
                  let s = s\<lparr>runtime := m\<rparr> in if err \<noteq> 0 then Inr (0, s) else Inr (ret, s)))"

text \<open>
  The branch for the first thread: initialise, and give the caller a context unless
  \<open>SKIP_FIRST_THREAD\<close> is set. The result is \<open>None\<close> where \<open>pthread_create\<close> goes on and the value it
  returns at once otherwise.
\<close>

definition start_runtime ::
  "env \<Rightarrow> tls \<Rightarrow> pt_state \<Rightarrow> (int option \<times> tls \<times> pt_state) res" where
  "start_runtime E th s =
     (let max_scav = (case getenv E ''MAX_SCAV_PER_THREAD'' of Some v \<Rightarrow> atoi v | None \<Rightarrow> 1)
      in bindR (msh_init E max_scav (runtime s)) (\<lambda>(err, m).
         let s = s\<lparr>runtime := m\<rparr>
         in if err \<noteq> 0 then Inr (Some (- 1), th, s)
            else if getenv E ''SKIP_FIRST_THREAD'' \<noteq> None then Inr (None, th, s)
            else let tid = thread_cnt s; s = s\<lparr>thread_cnt := to_int (tid + 1)\<rparr>
                 in bindR (msh_alloc_ctx E tid th (runtime s)) (\<lambda>(err, th, m).
                    Inr (if err \<noteq> 0 then Some (- 1) else None, th, s\<lparr>runtime := m\<rparr>))))"

definition create_thread ::
  "libc \<Rightarrow> 64 word \<Rightarrow> 64 word \<Rightarrow> 64 word \<Rightarrow> 64 word \<Rightarrow> pt_state \<Rightarrow> (int \<times> pt_state) res" where
  "create_thread L thread attr routine arg s =
     (let msh_arg = \<lparr>start_routine = routine, user_arg = arg, thread_id = thread_cnt s\<rparr>;
          s = s\<lparr>thread_cnt := to_int (thread_cnt s + 1)\<rparr>
      in bindR (resolve L ''pthread_create'' s) (\<lambda>(f, s). Inr (spawn L f thread attr msh_arg s)))"

definition pthread_create ::
  "env \<Rightarrow> libc \<Rightarrow> 64 word \<Rightarrow> 64 word \<Rightarrow> 64 word \<Rightarrow> 64 word \<Rightarrow> tls \<Rightarrow> pt_state \<Rightarrow> (int \<times> tls \<times> pt_state) res" where
  "pthread_create E L thread attr routine arg th s =
     bindR (if thread_cnt s = 0 then start_runtime E th s else Inr (None, th, s)) (\<lambda>(early, th, s).
       case early of
         Some v \<Rightarrow> Inr (v, th, s)
       | None \<Rightarrow> bindR (create_thread L thread attr routine arg s) (\<lambda>(ret, s). Inr (ret, th, s)))"

definition pthread_join ::
  "env \<Rightarrow> libc \<Rightarrow> 64 word \<Rightarrow> 64 word \<Rightarrow> tls \<Rightarrow> pt_state \<Rightarrow> (int \<times> pt_state) res" where
  "pthread_join E L thread retval th s =
     bindR (if getenv E ''SKIP_FIRST_THREAD'' = None \<and> first_join s
            then bindR (call_cleanup E th (runtime s)) (\<lambda>(err, m).
                   Inr (err, s\<lparr>first_join := False, runtime := m\<rparr>))
            else Inr (0, s)) (\<lambda>(err, s).
       if err \<noteq> 0 then Inr (- 1, s)
       else plain_call L ''pthread_join'' [thread, retval] s)"

section \<open>Resolving the wrapped function\<close>

text \<open>The pointer a wrapper calls, or \<open>None\<close> for a null pointer.\<close>

definition target :: "libc \<Rightarrow> pt_state \<Rightarrow> string \<Rightarrow> 64 word option" where
  "target L s name = (case original s name of None \<Rightarrow> next_sym L name | f \<Rightarrow> f)"

lemma resolve_target:
  "resolve L name s = (case target L s name of None \<Rightarrow> Inl NullPointer
     | Some f \<Rightarrow> Inr (f, s\<lparr>original := (original s)(name := Some f)\<rparr>))"
  by (cases s) (auto simp: resolve_def target_def fun_upd_idem split: option.splits)

lemma target_runtime [simp]:
  "target L (s\<lparr>runtime := m\<rparr>) name = target L s name"
  "target L (s\<lparr>thread_cnt := n\<rparr>) name = target L s name"
  "target L (s\<lparr>first_join := b\<rparr>) name = target L s name"
  by (simp_all add: target_def)

lemma plain_call_target:
  "target L s name = Some f \<Longrightarrow>
   plain_call L name args s = Inr (invoke L f args (s\<lparr>original := (original s)(name := Some f)\<rparr>))"
  by (simp add: plain_call_def resolve_target)

section \<open>Blocking calls come back to the runtime\<close>

text \<open>
  What the threads that act during a blocking call of the owner of context \<open>t\<close> leave behind: the
  tables agree, its flag is set (nobody is inside its context), and, if scavengers were taken, the
  primary is still scheduled and every offering thread is packed.
\<close>

definition call_left :: "env \<Rightarrow> nat \<Rightarrow> msh_state \<Rightarrow> bool" where
  "call_left E t m \<longleftrightarrow> msh_inv E m \<and> reallocatable (prim m t) \<and>
     (reallocated (prim m t) \<longrightarrow> next_of m t 0 \<noteq> - 1 \<and>
       (\<forall>u < MAX_THREAD_NUM. reallocatable (prim m u) \<longrightarrow> packed (idx_list (prim m u))))"

text \<open>The state in which the wrapped function \<open>f\<close> is called.\<close>

definition call_state :: "nat \<Rightarrow> string \<Rightarrow> 64 word \<Rightarrow> pt_state \<Rightarrow> pt_state" where
  "call_state t name f s =
     s\<lparr>runtime := set_flag t True (runtime s), original := (original s)(name := Some f)\<rparr>"

text \<open>
  The wrapper returns the value \<open>ret\<close> of the wrapped function, which left \<open>s1\<close>: nothing but the
  runtime changes, the flags are clear, and the owner keeps what \<open>s1\<close> gives it, in order, perhaps
  with further scavengers.
\<close>

definition came_back :: "env \<Rightarrow> nat \<Rightarrow> int \<times> pt_state \<Rightarrow> int \<times> pt_state \<Rightarrow> bool" where
  "came_back E t = (\<lambda>(ret, s1) (v, s'). v = ret \<and> s' = s1\<lparr>runtime := runtime s'\<rparr> \<and>
     msh_inv E (runtime s') \<and> \<not> reallocatable (prim (runtime s') t) \<and>
     \<not> reallocated (prim (runtime s') t) \<and> (\<exists>zs. hosts (runtime s') t = hosts (runtime s1) t @ zs))"

lemma exit_comes_back:
  assumes c: "call_left E t (runtime s1)" and t: "t < MAX_THREAD_NUM" and o: "owns th t" and il: "init_local E"
  shows "ends (bindR (msh_exit_blockable_call E th (runtime s1)) (\<lambda>m. Inr (ret, s1\<lparr>runtime := m\<rparr>))) may_exit
    (came_back E t (ret, s1))"
proof (cases "reallocated (prim (runtime s1) t)")
  case True
  have h: "msh_inv E (runtime s1)" "reallocatable (prim (runtime s1) t)" "next_of (runtime s1) t 0 \<noteq> - 1"
      "\<And>u. u < MAX_THREAD_NUM \<Longrightarrow> reallocatable (prim (runtime s1) u) \<Longrightarrow> packed (idx_list (prim (runtime s1) u))"
    using c True by (auto simp: call_left_def)
  show ?thesis
    by (rule ends_bindI [OF exit_after_reallocation [OF h(1) t o h(2) True h(3,4) il]]) (auto simp: came_back_def)
next
  case False
  let ?m = "set_flag t False (runtime s1)"
  have inv: "msh_inv E (runtime s1)" and fl: "reallocatable (prim (runtime s1) t)"
    using c by (auto simp: call_left_def)
  have len: "t < length (PRIM_TABLE (runtime s1))" using t msh_invD(4) [OF inv] by simp
  note p = prim_set_flag [OF len, of False]
  have "msh_exit_blockable_call E th (runtime s1) = Inr ?m"
    using o fl False len
    by (simp add: msh_exit_blockable_call_def owns_def Let_def set_flag_def prim_nth_upd)
  then show ?thesis
    using msh_inv_set_flag [OF inv t, of False] False p by (simp add: came_back_def hosts_def)
qed

text \<open>The contract that the blocking wrappers share.\<close>

locale blocking_wrapper =
  fixes wrapper :: "env \<Rightarrow> libc \<Rightarrow> tls \<Rightarrow> pt_state \<Rightarrow> (int \<times> pt_state) res"
    and name :: string and args :: "64 word list"
  assumes wraps: "wrapper E L th s = blockable_call E L th name args s"
begin

lemma returns:
  assumes t: "t < MAX_THREAD_NUM" and o: "owns th t" and il: "init_local E"
    and f: "target L s name = Some f"
    and left: "call_left E t (runtime (snd (invoke L f args (call_state t name f s))))"
  shows "ends (wrapper E L th s) may_exit (came_back E t (invoke L f args (call_state t name f s)))"
proof -
  have st: "(s\<lparr>runtime := msh_enter_blockable_call th (runtime s)\<rparr>)\<lparr>original := (original s)(name := Some f)\<rparr> =
      call_state t name f s"
    using o by (simp add: call_state_def msh_enter_blockable_call_def owns_def set_flag_def)
  obtain ret s1 where call: "invoke L f args (call_state t name f s) = (ret, s1)" by fastforce
  have "wrapper E L th s =
      bindR (msh_exit_blockable_call E th (runtime s1)) (\<lambda>m. Inr (ret, s1\<lparr>runtime := m\<rparr>))"
    using f st call by (simp add: wraps blockable_call_def resolve_target)
  then show ?thesis using exit_comes_back [OF _ t o il, of s1 ret] left by (simp add: call)
qed

end

interpretation mutex_lock: blocking_wrapper "\<lambda>E L th. pthread_mutex_lock E L th mutex"
  "''pthread_mutex_lock''" "[mutex]" for mutex
  by unfold_locales (simp add: pthread_mutex_lock_def)

interpretation cond_wait: blocking_wrapper "\<lambda>E L th. pthread_cond_wait E L th cond mutex"
  "''pthread_cond_wait''" "[cond, mutex]" for cond mutex
  by unfold_locales (simp add: pthread_cond_wait_def)

interpretation cond_timedwait: blocking_wrapper "\<lambda>E L th. pthread_cond_timedwait E L th cond mutex abstime"
  "''pthread_cond_timedwait''" "[cond, mutex, abstime]" for cond mutex abstime
  by unfold_locales (simp add: pthread_cond_timedwait_def)

interpretation barrier_wait: blocking_wrapper "\<lambda>E L th. pthread_barrier_wait E L th barrier"
  "''pthread_barrier_wait''" "[barrier]" for barrier
  by unfold_locales (simp add: pthread_barrier_wait_def)

text \<open>Functions behind the wrappers for samples: every symbol resolves to address 16 and returns.\<close>

definition quiet_libc :: libc where
  "quiet_libc = \<lparr>next_sym = (\<lambda>_. Some 16), invoke = (\<lambda>_ _ s. (0, s)), spawn = (\<lambda>_ _ _ _ s. (0, s)),
     run_user = (\<lambda>_ _ _ s. (5, s))\<rparr>"

definition fresh_process :: "msh_state \<Rightarrow> pt_state" where
  "fresh_process m = \<lparr>runtime = m, thread_cnt = 0, first_join = True, original = (\<lambda>_. None)\<rparr>"

text \<open>
  C9. Every blocking wrapper comes back to the runtime. Each wrapper calls the function that its own
  name resolves to, by an earlier call or now; if the other threads leave the runtime in order
  while that function runs, whether they took scavengers or not, the wrapper exits because a symbol
  of a scavenger is missing or returns the function's value, with the tables in agreement, the offer
  withdrawn, \<open>reallocated\<close> clear, and the scavengers the call left with the thread still there, in
  order. Only the runtime differs from what the function left.
\<close>

theorem blocking_wrappers_come_back:
  fixes f :: "string \<Rightarrow> 64 word"
  assumes "t < MAX_THREAD_NUM" and "owns th t" and "init_local E"
    and calls: "\<And>name args. (name, args) \<in> {(''pthread_mutex_lock'', [mutex]),
        (''pthread_cond_wait'', [cond, mutex]), (''pthread_cond_timedwait'', [cond, mutex, abstime]),
        (''pthread_barrier_wait'', [barrier])} \<Longrightarrow>
      target L s name = Some (f name) \<and>
      call_left E t (runtime (snd (invoke L (f name) args (call_state t name (f name) s))))"
  shows "ends (pthread_mutex_lock E L th mutex s) may_exit
      (came_back E t (invoke L (f ''pthread_mutex_lock'') [mutex]
        (call_state t ''pthread_mutex_lock'' (f ''pthread_mutex_lock'') s))) \<and>
    ends (pthread_cond_wait E L th cond mutex s) may_exit
      (came_back E t (invoke L (f ''pthread_cond_wait'') [cond, mutex]
        (call_state t ''pthread_cond_wait'' (f ''pthread_cond_wait'') s))) \<and>
    ends (pthread_cond_timedwait E L th cond mutex abstime s) may_exit
      (came_back E t (invoke L (f ''pthread_cond_timedwait'') [cond, mutex, abstime]
        (call_state t ''pthread_cond_timedwait'' (f ''pthread_cond_timedwait'') s))) \<and>
    ends (pthread_barrier_wait E L th barrier s) may_exit
      (came_back E t (invoke L (f ''pthread_barrier_wait'') [barrier]
        (call_state t ''pthread_barrier_wait'' (f ''pthread_barrier_wait'') s)))"
proof -
  note h = assms(1-3)
  have c: "target L s name = Some (f name)"
      "call_left E t (runtime (snd (invoke L (f name) args (call_state t name (f name) s))))"
    if "(name, args) \<in> {(''pthread_mutex_lock'', [mutex]), (''pthread_cond_wait'', [cond, mutex]),
        (''pthread_cond_timedwait'', [cond, mutex, abstime]), (''pthread_barrier_wait'', [barrier])}" for name args
    using calls [OF that] by simp_all
  show ?thesis
    by (intro conjI mutex_lock.returns [OF h c] cond_wait.returns [OF h c]
        cond_timedwait.returns [OF h c] barrier_wait.returns [OF h c]; simp)
qed

text \<open>
  Wrapped functions, each at an address of its own, during which scavengers are taken from thread 0;
  a call returns the address it went to. Thread 0 has created a thread before, so that
  pointer is resolved already.
\<close>

definition robbing_libc :: libc where
  "robbing_libc = quiet_libc\<lparr>next_sym := (\<lambda>name. Some (of_nat (length name))),
     invoke := (\<lambda>f _ s. (sint f, s\<lparr>runtime := robbed\<rparr>))\<rparr>"

definition calling_process :: pt_state where
  "calling_process = (fresh_process (placed 2 two_hosts))\<lparr>thread_cnt := 2,
     original := (\<lambda>_. None)(''pthread_create'' := Some 14)\<rparr>"

lemma robbed_left: "call_left rich_env 0 robbed"
proof -
  note pl = sample_placeable(1)
  have t: "0 < MAX_THREAD_NUM" by (simp add: capacities)
  have "packed (idx_list (prim robbed 0))"
    using placed_row [OF pl t, of 2] by (simp add: robbed_ok(2) sample_rows)
  then have "packed (idx_list (prim robbed u))" if "u < MAX_THREAD_NUM" "reallocatable (prim robbed u)" for u
    using that placed_facts(5) [OF pl that(1), of 2] robbed_ok(3) [of u] by (cases "u = 0") auto
  moreover have "next_of robbed 0 0 \<noteq> - 1" using placed_facts(1) [OF pl t, of 2] by (simp add: robbed_ok(2))
  ultimately show ?thesis using robbed_ok(1,2) by (simp add: call_left_def)
qed

theorem blocking_wrappers_come_back_witness:
  "call_left rich_env 0 robbed \<and> reallocated (prim robbed 0) \<and>
   ends (pthread_mutex_lock rich_env robbing_libc owner0 8 calling_process) may_exit
     (\<lambda>(v, s'). v = 18 \<and> msh_inv rich_env (runtime s') \<and> \<not> reallocated (prim (runtime s') 0)) \<and>
   ends (pthread_barrier_wait rich_env robbing_libc owner0 9 calling_process) may_exit
     (\<lambda>(v, s'). v = 20 \<and> msh_inv rich_env (runtime s') \<and> \<not> reallocated (prim (runtime s') 0))"
proof -
  have t: "0 < MAX_THREAD_NUM" by (simp add: capacities)
  have o: "owns owner0 0" by (simp add: owns_def owner0_def)
  have c: "target robbing_libc calling_process name = Some (of_nat (length name)) \<and>
      call_left rich_env 0 (runtime (snd (invoke robbing_libc (of_nat (length name)) args
        (call_state 0 name (of_nat (length name)) calling_process))))"
    if "(name, args) \<in> {(''pthread_mutex_lock'', [8]), (''pthread_cond_wait'', [7, 8]),
        (''pthread_cond_timedwait'', [7, 8, 6]), (''pthread_barrier_wait'', [9])}" for name args
    using that robbed_left by (auto simp: target_def robbing_libc_def quiet_libc_def calling_process_def fresh_process_def)
  note b = blocking_wrappers_come_back [OF t o init_local_rich c]
  have "ends (pthread_mutex_lock rich_env robbing_libc owner0 8 calling_process) may_exit
     (\<lambda>(v, s'). v = 18 \<and> msh_inv rich_env (runtime s') \<and> \<not> reallocated (prim (runtime s') 0))"
    by (rule ends_mono [OF conjunct1 [OF b]]) (auto simp: came_back_def robbing_libc_def)
  moreover have "ends (pthread_barrier_wait rich_env robbing_libc owner0 9 calling_process) may_exit
     (\<lambda>(v, s'). v = 20 \<and> msh_inv rich_env (runtime s') \<and> \<not> reallocated (prim (runtime s') 0))"
    by (rule ends_mono [OF conjunct2 [OF conjunct2 [OF conjunct2 [OF b]]]]) (auto simp: came_back_def robbing_libc_def)
  ultimately show ?thesis using robbed_left robbed_ok(2) by simp
qed

section \<open>The life of a thread\<close>

text \<open>The scavengers of a thread fit in its slots, so the fuel of \<open>call_cleanup\<close> is enough.\<close>

lemma hosts_below_NSLOT:
  assumes "msh_inv E m" and "t < MAX_THREAD_NUM"
  shows "length (hosts m t) < NSLOT"
proof -
  have "length (idx_list (prim m t)) = NSLOT" using msh_invD(6) [OF assms] by (simp add: prim_shape_def)
  then have "length (hosts m t) \<le> NSLOT - 1"
    using length_filter_le [of _ "tl (idx_list (prim m t))"] by (simp add: hosts_def items_def)
  then show ?thesis using NSLOT_pos by linarith
qed

lemma call_cleanup_ends:
  assumes "msh_inv E m" and "t < MAX_THREAD_NUM" and "exports_ok m t"
    and "getenv E ''SKIP_CLEANUP'' = None" and "owns th t"
  shows "ends (call_cleanup E th m) never (cleaned E t m)"
  using cleanup_thread_ends [OF assms(1-4) hosts_below_NSLOT [OF assms(1,2)]] assms(4,5)
  by (simp add: call_cleanup_def owns_def)

text \<open>
  The state in which the thread's routine runs and the state it leaves: the thread owns context
  \<open>t\<close> with as many scavengers as there are to be had; a routine that starts with them exporting their
  offsets leaves the tables in agreement and the scavengers it hosts then exporting theirs. A
  routine that does not touch the runtime is one.
\<close>

definition running_in :: "env \<Rightarrow> nat \<Rightarrow> tls \<Rightarrow> pt_state \<Rightarrow> bool" where
  "running_in E t th s \<longleftrightarrow> owns th t \<and> msh_inv E (runtime s) \<and> packed (idx_list (prim (runtime s) t)) \<and>
     satisfied E t (runtime s) \<and> \<not> reallocatable (prim (runtime s) t) \<and> \<not> reallocated (prim (runtime s) t)"

definition routine_ok :: "env \<Rightarrow> libc \<Rightarrow> nat \<Rightarrow> msh_start_routine_arg \<Rightarrow> bool" where
  "routine_ok E L t arg \<longleftrightarrow> (\<forall>th s. running_in E t th s \<longrightarrow> exports_ok (runtime s) t \<longrightarrow>
     (let m = runtime (snd (run_user L (start_routine arg) (user_arg arg) th s))
      in msh_inv E m \<and> exports_ok m t))"

definition free_context :: "env \<Rightarrow> nat \<Rightarrow> msh_state \<Rightarrow> bool" where
  "free_context E t m \<longleftrightarrow> msh_inv E m \<and> t < MAX_THREAD_NUM \<and> hosts m t = [] \<and>
     \<not> reallocatable (prim m t) \<and>
     (\<forall>u < MAX_THREAD_NUM. reallocatable (prim m u) \<longrightarrow> packed (idx_list (prim m u)))"

lemma free_context_row:
  assumes "free_context E t m" and "0 < p" and "p < NSLOT"
  shows "idx_of m t p = - 1"
proof -
  have f: "msh_inv E m" "t < MAX_THREAD_NUM" "hosts m t = []" using assms(1) by (simp_all add: free_context_def)
  have len: "length (idx_list (prim m t)) = NSLOT" using msh_invD(6) [OF f(1,2)] by (simp add: prim_shape_def)
  have "tl (idx_list (prim m t)) ! (p - 1) \<in> set (tl (idx_list (prim m t)))" by (rule nth_mem) (use assms len in simp)
  then show ?thesis
    using f(3) assms(2,3) len by (auto simp: hosts_def items_def filter_empty_conv nth_tl)
qed

lemma alloc_ctx_runs:
  assumes free: "free_context E t m" and il: "init_local E"
  shows "ends (msh_alloc_ctx E (int t) th m) may_exit (\<lambda>(v, th', m'). v = 0 \<and>
    max_scav_per_thread m' = max_scav_per_thread m \<and> (\<forall>s. running_in E t th' (s\<lparr>runtime := m'\<rparr>)) \<and>
    (own_libs m \<longrightarrow> (\<forall>u < MAX_THREAD_NUM. \<not> reallocatable (prim m u)) \<longrightarrow> exports_ok m' t))"
proof -
  have a: "msh_inv E m" "0 \<le> int t" "int t < int MAX_THREAD_NUM" "hosts m (nat (int t)) = []"
      "\<not> reallocatable (prim m (nat (int t)))"
      "\<And>u. u < MAX_THREAD_NUM \<Longrightarrow> reallocatable (prim m u) \<Longrightarrow> packed (idx_list (prim m u))"
    and t: "t < MAX_THREAD_NUM"
    using free by (auto simp: free_context_def)
  have runs: "ends (msh_alloc_ctx E (int t) th m) may_exit (\<lambda>(v, th', m'). v = 0 \<and>
      max_scav_per_thread m' = max_scav_per_thread m \<and> (\<forall>s. running_in E t th' (s\<lparr>runtime := m'\<rparr>)))"
    by (rule ends_mono [OF alloc_ctx_ends [OF a il]]) (auto simp: running_in_def)
  show ?thesis
  proof (cases "own_libs m \<and> (\<forall>u < MAX_THREAD_NUM. \<not> reallocatable (prim m u))")
    case True
    have len: "length (idx_list (prim m t)) = NSLOT" using msh_invD(6) [OF a(1) t] by (simp add: prim_shape_def)
    have "packed (idx_list (prim m t))"
    proof (rule packed_no_hole)
      show "idx_list (prim m t) \<noteq> []" using len NSLOT_pos by (metis length_greater_0_conv)
    qed (use free_context_row [OF free] len in auto)
    moreover have "exports_ok m t" using free_context_row [OF free] unfolding exports_ok_def by blast
    ultimately have "ends (msh_alloc_ctx E (int t) th m) may_exit (\<lambda>(v, th', m'). exports_ok m' t \<and> own_libs m')"
      using True by (intro alloc_ctx_exports [OF a(1) t _ _ _ _ il t]) auto
    from ends_conj [OF runs this] show ?thesis by (rule ends_mono) auto
  next
    case False
    then show ?thesis by (intro ends_mono [OF runs]) auto
  qed
qed

text \<open>
  C10. A thread lives as intended: started on a free context, while no thread offers its
  scavengers and every scavenger has a library of its own, it exits because a symbol of a
  scavenger is missing, or its routine runs while the thread owns its context and has the
  scavengers it can get, each exporting its offset; and then, if such a routine leaves the runtime
  in order, every scavenger of the thread is run to completion (cleanup comes back) and the thread
  returns the value of its routine, hosting nothing any more.
\<close>

theorem thread_runs_and_retires:
  assumes free: "free_context E t (runtime s)" and il: "init_local E" and id: "thread_id arg = int t"
    and own: "own_libs (runtime s)" and no: "\<And>u. u < MAX_THREAD_NUM \<Longrightarrow> \<not> reallocatable (prim (runtime s) u)"
    and ok: "routine_ok E L t arg" and cl: "getenv E ''SKIP_CLEANUP'' = None"
  shows "ends (msh_start_routine E L arg s) may_exit (\<lambda>(ret, s'). \<exists>th s1 s2. running_in E t th s1 \<and>
    exports_ok (runtime s1) t \<and> run_user L (start_routine arg) (user_arg arg) th s1 = (ret, s2) \<and>
    cleaned E t (runtime s2) (0, runtime s') \<and> s' = s2\<lparr>runtime := runtime s'\<rparr>)"
proof -
  let ?P = "\<lambda>(ret, s'). \<exists>th s1 s2. running_in E t th s1 \<and>
    exports_ok (runtime s1) t \<and> run_user L (start_routine arg) (user_arg arg) th s1 = (ret, s2) \<and>
    cleaned E t (runtime s2) (0, runtime s') \<and> s' = s2\<lparr>runtime := runtime s'\<rparr>"
  have run: "ends (let (ret, s2) = run_user L (start_routine arg) (user_arg arg) th s1
      in bindR (call_cleanup E th (runtime s2)) (\<lambda>(err, m).
         let s = s2\<lparr>runtime := m\<rparr> in if err \<noteq> 0 then Inr (0, s) else Inr (ret, s))) may_exit ?P"
    if r: "running_in E t th s1" and ex: "exports_ok (runtime s1) t" for th s1
  proof -
    obtain ret s2 where u: "run_user L (start_routine arg) (user_arg arg) th s1 = (ret, s2)" by fastforce
    have "msh_inv E (runtime s2)" "exports_ok (runtime s2) t"
      using ok r ex u by (auto simp: routine_ok_def Let_def dest!: spec [of _ th] spec [of _ s1])
    moreover have "t < MAX_THREAD_NUM" "owns th t"
      using r free by (simp_all add: running_in_def free_context_def)
    ultimately obtain x where x: "call_cleanup E th (runtime s2) = Inr x" "cleaned E t (runtime s2) x"
      using call_cleanup_ends [OF _ _ _ cl] unfolding ends_never by blast
    obtain err m where xx: "x = (err, m)" by (cases x)
    then have "err = 0" "cleaned E t (runtime s2) (0, m)" using x by (auto simp: cleaned_def)
    then show ?thesis using r ex u x(1) xx by (simp add: Let_def) (intro exI conjI; simp)
  qed
  show ?thesis
    unfolding msh_start_routine_def id
    by (rule ends_bindI [OF alloc_ctx_runs [OF free il]]) (use run own no in \<open>auto simp: Let_def\<close>)
qed

lemma hosts_empty:
  assumes "msh_inv E m" and "t < MAX_THREAD_NUM" and "\<And>p. p < NSLOT \<Longrightarrow> idx_of m t p = - 1"
  shows "hosts m t = []"
proof -
  have "length (idx_list (prim m t)) = NSLOT" using msh_invD(6) [OF assms(1,2)] by (simp add: prim_shape_def)
  then show ?thesis
    using assms(3) by (auto simp: hosts_def items_def filter_empty_conv in_set_conv_nth nth_tl)
qed

lemma idle_free_context:
  assumes t: "t < MAX_THREAD_NUM"
  shows "free_context rich_env t (placed 2 [])"
proof -
  have pl: "placeable []" by (simp add: placeable_def)
  have "hosts (placed 2 []) t = []"
    by (rule hosts_empty [OF placed_inv [OF pl] t]) (use t in \<open>simp add: idle_reads idle_ctx_reads\<close>)
  then show ?thesis
    using t placed_inv [OF pl, of 2] placed_facts(5) [OF pl, where cap = 2] by (auto simp: free_context_def)
qed

theorem thread_runs_and_retires_witness:
  "let arg = \<lparr>start_routine = 32, user_arg = 0, thread_id = 2\<rparr> in
   free_context rich_env 2 (placed 2 []) \<and> own_libs (placed 2 []) \<and> routine_ok rich_env quiet_libc 2 arg \<and>
   ends (msh_start_routine rich_env quiet_libc arg (fresh_process (placed 2 []))) may_exit (\<lambda>(ret, s').
     ret = 5 \<and> msh_inv rich_env (runtime s') \<and> hosts (runtime s') 2 = [])"
proof -
  let ?arg = "\<lparr>start_routine = 32, user_arg = 0, thread_id = 2\<rparr>" and ?s = "fresh_process (placed 2 [])"
  have pl: "placeable []" by (simp add: placeable_def)
  have t: "2 < MAX_THREAD_NUM" by (simp add: capacities)
  have fr: "free_context rich_env 2 (placed 2 [])" using idle_free_context [OF t] .
  have own: "own_libs (placed 2 [])"
    using idle_reads(4) [of "int _" 2] by (auto simp: own_libs_def inj_on_def scav_in_range_def)
  have ro: "routine_ok rich_env quiet_libc 2 ?arg"
    by (simp add: routine_ok_def quiet_libc_def running_in_def)
  have h: "free_context rich_env 2 (runtime ?s)" "own_libs (runtime ?s)"
      "u < MAX_THREAD_NUM \<Longrightarrow> \<not> reallocatable (prim (runtime ?s) u)" for u
    using fr own placed_facts(5) [OF pl, of u 2] by (simp_all add: fresh_process_def)
  have "ends (msh_start_routine rich_env quiet_libc ?arg ?s) may_exit (\<lambda>(ret, s').
     ret = 5 \<and> msh_inv rich_env (runtime s') \<and> hosts (runtime s') 2 = [])"
    by (rule ends_mono [OF thread_runs_and_retires [OF h(1) init_local_rich _ h(2,3) ro]])
      (auto simp: rich_env_def quiet_libc_def cleaned_def)
  then show ?thesis unfolding Let_def using fr own ro by blast
qed

text \<open>
  C39. A thread whose id is not below \<open>MAX_THREAD_NUM\<close> never runs its routine: it returns \<open>NULL\<close>
  at once and leaves everything as it was, although its creation succeeded.
\<close>

theorem excess_thread_skips_routine:
  assumes "int MAX_THREAD_NUM \<le> thread_id arg"
  shows "msh_start_routine E L arg s = Inr (0, s)"
  using assms by (simp add: msh_start_routine_def msh_alloc_ctx_def Let_def)

theorem excess_thread_skips_routine_witness:
  "msh_start_routine rich_env quiet_libc \<lparr>start_routine = 32, user_arg = 0, thread_id = 128\<rparr>
     (fresh_process zero_state) = Inr (0, fresh_process zero_state)"
  by (rule excess_thread_skips_routine) (simp add: capacities)

section \<open>Creating threads\<close>

definition numbered :: "pt_state \<Rightarrow> 64 word \<Rightarrow> pt_state" where
  "numbered s f = s\<lparr>thread_cnt := to_int (thread_cnt s + 1),
     original := (original s)(''pthread_create'' := Some f)\<rparr>"

lemma create_thread_spawns:
  "target L s ''pthread_create'' = Some f \<Longrightarrow> create_thread L thread attr routine arg s =
     Inr (spawn L f thread attr \<lparr>start_routine = routine, user_arg = arg, thread_id = thread_cnt s\<rparr> (numbered s f))"
  by (simp add: create_thread_def resolve_target numbered_def)

lemma init_leaves_free_contexts:
  assumes "unat (prim_base E) mod 64 = 0" "getenv E ''MSH_SCAV_POOL_PATH'' = Some path"
    "length path < 256" "fopen E path = Some content"
    "length (pool_commands content) \<le> MAX_ACTIVE_CRT_NUM_PER_APPLICATION"
    "\<forall>cmd \<in> set (pool_commands content). load_ok E cmd"
  shows "ends (msh_init E cap zero_state) never (\<lambda>(ret, m). ret = 0 \<and> max_scav_per_thread m = cap \<and>
    (\<forall>t < MAX_THREAD_NUM. free_context E t m \<and> \<not> reallocatable (prim m t)) \<and> (\<forall>i. \<not> gone (abs E m) i) \<and>
    (\<forall>i < length (pool_commands content). lib_handle (SCAV_TABLE m ! i) \<noteq> None) \<and>
    (distinct (map (cmd_handle E) (pool_commands content)) \<longrightarrow> own_libs m))"
proof (rule ends_mono [OF msh_init_ok [OF assms]])
  fix z assume z: "case z of (ret, s) \<Rightarrow> ret = 0 \<and> initialised E (pool_commands content) cap s"
  obtain ret m where zz: "z = (ret, m)" by (cases z)
  have m: "initialised E (pool_commands content) cap m" "ret = 0" using z by (simp_all add: zz)
  have "hosts m t = []" if "t < MAX_THREAD_NUM" for t
    by (rule hosts_empty [of E]) (use m that in \<open>auto simp: initialised_def\<close>)
  moreover have "own_libs m" if "distinct (map (cmd_handle E) (pool_commands content))"
    using m(1) nth_eq_iff_index_eq [OF that]
    by (auto simp: initialised_def own_libs_def inj_on_def split: if_splits)
  moreover have "lib_handle (SCAV_TABLE m ! i) \<noteq> None" if i: "i < length (pool_commands content)" for i
  proof -
    have "load_ok E (pool_commands content ! i)" using assms(6) nth_mem [OF i] by blast
    then have "cmd_handle E (pool_commands content ! i) \<noteq> None"
      by (auto simp: load_ok_def cmd_handle_def split: option.splits)
    then show ?thesis using m(1) i assms(5) by (simp add: initialised_def)
  qed
  moreover have "\<not> gone (abs E m) i" for i
    using m(1) by (auto simp: initialised_def abs_def scav_in_range_def nat_less_iff)
  ultimately show "case z of (ret, m) \<Rightarrow> ret = 0 \<and> max_scav_per_thread m = cap \<and>
      (\<forall>t < MAX_THREAD_NUM. free_context E t m \<and> \<not> reallocatable (prim m t)) \<and> (\<forall>i. \<not> gone (abs E m) i) \<and>
      (\<forall>i < length (pool_commands content). lib_handle (SCAV_TABLE m ! i) \<noteq> None) \<and>
      (distinct (map (cmd_handle E) (pool_commands content)) \<longrightarrow> own_libs m)"
    using m by (auto simp: zz free_context_def initialised_def)
qed simp

text \<open>
  The first \<open>pthread_create\<close> of a process: the runtime is initialised to \<open>m\<close>, context 0 is
  allocated in \<open>m\<close>, and the thread is created in the state \<open>created\<close>.
\<close>

definition created :: "pt_state \<Rightarrow> 64 word \<Rightarrow> msh_state \<Rightarrow> pt_state" where
  "created s f m = s\<lparr>runtime := m, thread_cnt := 2, original := (original s)(''pthread_create'' := Some f)\<rparr>"

lemma first_create_steps:
  assumes boot: "unat (prim_base E) mod 64 = 0" "getenv E ''MSH_SCAV_POOL_PATH'' = Some path"
      "length path < 256" "fopen E path = Some content"
      "length (pool_commands content) \<le> MAX_ACTIVE_CRT_NUM_PER_APPLICATION"
      "\<forall>cmd \<in> set (pool_commands content). load_ok E cmd"
    and skip: "getenv E ''SKIP_FIRST_THREAD'' = None"
    and s: "thread_cnt s = 0" "runtime s = zero_state" and f: "target L s ''pthread_create'' = Some f"
  obtains m where "\<forall>u < MAX_THREAD_NUM. free_context E u m \<and> \<not> reallocatable (prim m u)"
    "\<forall>i. \<not> gone (abs E m) i"
    "\<forall>i < length (pool_commands content). lib_handle (SCAV_TABLE m ! i) \<noteq> None"
    "max_scav_per_thread m = (case getenv E ''MAX_SCAV_PER_THREAD'' of Some v \<Rightarrow> atoi v | None \<Rightarrow> 1)"
    "distinct (map (cmd_handle E) (pool_commands content)) \<longrightarrow> own_libs m"
    "\<And>Q X. ends (msh_alloc_ctx E (int 0) th m) X (\<lambda>(v, th', m'). v = 0 \<and>
        Q (case spawn L f thread attr \<lparr>start_routine = routine, user_arg = arg, thread_id = 1\<rparr> (created s f m')
           of (ret, s') \<Rightarrow> (ret, th', s'))) \<Longrightarrow>
      ends (pthread_create E L thread attr routine arg th s) X Q"
proof -
  let ?cap = "case getenv E ''MAX_SCAV_PER_THREAD'' of Some v \<Rightarrow> atoi v | None \<Rightarrow> 1"
  let ?arg = "\<lparr>start_routine = routine, user_arg = arg, thread_id = 1\<rparr>"
  obtain m where m: "msh_init E ?cap zero_state = Inr (0, m)" "max_scav_per_thread m = ?cap"
      "\<forall>u < MAX_THREAD_NUM. free_context E u m \<and> \<not> reallocatable (prim m u)" "\<forall>i. \<not> gone (abs E m) i"
      "\<forall>i < length (pool_commands content). lib_handle (SCAV_TABLE m ! i) \<noteq> None"
      "distinct (map (cmd_handle E) (pool_commands content)) \<longrightarrow> own_libs m"
    using init_leaves_free_contexts [OF boot, of ?cap] by (auto simp: ends_never)
  let ?s1 = "s\<lparr>runtime := m, thread_cnt := 1\<rparr>"
  have one: "to_int 1 = 1" "to_int 2 = 2" by (simp_all add: to_int_id)
  let ?go = "\<lambda>(err, th, m). case if err \<noteq> 0 then Some (- 1) else None of
      Some v \<Rightarrow> Inr (v, th, ?s1\<lparr>runtime := m\<rparr>)
    | None \<Rightarrow> bindR (create_thread L thread attr routine arg (?s1\<lparr>runtime := m\<rparr>)) (\<lambda>(ret, s). Inr (ret, th, s))"
  have eq: "pthread_create E L thread attr routine arg th s = bindR (msh_alloc_ctx E (int 0) th m) ?go"
    using s skip m(1) one by (simp add: pthread_create_def start_runtime_def Let_def bindR_assoc split_def cong: option.case_cong)
  have go: "?go (0, th', m') = Inr (case spawn L f thread attr ?arg (created s f m') of (ret, s') \<Rightarrow> (ret, th', s'))" for th' m'
    using f one create_thread_spawns [of L "?s1\<lparr>runtime := m'\<rparr>" f]
    by (simp add: numbered_def created_def split: prod.split)
  show thesis
  proof (rule that [OF m(3,4,5,2,6)])
    fix Q X assume al: "ends (msh_alloc_ctx E (int 0) th m) X (\<lambda>(v, th', m'). v = 0 \<and>
        Q (case spawn L f thread attr ?arg (created s f m') of (ret, s') \<Rightarrow> (ret, th', s')))"
    show "ends (pthread_create E L thread attr routine arg th s) X Q"
      unfolding eq
    proof (rule ends_bindI [OF al])
      fix z assume z: "case z of (v, th', m') \<Rightarrow> v = 0 \<and>
        Q (case spawn L f thread attr ?arg (created s f m') of (ret, s') \<Rightarrow> (ret, th', s'))"
      obtain v th' m' where zz: "z = (v, th', m')" by (cases z)
      have "v = 0" using z by (simp add: zz)
      show "ends (?go z) X Q" unfolding zz \<open>v = 0\<close> go ends_Inr using z by (simp add: zz)
    qed
  qed
qed

lemma first_create_ends:
  assumes boot: "unat (prim_base E) mod 64 = 0" "getenv E ''MSH_SCAV_POOL_PATH'' = Some path"
      "length path < 256" "fopen E path = Some content"
      "length (pool_commands content) \<le> MAX_ACTIVE_CRT_NUM_PER_APPLICATION"
      "\<forall>cmd \<in> set (pool_commands content). load_ok E cmd"
    and il: "init_local E" and skip: "getenv E ''SKIP_FIRST_THREAD'' = None"
    and s: "thread_cnt s = 0" "runtime s = zero_state" and f: "target L s ''pthread_create'' = Some f"
  shows "ends (pthread_create E L thread attr routine arg th s) may_exit (\<lambda>(ret, th', s'). \<exists>s1.
    running_in E 0 th' s1 \<and> thread_cnt s1 = 2 \<and>
    max_scav_per_thread (runtime s1) = (case getenv E ''MAX_SCAV_PER_THREAD'' of Some v \<Rightarrow> atoi v | None \<Rightarrow> 1) \<and>
    spawn L f thread attr \<lparr>start_routine = routine, user_arg = arg, thread_id = 1\<rparr> s1 = (ret, s'))"
    (is "ends _ _ ?Q")
proof -
  have created_runtime: "created s f m = (created s f undefined)\<lparr>runtime := m\<rparr>" for m
    by (simp add: created_def)
  show ?thesis
  proof (rule first_create_steps [OF boot skip s f, of th thread attr routine arg])
    fix m
    assume fr: "\<forall>u < MAX_THREAD_NUM. free_context E u m \<and> \<not> reallocatable (prim m u)"
      and cap: "max_scav_per_thread m = (case getenv E ''MAX_SCAV_PER_THREAD'' of Some v \<Rightarrow> atoi v | None \<Rightarrow> 1)"
      and steps: "\<And>Q X. ends (msh_alloc_ctx E (int 0) th m) X (\<lambda>(v, th', m'). v = 0 \<and>
        Q (case spawn L f thread attr \<lparr>start_routine = routine, user_arg = arg, thread_id = 1\<rparr> (created s f m')
           of (ret, s') \<Rightarrow> (ret, th', s'))) \<Longrightarrow> ends (pthread_create E L thread attr routine arg th s) X Q"
    have "free_context E 0 m" using fr by (simp add: capacities)
    then show ?thesis
    proof (intro steps, elim ends_mono [OF alloc_ctx_runs [OF _ il]])
      fix z assume z: "case z of (v, th', m') \<Rightarrow> v = 0 \<and> max_scav_per_thread m' = max_scav_per_thread m \<and>
         (\<forall>s. running_in E 0 th' (s\<lparr>runtime := m'\<rparr>)) \<and>
         (own_libs m \<longrightarrow> (\<forall>u < MAX_THREAD_NUM. \<not> reallocatable (prim m u)) \<longrightarrow> exports_ok m' 0)"
      then obtain th' m' where zz: "z = (0, th', m')" and "max_scav_per_thread m' = max_scav_per_thread m"
          "running_in E 0 th' ((created s f undefined)\<lparr>runtime := m'\<rparr>)"
        by (cases z) blast
      then show "case z of (v, th', m') \<Rightarrow> v = 0 \<and> ?Q (case spawn L f thread attr
          \<lparr>start_routine = routine, user_arg = arg, thread_id = 1\<rparr> (created s f m') of (ret, s') \<Rightarrow> (ret, th', s'))"
        using cap unfolding created_runtime [symmetric]
        by (auto simp: created_def intro!: exI [of _ "created s f m'"] split: prod.split)
    qed
  qed
qed

text \<open>
  C12. The first \<open>pthread_create\<close> of a process brings the runtime up: with a cache-line aligned
  thread table and a pool that fits and resolves, it exits because a symbol of a scavenger is
  missing, or it has initialised the tables with the cap of \<open>MAX_SCAV_PER_THREAD\<close> (1 by default),
  given context 0 to the caller with the scavengers to be had, and then created one thread, with
  id 1; the counter stands at 2.
\<close>

theorem first_create_starts_runtime:
  assumes boot: "unat (prim_base E) mod 64 = 0" "getenv E ''MSH_SCAV_POOL_PATH'' = Some path"
      "length path < 256" "fopen E path = Some content"
      "length (pool_commands content) \<le> MAX_ACTIVE_CRT_NUM_PER_APPLICATION"
      "\<forall>cmd \<in> set (pool_commands content). load_ok E cmd"
    and il: "init_local E" and skip: "getenv E ''SKIP_FIRST_THREAD'' = None"
    and s: "thread_cnt s = 0" "runtime s = zero_state" and f: "target L s ''pthread_create'' = Some f"
  shows "ends (pthread_create E L thread attr routine arg th s) may_exit (\<lambda>(ret, th', s'). \<exists>s1.
    running_in E 0 th' s1 \<and> thread_cnt s1 = 2 \<and>
    max_scav_per_thread (runtime s1) = (case getenv E ''MAX_SCAV_PER_THREAD'' of Some v \<Rightarrow> atoi v | None \<Rightarrow> 1) \<and>
    spawn L f thread attr \<lparr>start_routine = routine, user_arg = arg, thread_id = 1\<rparr> s1 = (ret, s'))"
  using assms by (rule first_create_ends)

text \<open>An environment in which only the path of the pool is set.\<close>

definition boot_env :: env where
  "boot_env = (sample_env (replicate 2 ''a.so''))\<lparr>getenv :=
     (\<lambda>name. if name = ''MSH_SCAV_POOL_PATH'' then Some ''pool.txt'' else None)\<rparr>"

lemma boot_env_ok:
  "unat (prim_base boot_env) mod 64 = 0" "getenv boot_env ''MSH_SCAV_POOL_PATH'' = Some ''pool.txt''"
  "length ''pool.txt'' < 256" "fopen boot_env ''pool.txt'' = Some (unlines (replicate 2 ''a.so''))"
  "length (pool_commands (unlines (replicate 2 ''a.so''))) \<le> MAX_ACTIVE_CRT_NUM_PER_APPLICATION"
  "\<forall>cmd \<in> set (pool_commands (unlines (replicate 2 ''a.so''))). load_ok boot_env cmd"
  "init_local boot_env" "getenv boot_env ''SKIP_FIRST_THREAD'' = None"
  unfolding sample_a_length
  by (simp_all add: boot_env_def sample_env_def capacities load_ok_def argv_0_def init_local_def)

theorem first_create_starts_runtime_witness:
  "ends (pthread_create boot_env quiet_libc 0 0 32 0 new_thread (fresh_process zero_state)) may_exit
     (\<lambda>(ret, th, s'). ret = 0 \<and> owns th 0 \<and> msh_inv boot_env (runtime s') \<and> thread_cnt s' = 2 \<and>
        max_scav_per_thread (runtime s') = 1)"
proof -
  have "target quiet_libc (fresh_process zero_state) ''pthread_create'' = Some 16"
    by (simp add: target_def quiet_libc_def fresh_process_def)
  note r = first_create_starts_runtime [OF boot_env_ok, of "fresh_process zero_state" quiet_libc 16]
  show ?thesis
    by (rule ends_mono [OF r])
      (auto simp: quiet_libc_def fresh_process_def target_def running_in_def boot_env_def)
qed

text \<open>
  Without a pool path the first \<open>pthread_create\<close> fails with -1: no thread is created, the
  caller gets no context, and the counter stays 0, so that the next call tries again.
\<close>

lemma failed_init_creates_no_thread:
  assumes "getenv E ''MSH_SCAV_POOL_PATH'' = None" and "unat (prim_base E) mod 64 = 0"
    and "thread_cnt s = 0" and "shape (runtime s)"
  shows "\<exists>m. pthread_create E L thread attr routine arg th s = Inr (- 1, th, s\<lparr>runtime := m\<rparr>)"
proof -
  let ?cap = "case getenv E ''MAX_SCAV_PER_THREAD'' of Some v \<Rightarrow> atoi v | None \<Rightarrow> 1"
  have "shape ((runtime s)\<lparr>max_scav_per_thread := ?cap\<rparr>)" using assms(4) by (simp add: shape_def)
  then show ?thesis
    using assms(1,3) init_prim_table_ok [OF _ assms(2)]
    by (simp add: pthread_create_def start_runtime_def msh_init_def Let_def) blast
qed

section \<open>Joining\<close>

lemma pthread_join_eq:
  assumes "owns th t" and "t < MAX_THREAD_NUM" and "msh_inv E (runtime s)" and "exports_ok (runtime s) t"
    and "getenv E ''SKIP_CLEANUP'' = None" and skip: "getenv E ''SKIP_FIRST_THREAD'' = None"
    and f: "target L s ''pthread_join'' = Some f"
  shows "if first_join s
    then \<exists>m. cleaned E t (runtime s) (0, m) \<and> pthread_join E L thread retval th s =
      Inr (invoke L f [thread, retval] (s\<lparr>first_join := False, runtime := m,
        original := (original s)(''pthread_join'' := Some f)\<rparr>))
    else pthread_join E L thread retval th s =
      Inr (invoke L f [thread, retval] (s\<lparr>original := (original s)(''pthread_join'' := Some f)\<rparr>))"
proof (cases "first_join s")
  case True
  obtain x where x: "call_cleanup E th (runtime s) = Inr x" "cleaned E t (runtime s) x"
    using call_cleanup_ends [OF assms(3,2,4,5,1)] unfolding ends_never by blast
  obtain m where xx: "x = (0, m)" using x(2) by (cases x) (simp add: cleaned_def)
  then have "pthread_join E L thread retval th s =
      Inr (invoke L f [thread, retval] (s\<lparr>first_join := False, runtime := m,
        original := (original s)(''pthread_join'' := Some f)\<rparr>))"
    using True skip x(1) f by (simp add: pthread_join_def plain_call_target)
  then show ?thesis using True x(2) xx by auto
next
  case False
  then show ?thesis using skip f by (simp add: pthread_join_def plain_call_target)
qed

text \<open>
  C13. The first join of a process retires the scavengers of the joining thread: cleanup comes
  back, the flag is spent, and then the wrapped \<open>pthread_join\<close> is called and its result returned.
  Every later join is the wrapped call alone.
\<close>

theorem first_join_cleans_up:
  assumes "owns th t" and "t < MAX_THREAD_NUM" and "msh_inv E (runtime s)" and "exports_ok (runtime s) t"
    and "getenv E ''SKIP_CLEANUP'' = None" and skip: "getenv E ''SKIP_FIRST_THREAD'' = None"
    and f: "target L s ''pthread_join'' = Some f"
  shows "if first_join s
    then \<exists>m. cleaned E t (runtime s) (0, m) \<and> pthread_join E L thread retval th s =
      Inr (invoke L f [thread, retval] (s\<lparr>first_join := False, runtime := m,
        original := (original s)(''pthread_join'' := Some f)\<rparr>))
    else pthread_join E L thread retval th s =
      Inr (invoke L f [thread, retval] (s\<lparr>original := (original s)(''pthread_join'' := Some f)\<rparr>))"
  using assms by (rule pthread_join_eq)

definition owner2 :: tls where
  "owner2 = new_thread\<lparr>gsbase := Some 2, msh_tid := 2, msh_reallocatable := CtxFlag 2,
     msh_reallocated := CtxFlag 2\<rparr>"

theorem first_join_cleans_up_witness:
  "let s = fresh_process (exporting two_hosts) in hosts (runtime s) 2 = [8, 9] \<and>
   (\<exists>m. hosts m 2 = [] \<and> gone (abs rich_env m) 9 \<and> pthread_join rich_env quiet_libc 4 0 owner2 s =
     Inr (0, s\<lparr>first_join := False, runtime := m, original := (\<lambda>_. None)(''pthread_join'' := Some 16)\<rparr>))"
proof -
  let ?s = "fresh_process (exporting two_hosts)"
  note pl = sample_placeable(1)
  have t: "2 < MAX_THREAD_NUM" by (simp add: capacities)
  have h: "hosts (exporting two_hosts) 2 = [8, 9]"
    using placed_row [OF pl t, of 2] by (simp add: hosts_def exporting_def sample_rows)
  have o: "owns owner2 2" by (simp add: owns_def owner2_def)
  have "\<exists>m. cleaned rich_env 2 (exporting two_hosts) (0, m) \<and> pthread_join rich_env quiet_libc 4 0 owner2 ?s =
     Inr (0, ?s\<lparr>first_join := False, runtime := m, original := (\<lambda>_. None)(''pthread_join'' := Some 16)\<rparr>)"
    using first_join_cleans_up [OF o t, of rich_env ?s quiet_libc 16 4 0] exporting_ok [OF pl t]
    by (simp add: fresh_process_def quiet_libc_def target_def rich_env_def)
  then show ?thesis using h by (auto simp: Let_def cleaned_def fresh_process_def)
qed

text \<open>
  A thread without a context that joins first crashes in cleanup: it dereferences the null
  \<open>gsbase\<close>. With \<open>SKIP_FIRST_THREAD\<close> or after another join it does not.
\<close>

lemma contextless_first_join_crashes:
  "pthread_join E L thread retval new_thread s = Inl NullPointer \<longleftrightarrow>
     (getenv E ''SKIP_FIRST_THREAD'' = None \<and> first_join s \<and> getenv E ''SKIP_CLEANUP'' = None) \<or>
     target L s ''pthread_join'' = None"
  by (auto simp: pthread_join_def call_cleanup_def new_thread_def plain_call_def resolve_target
      split: option.splits)

end
