(* ===== verification/Lifecycle.thy ===== *)
theory Lifecycle
  imports Pthread
begin

text \<open>
  Threads that come and go one after the other. With libraries that export what the runtime looks
  up, allocation never exits; and between the operations the whole runtime stays tidy: the tables
  agree, every scavenger has a library of its own, nobody offers scavengers, and every hosted
  scavenger of every thread exports the offset of its slot.
\<close>

section \<open>Symbols that resolve\<close>

definition exports_symbols :: "env \<Rightarrow> bool" where
  "exports_symbols E \<longleftrightarrow> (\<forall>h. \<forall>name \<in> {''argc'', ''argv'', ''crt_pos''}. dlsym E h name \<noteq> None)"

definition stays :: "'a res \<Rightarrow> bool" where
  "stays m \<longleftrightarrow> m \<noteq> Inl ExitFailure"

named_theorems stays_intros \<open>computations that do not exit\<close>

lemma stays_bindR [stays_intros]: "stays m \<Longrightarrow> (\<And>x. stays (f x)) \<Longrightarrow> stays (bindR m f)"
  by (cases m) (auto simp: stays_def)

lemma stays_simps [simp]: "stays (Inr x)" "stays (Inl e) \<longleftrightarrow> e \<noteq> ExitFailure"
  by (simp_all add: stays_def)

lemma ends_stays: "ends m may_exit P \<Longrightarrow> stays m \<Longrightarrow> ends m never P"
  by (cases m) (auto simp: stays_def)

lemma stays_foldR [stays_intros]: "(\<And>i s. stays (f i s)) \<Longrightarrow> stays (foldR f is s)"
  by (induction "is" arbitrary: s) (auto intro: stays_intros)

lemma stays_scav_get [stays_intros]: "stays (scav_get s i)"
  by (simp add: scav_get_def)

lemma stays_export [stays_intros]: "stays (export_crt_pos E i p s)"
  unfolding export_crt_pos_def by (intro stays_intros) (auto split: option.splits)

lemma stays_realloc_step [stays_intros]: "stays (realloc_step E t u v s)"
  unfolding realloc_step_def Let_def by (auto intro!: stays_intros split: prod.splits option.splits)

lemma stays_realloc_loop [stays_intros]: "stays (realloc_loop E t u v d r s)"
proof (induction E t u v d r s rule: realloc_loop.induct)
  case (1 E t u v d r s)
  have "stays (bindR (realloc_step E t u v s) (\<lambda>(moved, s).
      if moved then realloc_loop E t u v d (r + 1) s else Inr (r, s)))" if "r < d"
    using 1 [OF that] by (intro stays_intros) auto
  then show ?case by (subst realloc_loop.simps) simp
qed

lemma stays_realloc_threads [stays_intros]: "stays (realloc_from_threads E t c d tids r s)"
proof (induction tids arbitrary: r s)
  case (Cons u tids)
  then show ?case by (auto simp: Let_def realloc_scav_def intro!: stays_intros)
qed simp

lemma stays_symbols [stays_intros]: "exports_symbols E \<Longrightarrow> stays (set_scav_symbol E t i p s)"
  unfolding set_scav_symbol_def Let_def
  by (intro stays_intros) (auto simp: exports_symbols_def simp del: not_None_eq split: option.splits)

lemma stays_pool [stays_intros]: "exports_symbols E \<Longrightarrow> stays (alloc_from_pool E t c d idxs r s)"
proof (induction idxs arbitrary: r s)
  case (Cons i idxs)
  then have "stays (bindR (place_scav E t c i p s1) (\<lambda>s.
      if r + 1 \<ge> d then Inr (r + 1, s) else alloc_from_pool E t c d idxs (r + 1) s))" for p s1
    unfolding place_scav_def Let_def by (auto intro!: stays_intros)
  then show ?case using Cons by (auto split: prod.splits option.splits)
qed simp

lemma stays_init [stays_intros]: "stays (init_step E t p s)"
  unfolding init_step_def Let_def by (auto intro!: stays_intros split: option.splits)

lemma stays_lock [stays_intros]: "stays (lock_scav_table s)"
  unfolding lock_scav_table_def by (auto simp: spin_lock_def intro!: stays_intros split: prod.splits)

lemma stays_allocate [stays_intros]: "exports_symbols E \<Longrightarrow> stays (allocate_scav E t c s)"
  unfolding allocate_scav_def allocate_scav_locked_def call_init_for_new_scav_def Let_def
  by (auto intro!: stays_intros)

lemma stays_alloc_ctx: "exports_symbols E \<Longrightarrow> stays (msh_alloc_ctx E tid th s)"
  unfolding msh_alloc_ctx_def Let_def by (auto intro!: stays_intros)

section \<open>A tidy runtime\<close>

definition tidy :: "env \<Rightarrow> msh_state \<Rightarrow> bool" where
  "tidy E m \<longleftrightarrow> msh_inv E m \<and> own_libs m \<and>
     (\<forall>u < MAX_THREAD_NUM. \<not> reallocatable (prim m u) \<and> exports_ok m u)"

lemma tidyD:
  assumes "tidy E m"
  shows "msh_inv E m" "own_libs m" "u < MAX_THREAD_NUM \<Longrightarrow> \<not> reallocatable (prim m u)"
    "u < MAX_THREAD_NUM \<Longrightarrow> exports_ok m u"
  using assms by (simp_all add: tidy_def)

lemma exports_ok_empty:
  assumes "msh_inv E m" and "t < MAX_THREAD_NUM" and "hosts m t = []"
  shows "exports_ok m t" "packed (idx_list (prim m t))"
proof -
  have len: "length (idx_list (prim m t)) = NSLOT" using msh_invD(6) [OF assms(1,2)] by (simp add: prim_shape_def)
  have none: "idx_of m t p = - 1" if "0 < p" "p < NSLOT" for p
    using tl_find_unfinished_crt_spec [OF assms(1,2)] find_unfinished_hosts [OF assms(1,2)] assms(3) that by auto
  show "exports_ok m t" using none unfolding exports_ok_def by blast
  show "packed (idx_list (prim m t))"
  proof (rule packed_no_hole)
    show "idx_list (prim m t) \<noteq> []" using len NSLOT_pos by (metis length_greater_0_conv)
  qed (use none len in auto)
qed

lemma free_tidy:
  assumes "\<forall>u < MAX_THREAD_NUM. free_context E u m \<and> \<not> reallocatable (prim m u)" and "own_libs m"
  shows "tidy E m"
proof -
  have "0 < MAX_THREAD_NUM" by (simp add: capacities)
  then have "msh_inv E m" using assms(1) unfolding free_context_def by blast
  then show ?thesis using assms exports_ok_empty(1) by (auto simp: tidy_def free_context_def)
qed

text \<open>Thread \<open>t\<close> has taken its context: it got what it could, and nothing else happened.\<close>

definition took :: "env \<Rightarrow> nat \<Rightarrow> msh_state \<Rightarrow> msh_state \<Rightarrow> bool" where
  "took E t m m' \<longleftrightarrow> tidy E m' \<and> satisfied E t m' \<and> max_scav_per_thread m' = max_scav_per_thread m \<and>
     gone (abs E m') = gone (abs E m) \<and> linked (abs E m') = linked (abs E m) \<and>
     (\<forall>u < MAX_THREAD_NUM. u \<noteq> t \<longrightarrow> prim m' u = prim m u)"

lemma ends_ball:
  assumes "\<And>u. u \<in> A \<Longrightarrow> ends m E (P u)" and "a \<in> A"
  shows "ends m E (\<lambda>x. \<forall>u \<in> A. P u x)"
  using assms by (cases m) auto

lemma alloc_ctx_took:
  assumes td: "tidy E m" and t: "t < MAX_THREAD_NUM" and h: "hosts m t = []"
    and il: "init_local E" and sy: "exports_symbols E"
  shows "ends (msh_alloc_ctx E (int t) th m) never (\<lambda>(v, th', m'). v = 0 \<and> owns th' t \<and> took E t m m')"
proof (rule ends_stays [OF _ stays_alloc_ctx [OF sy]])
  note d = tidyD [OF td]
  have a: "ends (msh_alloc_ctx E (int t) th m) may_exit (\<lambda>(v, th', m'). v = 0 \<and> owns th' t \<and>
      msh_inv E m' \<and> satisfied E t m' \<and> \<not> reallocatable (prim m' t) \<and>
      max_scav_per_thread m' = max_scav_per_thread m \<and> gone (abs E m') = gone (abs E m) \<and> linked (abs E m') = linked (abs E m) \<and>
      (\<forall>u < MAX_THREAD_NUM. u \<noteq> t \<longrightarrow> prim m' u = prim m u))"
    by (rule ends_mono [OF alloc_ctx_ends [OF d(1) _ _ _ _ _ il, where tid = "int t"]]) (use t h d in auto)
  have b: "ends (msh_alloc_ctx E (int t) th m) may_exit (\<lambda>x. \<forall>u \<in> {..<MAX_THREAD_NUM}.
      case x of (v, th', m') \<Rightarrow> exports_ok m' u \<and> own_libs m')"
  proof (rule ends_ball)
    fix u assume u: "u \<in> {..<MAX_THREAD_NUM}"
    then show "ends (msh_alloc_ctx E (int t) th m) may_exit (\<lambda>(v, th', m'). exports_ok m' u \<and> own_libs m')"
      using d by (intro alloc_ctx_exports [OF d(1) t exports_ok_empty(2) [OF d(1) t h] _ d(2) _ il]) auto
  qed (use t in simp)
  from ends_conj [OF a b]
  show "ends (msh_alloc_ctx E (int t) th m) may_exit (\<lambda>(v, th', m'). v = 0 \<and> owns th' t \<and> took E t m m')"
  proof (rule ends_mono)
    fix x assume x: "(case x of (v, th', m') \<Rightarrow> v = 0 \<and> owns th' t \<and>
        msh_inv E m' \<and> satisfied E t m' \<and> \<not> reallocatable (prim m' t) \<and>
        max_scav_per_thread m' = max_scav_per_thread m \<and> gone (abs E m') = gone (abs E m) \<and> linked (abs E m') = linked (abs E m) \<and>
        (\<forall>u < MAX_THREAD_NUM. u \<noteq> t \<longrightarrow> prim m' u = prim m u)) \<and>
      (\<forall>u \<in> {..<MAX_THREAD_NUM}. case x of (v, th', m') \<Rightarrow> exports_ok m' u \<and> own_libs m')"
    obtain v th' m' where xx: "x = (v, th', m')" by (cases x)
    have "\<not> reallocatable (prim m' u)" if "u < MAX_THREAD_NUM" for u
      using x d(3) [OF that] that by (cases "u = t") (simp_all add: xx)
    moreover have "own_libs m'" using x t by (auto simp: xx)
    ultimately show "case x of (v, th', m') \<Rightarrow> v = 0 \<and> owns th' t \<and> took E t m m'"
      using x by (simp add: xx took_def tidy_def)
  qed simp
qed

lemma cleaned_tidy:
  assumes td: "tidy E m" and t: "t < MAX_THREAD_NUM" and c: "cleaned E t m (0, m')"
  shows "tidy E m'"
proof -
  note d = tidyD [OF td]
  have c': "msh_inv E m'" "hosts m' t = []" "\<And>u. u \<noteq> t \<Longrightarrow> prim m' u = prim m u" "libs m' = libs m"
      "map lib_handle (SCAV_TABLE m') = map lib_handle (SCAV_TABLE m)"
      "reallocatable (prim m' t) = reallocatable (prim m t)"
    using c by (simp_all add: cleaned_def)
  have len: "length (SCAV_TABLE m) = MAX_ACTIVE_CRT_NUM_PER_APPLICATION" using msh_invD(5) [OF d(1)] .
  have handles: "lib_handle (scav m' i) = lib_handle (scav m i)" if "scav_in_range i" for i
    using that len c'(5) map_eq_imp_length_eq [OF c'(5)] by (metis nth_map scav_in_range_def nat_less_iff)
  have "exports_ok m' u" if u: "u < MAX_THREAD_NUM" for u
  proof (cases "u = t")
    case True
    then show ?thesis using exports_ok_empty(1) [OF c'(1) t c'(2)] by simp
  next
    case False
    then show ?thesis
      using exports_ok_transfer [OF d(4) [OF u] msh_inv_tables_ok [OF d(1)] u c'(4) _ handles] c'(3) by simp
  qed
  moreover have "\<not> reallocatable (prim m' u)" if "u < MAX_THREAD_NUM" for u
    using d(3) [OF that] c'(3,6) by (cases "u = t") simp_all
  ultimately show ?thesis using c'(1) own_libs_cong [OF c'(5) len] d(2) by (simp add: tidy_def)
qed

lemma cleaned_linked:
  assumes "msh_inv E m" and c: "cleaned E t m (0, m')"
  shows "linked (abs E m') = linked (abs E m)"
proof -
  have eq: "map lib_handle (SCAV_TABLE m') = map lib_handle (SCAV_TABLE m)" using c by (simp add: cleaned_def)
  have "lib_handle (scav m' i) = lib_handle (scav m i)" if "scav_in_range i" for i
    using that msh_invD(5) [OF assms(1)] map_eq_imp_length_eq [OF eq] arg_cong [OF eq, of "\<lambda>l. l ! nat i"]
    by (simp add: scav_in_range_def nat_less_iff)
  then show ?thesis by (auto simp: abs_def fun_eq_iff)
qed

text \<open>A thread that took its context in \<open>m\<close> and then, from \<open>m1\<close>, ran its scavengers to completion.\<close>

definition lived :: "env \<Rightarrow> nat \<Rightarrow> msh_state \<Rightarrow> msh_state \<Rightarrow> msh_state \<Rightarrow> bool" where
  "lived E t m m1 m' \<longleftrightarrow> took E t m m1 \<and> cleaned E t m1 (0, m')"

lemma livedD:
  assumes l: "lived E t m m1 m'" and t: "t < MAX_THREAD_NUM"
  shows "tidy E m'" "hosts m' t = []" "u < MAX_THREAD_NUM \<Longrightarrow> u \<noteq> t \<Longrightarrow> prim m' u = prim m u"
    "gone (abs E m') i \<longleftrightarrow> gone (abs E m) i \<or> i \<in> set (hosts m1 t)"
    "linked (abs E m') = linked (abs E m)" "max_scav_per_thread m' = max_scav_per_thread m"
proof -
  have m1: "tidy E m1" and c: "cleaned E t m1 (0, m')" using l by (simp_all add: lived_def took_def)
  show "tidy E m'" by (rule cleaned_tidy [OF m1 t c])
  show "linked (abs E m') = linked (abs E m)"
    using l cleaned_linked [OF tidyD(1) [OF m1] c] by (simp add: lived_def took_def)
qed (use l in \<open>auto simp: lived_def took_def cleaned_def\<close>)

text \<open>A created thread whose routine leaves the runtime alone.\<close>

lemma quiet_routine_lived:
  assumes td: "tidy E (runtime s)" and t: "t < MAX_THREAD_NUM" and h: "hosts (runtime s) t = []"
    and il: "init_local E" and sy: "exports_symbols E" and cl: "getenv E ''SKIP_CLEANUP'' = None"
    and id: "thread_id arg = int t"
    and quiet: "\<And>th s. run_user L (start_routine arg) (user_arg arg) th s = (ret, s)"
  shows "ends (msh_start_routine E L arg s) never (\<lambda>(v, s'). v = ret \<and>
    (\<exists>m1 m'. s' = s\<lparr>runtime := m'\<rparr> \<and> lived E t (runtime s) m1 m'))"
  unfolding msh_start_routine_def id
proof (rule ends_bindI [OF alloc_ctx_took [OF td t h il sy]])
  fix x assume x: "case x of (v, th', m') \<Rightarrow> v = 0 \<and> owns th' t \<and> took E t (runtime s) m'"
  then obtain th m1 where xx: "x = (0, th, m1)" and o: "owns th t" and tk: "took E t (runtime s) m1"
    by (cases x) auto
  have "tidy E m1" using tk by (simp add: took_def)
  then obtain z where z: "call_cleanup E th m1 = Inr z" "cleaned E t m1 z"
    using call_cleanup_ends [OF tidyD(1) t tidyD(4) [OF _ t] cl o] unfolding ends_never by blast
  obtain m' where zz: "z = (0, m')" using z(2) by (cases z) (simp add: cleaned_def)
  have "lived E t (runtime s) m1 m'" using tk z(2) zz by (simp add: lived_def)
  then show "ends (case x of (err, th, m) \<Rightarrow> let s = s\<lparr>runtime := m\<rparr> in if err \<noteq> 0 then Inr (0, s)
      else let (ret, s) = run_user L (start_routine arg) (user_arg arg) th s
           in bindR (call_cleanup E th (runtime s)) (\<lambda>(err, m).
              let s = s\<lparr>runtime := m\<rparr> in if err \<noteq> 0 then Inr (0, s) else Inr (ret, s))) never
    (\<lambda>(v, s'). v = ret \<and> (\<exists>m1 m'. s' = s\<lparr>runtime := m'\<rparr> \<and> lived E t (runtime s) m1 m'))"
    using z(1) by (auto simp: xx zz quiet Let_def)
qed

section \<open>Two threads\<close>

lemma hosts_map:
  assumes "msh_inv E m" and "t < MAX_THREAD_NUM"
  shows "hosts m t = map (idx_of m t) (filter (\<lambda>p. idx_of m t p \<noteq> - 1) [1..<NSLOT])"
proof -
  have len: "length (idx_list (prim m t)) = NSLOT" using msh_invD(6) [OF assms] by (simp add: prim_shape_def)
  have "tl (idx_list (prim m t)) = map (idx_of m t) [1..<NSLOT]"
    by (rule nth_equalityI) (simp_all add: len nth_tl)
  then show ?thesis by (simp add: hosts_def items_def filter_map comp_def)
qed

lemma host_positions:
  "t < MAX_THREAD_NUM \<Longrightarrow>
   set (filter (\<lambda>p. idx_of m t p \<noteq> - 1) [1..<NSLOT]) = {p. slot t p \<and> idx_of m t p \<noteq> - 1}"
  by auto

lemma hosts_elem:
  assumes "msh_inv E m" and "t < MAX_THREAD_NUM"
  shows "i \<in> set (hosts m t) \<longleftrightarrow> (\<exists>p. slot t p \<and> idx_of m t p \<noteq> - 1 \<and> i = idx_of m t p)"
  unfolding hosts_map [OF assms] set_map host_positions [OF assms(2)] image_iff Bex_def mem_Collect_eq
  by (simp only: conj_assoc)

lemma hosts_set:
  assumes inv: "msh_inv E m" and t: "t < MAX_THREAD_NUM"
  shows "i \<in> set (hosts m t) \<longleftrightarrow> scav_in_range i \<and> (\<exists>p. yc (scav m i) = Some (t, p))"
proof
  assume "i \<in> set (hosts m t)"
  then obtain p where p: "slot t p" "idx_of m t p \<noteq> - 1" "i = idx_of m t p" unfolding hosts_elem [OF assms] by metis
  show "scav_in_range i \<and> (\<exists>p. yc (scav m i) = Some (t, p))"
    unfolding p(3) using hosted_facts(1,2) [OF inv p(1,2)] by blast
next
  assume "scav_in_range i \<and> (\<exists>p. yc (scav m i) = Some (t, p))"
  then obtain p where r: "scav_in_range i" and "host (abs E m) i = Some (t, p)" by (auto simp: abs_def)
  then have "slot t p \<and> idx_of m t p = i"
    using coherentD(6) [OF msh_invD(3) [OF inv] r, of t p] by (simp add: abs_def cong: conj_cong)
  moreover have "i \<noteq> - 1" using r by auto
  ultimately show "i \<in> set (hosts m t)" unfolding hosts_elem [OF assms] by metis
qed

lemma hosts_not_gone:
  assumes inv: "msh_inv E m" and t: "t < MAX_THREAD_NUM" and i: "i \<in> set (hosts m t)"
  shows "\<not> gone (abs E m) i"
proof -
  obtain p where p: "slot t p" "idx_of m t p \<noteq> - 1" "i = idx_of m t p" using i unfolding hosts_elem [OF inv t] by metis
  show ?thesis unfolding p(3) using hosted_facts(3) [OF inv p(1,2)] by (simp add: abs_def)
qed

lemma card_hosts:
  assumes inv: "msh_inv E m" and t: "t < MAX_THREAD_NUM"
  shows "card (set (hosts m t)) = length (hosts m t)"
proof -
  have "inj_on (idx_of m t) {p. slot t p \<and> idx_of m t p \<noteq> - 1}"
  proof (rule inj_onI)
    fix p q assume "p \<in> {p. slot t p \<and> idx_of m t p \<noteq> - 1}" "q \<in> {p. slot t p \<and> idx_of m t p \<noteq> - 1}"
      and eq: "idx_of m t p = idx_of m t q"
    then have "slot t p" "idx_of m t p \<noteq> - 1" "slot t q" "idx_of m t q \<noteq> - 1" by simp_all
    from hosted_facts(2) [OF inv this(1,2)] hosted_facts(2) [OF inv this(3,4)] show "p = q"
      unfolding eq by simp
  qed
  then have "inj_on (idx_of m t) (set (filter (\<lambda>p. idx_of m t p \<noteq> - 1) [1..<NSLOT]))"
    unfolding host_positions [OF t] .
  moreover have "distinct (filter (\<lambda>p. idx_of m t p \<noteq> - 1) [1..<NSLOT])" by simp
  ultimately have "distinct (hosts m t)" unfolding hosts_map [OF assms] distinct_map by blast
  then show ?thesis by (rule distinct_card)
qed

lemma satisfied_cases:
  assumes inv: "msh_inv E m" and t: "t < MAX_THREAD_NUM" and sat: "satisfied E t m"
    and only: "\<And>u. u < MAX_THREAD_NUM \<Longrightarrow> u \<notin> U \<Longrightarrow> hosts m u = []"
  shows "min (max_scav_per_thread m) (int MAX_CRT_PER_THREAD) \<le> int (card (set (hosts m t))) \<or>
    (\<forall>i. linked (abs E m) i \<longrightarrow> gone (abs E m) i \<or> (\<exists>u \<in> U. i \<in> set (hosts m u)))"
proof (cases "exhausted E {..<MAX_ACTIVE_CRT_NUM_PER_APPLICATION} m")
  case True
  have "gone (abs E m) i \<or> (\<exists>u \<in> U. i \<in> set (hosts m u))" if l: "linked (abs E m) i" for i
  proof -
    have r: "scav_in_range i" using l by (simp add: abs_def)
    then have "nat i \<in> {..<MAX_ACTIVE_CRT_NUM_PER_APPLICATION}" "int (nat i) = i"
      by (auto simp: scav_in_range_def nat_less_iff)
    then have "host (abs E m) i \<noteq> None \<or> gone (abs E m) i"
      using True l unfolding exhausted_def by metis
    moreover have "\<exists>u \<in> U. i \<in> set (hosts m u)" if h: "host (abs E m) i = Some (u, p)" for u p
    proof -
      have u: "u < MAX_THREAD_NUM" using coherentD(6) [OF msh_invD(3) [OF inv] r h] by simp
      then have "i \<in> set (hosts m u)" using hosts_set [OF inv u] r h by (simp add: abs_def)
      then show ?thesis using only [OF u] by (cases "u \<in> U") auto
    qed
    ultimately show ?thesis by fastforce
  qed
  then show ?thesis by blast
next
  case False
  then show ?thesis using sat card_hosts [OF inv t] by (auto simp: satisfied_def)
qed

text \<open>
  What two threads with at most \<open>cap\<close> scavengers each have achieved since \<open>m\<close>: nobody hosts
  anything, and either every scavenger of the pool has finished or each thread had as many as the
  cap and the room in its context allow, and they have finished.
\<close>

definition pool_done :: "env \<Rightarrow> int \<Rightarrow> msh_state \<Rightarrow> msh_state \<Rightarrow> bool" where
  "pool_done E cap m m' \<longleftrightarrow> tidy E m' \<and> (\<forall>u < MAX_THREAD_NUM. hosts m' u = []) \<and>
     ((\<forall>i. linked (abs E m) i \<longrightarrow> gone (abs E m') i) \<or>
      2 * min cap (int MAX_CRT_PER_THREAD) \<le> int (card {i. gone (abs E m') i}))"

lemma pool_doneI:
  assumes "tidy E m'" and "\<forall>u < MAX_THREAD_NUM. hosts m' u = []" and "finite A" and "finite B" and "A \<inter> B = {}"
    and g: "\<And>i. gone (abs E m') i \<longleftrightarrow> i \<in> A \<or> i \<in> B"
    and a: "min cap (int MAX_CRT_PER_THREAD) \<le> int (card A) \<or> (\<forall>i. linked (abs E m) i \<longrightarrow> i \<in> A \<or> i \<in> B)"
    and b: "min cap (int MAX_CRT_PER_THREAD) \<le> int (card B) \<or> (\<forall>i. linked (abs E m) i \<longrightarrow> i \<in> A \<or> i \<in> B)"
  shows "pool_done E cap m m'"
proof -
  have "{i. gone (abs E m') i} = A \<union> B" using g by auto
  then have "card {i. gone (abs E m') i} = card A + card B" using assms(3-5) by (simp add: card_Un_disjoint)
  then show ?thesis using assms(1,2) a b g by (auto simp: pool_done_def)
qed

lemma second_thread_first:
  assumes tk: "took E 0 m m0" and l: "lived E 1 m0 mx m1" and c: "cleaned E 0 m1 (0, m')"
    and none: "\<And>i. \<not> gone (abs E m) i" and h: "\<And>u. u < MAX_THREAD_NUM \<Longrightarrow> hosts m u = []"
  shows "pool_done E (max_scav_per_thread m) m m'"
proof -
  have t: "0 < MAX_THREAD_NUM" "1 < MAX_THREAD_NUM" by (simp_all add: capacities)
  note d = livedD [OF l t(2)]
  have tx: "took E 1 m0 mx" using l by (simp add: lived_def)
  note i0 = tidyD(1) [of E m0] and ix = tidyD(1) [of E mx]
  have td: "tidy E m0" "tidy E mx" using tk tx by (simp_all add: took_def)
  have p: "prim mx 0 = prim m0 0" "prim m1 0 = prim m0 0" using tx d(3) [of 0] t by (simp_all add: took_def)
  have o: "hosts mx u = []" "hosts m0 u = []" "hosts m' u = []" if "u < MAX_THREAD_NUM" "u \<noteq> 0" "u \<noteq> 1" for u
    using that tk tx c d(3) [OF that(1,3)] h [OF that(1)] by (simp_all add: took_def cleaned_def hosts_def)
  have h1: "hosts m0 1 = []" "hosts m' 1 = []" "hosts m' 0 = []"
    using tk c d(2) h t by (simp_all add: took_def cleaned_def hosts_def)
  have o0: "hosts m0 u = []" if "u < MAX_THREAD_NUM" "u \<notin> {0}" for u
    using that o(2) [of u] h1(1) by (cases "u = 1") auto
  have hx: "hosts mx 0 = hosts m0 0" using p(1) by (simp add: hosts_def)
  have sat: "satisfied E 0 m0" "satisfied E 1 mx" "linked (abs E m0) = linked (abs E m)"
      "linked (abs E mx) = linked (abs E m)" "gone (abs E m0) = gone (abs E m)" "gone (abs E mx) = gone (abs E m)"
      "max_scav_per_thread m0 = max_scav_per_thread m" "max_scav_per_thread mx = max_scav_per_thread m"
    using tk tx by (simp_all add: took_def)
  show ?thesis
  proof (rule pool_doneI [of E m' "set (hosts m0 0)" "set (hosts mx 1)"])
    show "tidy E m'" by (rule cleaned_tidy [OF d(1) t(1) c])
    have "hosts m' u = []" if "u < MAX_THREAD_NUM" for u
      using o(3) [OF that] h1(2,3) by (cases "u = 0"; cases "u = 1") auto
    then show "\<forall>u < MAX_THREAD_NUM. hosts m' u = []" by blast
    show "gone (abs E m') i \<longleftrightarrow> i \<in> set (hosts m0 0) \<or> i \<in> set (hosts mx 1)" for i
      using c d(4) [of i] tk none p(2) by (auto simp: cleaned_def took_def hosts_def)
    show "set (hosts m0 0) \<inter> set (hosts mx 1) = {}"
      using hosts_set [OF ix [OF td(2)] t(1)] hosts_set [OF ix [OF td(2)] t(2)] p(1) by (auto simp: hosts_def)
    show "min (max_scav_per_thread m) (int MAX_CRT_PER_THREAD) \<le> int (card (set (hosts m0 0))) \<or>
        (\<forall>i. linked (abs E m) i \<longrightarrow> i \<in> set (hosts m0 0) \<or> i \<in> set (hosts mx 1))"
      using satisfied_cases [OF i0 [OF td(1)] t(1), of "{0}"] sat none o0 by auto
    show "min (max_scav_per_thread m) (int MAX_CRT_PER_THREAD) \<le> int (card (set (hosts mx 1))) \<or>
        (\<forall>i. linked (abs E m) i \<longrightarrow> i \<in> set (hosts m0 0) \<or> i \<in> set (hosts mx 1))"
      using satisfied_cases [OF ix [OF td(2)] t(2), of "{0, 1}"] sat none o(1) hx by auto
  qed simp_all
qed

lemma second_thread_last:
  assumes l0: "lived E 0 m m0 m1" and l: "lived E 1 m1 mx m'"
    and none: "\<And>i. \<not> gone (abs E m) i" and h: "\<And>u. u < MAX_THREAD_NUM \<Longrightarrow> hosts m u = []"
  shows "pool_done E (max_scav_per_thread m) m m'"
proof -
  have t: "0 < MAX_THREAD_NUM" "1 < MAX_THREAD_NUM" by (simp_all add: capacities)
  note d0 = livedD [OF l0 t(1)] and d = livedD [OF l t(2)]
  have tk: "took E 0 m m0" "took E 1 m1 mx" using l0 l by (simp_all add: lived_def)
  have td: "msh_inv E m0" "msh_inv E mx" using tk tidyD(1) by (auto simp: took_def)
  have o0: "hosts m0 u = []" if "u < MAX_THREAD_NUM" "u \<noteq> 0" for u
    using that tk(1) h [OF that(1)] by (simp add: took_def hosts_def)
  have o1: "hosts m1 u = []" if "u < MAX_THREAD_NUM" for u
    using that d0(2) d0(3) [OF that] h [OF that] by (cases "u = 0") (simp_all add: hosts_def)
  have ox: "hosts mx u = []" "hosts m' u = []" if "u < MAX_THREAD_NUM" "u \<noteq> 1" for u
    using that tk(2) d(3) [OF that] o1 [OF that(1)] by (simp_all add: took_def hosts_def)
  have sat: "satisfied E 0 m0" "satisfied E 1 mx" "linked (abs E m0) = linked (abs E m)"
      "linked (abs E mx) = linked (abs E m)" "gone (abs E m0) = gone (abs E m)" "gone (abs E mx) = gone (abs E m1)"
      "max_scav_per_thread m0 = max_scav_per_thread m" "max_scav_per_thread mx = max_scav_per_thread m"
    using tk d0(5,6) by (simp_all add: took_def)
  show ?thesis
  proof (rule pool_doneI [of E m' "set (hosts m0 0)" "set (hosts mx 1)"])
    show "tidy E m'" by (rule d(1))
    show "\<forall>u < MAX_THREAD_NUM. hosts m' u = []" using ox(2) d(2) by metis
    show "gone (abs E m') i \<longleftrightarrow> i \<in> set (hosts m0 0) \<or> i \<in> set (hosts mx 1)" for i
      using d(4) [of i] d0(4) [of i] none by auto
    have "\<not> gone (abs E mx) i" if "i \<in> set (hosts mx 1)" for i
      by (rule hosts_not_gone [OF td(2) t(2) that])
    then show "set (hosts m0 0) \<inter> set (hosts mx 1) = {}"
      using d0(4) tk(2) by (auto simp: took_def)
    show "min (max_scav_per_thread m) (int MAX_CRT_PER_THREAD) \<le> int (card (set (hosts m0 0))) \<or>
        (\<forall>i. linked (abs E m) i \<longrightarrow> i \<in> set (hosts m0 0) \<or> i \<in> set (hosts mx 1))"
      using satisfied_cases [OF td(1) t(1), of "{0}"] sat none o0 by auto
    show "min (max_scav_per_thread m) (int MAX_CRT_PER_THREAD) \<le> int (card (set (hosts mx 1))) \<or>
        (\<forall>i. linked (abs E m) i \<longrightarrow> i \<in> set (hosts m0 0) \<or> i \<in> set (hosts mx 1))"
      using satisfied_cases [OF td(2) t(2), of "{1}"] sat none ox(1) d0(4) by auto
  qed simp_all
qed

end
