(* ===== verification/Tsc.thy ===== *)
theory Tsc
  imports Prelude
begin

text \<open>
  The time stamp counter as the sample programs read it.
\<close>

text \<open>
  The instruction \<open>rdtsc\<close> (and \<open>rdtscp\<close>) leaves the low half of the counter in \<open>%rax\<close> and the high
  half in \<open>%rdx\<close>.
\<close>

definition rdtsc :: "64 word \<Rightarrow> 64 word \<times> 64 word" where
  "rdtsc tsc = (take_bit 32 tsc, drop_bit 32 tsc)"

lemma rdtsc_halves: "or (take_bit 32 x) (push_bit 32 (drop_bit 32 x)) = (x :: 64 word)"
proof (rule bit_eqI)
  fix k show "bit (or (take_bit 32 x) (push_bit 32 (drop_bit 32 x))) k = bit x k"
    by (cases "k < 32") (auto simp: bit_or_iff bit_take_bit_iff bit_push_bit_iff bit_drop_bit_eq dest: bit_imp_le_length)
qed

end
