(* ===== verification/Ptrchase.thy ===== *)
theory Ptrchase
  imports C_Library Tsc "HOL-Library.Multiset"
begin

text \<open>
  The sample primary \<open>apps/src/primary/ptrchase.cpp\<close>: it links the nodes of an array to one random
  cycle and chases the pointers. The array is a list of nodes, a pointer into it an index, \<open>NULL\<close>
  is \<open>None\<close>. The code that creates and joins the threads is in \<open>Apps\<close>.
\<close>

section \<open>Time stamps\<close>

definition start64_rdtsc :: "64 word \<Rightarrow> 64 word" where
  "start64_rdtsc tsc = (let (rax, rdx) = rdtsc tsc; rdx = push_bit 32 rdx in or rax rdx)"

definition stop64_rdtsc :: "64 word \<Rightarrow> 64 word" where
  "stop64_rdtsc tsc = (let (rax, rdx) = rdtsc tsc; rdx = push_bit 32 rdx in or rax rdx)"

definition start64_ts :: "64 word \<Rightarrow> 64 word" where
  "start64_ts = start64_rdtsc"

definition stop64_ts :: "64 word \<Rightarrow> 64 word" where
  "stop64_ts = stop64_rdtsc"

definition FREQ_MHZ :: "64 word" where
  "FREQ_MHZ = 2100"

definition RDTSC_TO_NS :: "64 word \<Rightarrow> 64 word" where
  "RDTSC_TO_NS x = x * 1000 div FREQ_MHZ"

section \<open>Data\<close>

definition CORE_NUM :: nat where "CORE_NUM = 1"
definition JOBS_PER_CORE :: nat where "JOBS_PER_CORE = 1"
definition NODE_ALIGN :: nat where "NODE_ALIGN = 64"
definition REPS :: nat where "REPS = 10"
definition ARR_LEN :: nat where "ARR_LEN = 1024 * 64"

record node =
  "next" :: "nat option"

definition sizeof_node :: nat where
  "sizeof_node = 8 + (NODE_ALIGN - 8)"

record chase =
  data_arr :: "node list option"
  seed_randomizer :: int
  run_time :: "64 word list"

text \<open>
  The libraries: \<open>time\<close>, the sequence of values that \<open>rand\<close> returns after \<open>srand\<close> with a seed, and
  whether \<open>mmap\<close> of a number of bytes succeeds.
\<close>

record host_lib =
  time_now :: int
  rand_after :: "32 word \<Rightarrow> nat \<Rightarrow> int"
  mmap_ok :: "nat \<Rightarrow> bool"

section \<open>A random cycle\<close>

text \<open>
  \<open>gen_cycle\<close>. Entries of \<open>out\<close> are \<open>None\<close> until they are written; indices are \<open>int\<close>s, cut to 32 bits
  when they are stored.
\<close>

definition init_perm :: "nat \<Rightarrow> int list" where
  "init_perm n = map (\<lambda>idx. to_int (int idx)) [0..<n]"

definition dst_idx :: "(nat \<Rightarrow> int) \<Rightarrow> nat \<Rightarrow> nat \<Rightarrow> nat" where
  "dst_idx rnd n idx = nat (to_size_t (rnd idx)) mod n"

definition shuffle :: "(nat \<Rightarrow> int) \<Rightarrow> nat \<Rightarrow> int list \<Rightarrow> int list" where
  "shuffle rnd n perm = fold (\<lambda>idx perm. swap_nth perm idx (dst_idx rnd n idx)) [0..<n] perm"

definition link_step :: "int list \<Rightarrow> nat \<Rightarrow> nat \<Rightarrow> int option list \<Rightarrow> int option list res" where
  "link_step perm n idx out =
     (let k = perm ! idx in
      if k < 0 \<or> int (length out) \<le> k then Inl OutOfBounds
      else Inr (out[nat k := Some (perm ! ((idx + 1) mod n))]))"

definition gen_cycle :: "(nat \<Rightarrow> int) \<Rightarrow> int option list \<Rightarrow> nat \<Rightarrow> int option list res" where
  "gen_cycle rnd out out_len =
     (let perm = shuffle rnd out_len (init_perm out_len)
      in foldR (link_step perm out_len) [0..<out_len] out)"

text \<open>
  The \<open>do ... while\<close> of \<open>init_run\<close>: follow the cycle from node 0 and link the nodes, until the cycle
  is back at 0. \<open>None\<close> is a loop that does not end.
\<close>

partial_function (option) link_nodes ::
  "int option list \<Rightarrow> nat \<Rightarrow> int \<Rightarrow> node list \<Rightarrow> node list res option" where
  "link_nodes cycle base cur arr =
     (if cur < 0 \<or> int (length cycle) \<le> cur then Some (Inl OutOfBounds)
      else case cycle ! nat cur of
        None \<Rightarrow> Some (Inl Indeterminate)
      | Some nxt \<Rightarrow>
          if base + nat cur \<ge> length arr then Some (Inl OutOfBounds)
          else let arr = arr[base + nat cur := \<lparr>next = Some (nat (int base + nxt))\<rparr>]
               in if nxt = 0 then Some (Inr arr) else link_nodes cycle base nxt arr)"

text \<open>The loop over the jobs; each makes a cycle of its own with a new seed.\<close>

definition seed_of :: "host_lib \<Rightarrow> int \<Rightarrow> 32 word" where
  "seed_of H k = of_int (time_now H) + of_int k"

fun init_jobs :: "host_lib \<Rightarrow> nat \<Rightarrow> nat list \<Rightarrow> int option list \<Rightarrow> int \<Rightarrow> node list \<Rightarrow>
    (int \<times> node list) res option" where
  "init_jobs H n [] cycle sd arr = Some (Inr (sd, arr))"
| "init_jobs H n (job_id # jobs) cycle sd arr =
     (case gen_cycle (rand_after H (seed_of H sd)) cycle n of
        Inl e \<Rightarrow> Some (Inl e)
      | Inr cycle \<Rightarrow>
          (case link_nodes cycle (job_id * n) 0 arr of
             None \<Rightarrow> None
           | Some (Inl e) \<Rightarrow> Some (Inl e)
           | Some (Inr arr) \<Rightarrow> init_jobs H n jobs cycle (to_int (sd + 1)) arr))"

definition map_length :: "nat \<Rightarrow> nat" where
  "map_length n = sizeof_node * n * CORE_NUM * JOBS_PER_CORE mod 2 ^ 64"

definition init_run :: "host_lib \<Rightarrow> nat \<Rightarrow> chase \<Rightarrow> chase res option" where
  "init_run H n s =
     (let cycle = replicate n None in
      case data_arr s of
        Some _ \<Rightarrow> Some (Inr s)
      | None \<Rightarrow>
          if \<not> mmap_ok H (map_length n) then Some (Inl ExitFailure)
          else
            let arr = replicate (map_length n div sizeof_node) \<lparr>next = None\<rparr>
            in case init_jobs H n [0..<CORE_NUM * JOBS_PER_CORE] cycle (seed_randomizer s) arr of
                 None \<Rightarrow> None
               | Some (Inl e) \<Rightarrow> Some (Inl e)
               | Some (Inr (sd, arr)) \<Rightarrow> Some (Inr (s\<lparr>data_arr := Some arr, seed_randomizer := sd\<rparr>)))"

section \<open>Chasing\<close>

text \<open>The loop \<open>while (reps++ < rep_per_task) cur = cur->next\<close>.\<close>

fun chase_loop :: "node list \<Rightarrow> nat \<Rightarrow> nat option \<Rightarrow> nat option res" where
  "chase_loop arr 0 cur = Inr cur"
| "chase_loop arr (Suc reps) cur =
     (case cur of
        None \<Rightarrow> Inl NullPointer
      | Some k \<Rightarrow> if k < length arr then chase_loop arr reps (next (arr ! k)) else Inl OutOfBounds)"

text \<open>
  The fields of the argument that a thread reads. \<open>rep_per_task\<close> is the value of a \<open>uint64_t\<close>; where it is
  computed it is reduced modulo \<open>2\<^sup>6\<^sup>4\<close> (\<open>targ\<close> in \<open>Apps\<close>).
\<close>

record thread_arg =
  arg_tid :: int
  rep_per_task :: nat

text \<open>
  \<open>ptrchase_tq\<close>, with the counter before and after the loop; the mean access time in nanoseconds is
  what it prints.
\<close>

definition ptrchase_tq :: "64 word \<Rightarrow> 64 word \<Rightarrow> thread_arg \<Rightarrow> chase \<Rightarrow> (64 word \<times> chase) res" where
  "ptrchase_tq tsc0 tsc1 a s =
     (let (arr, cur) = (case data_arr s of None \<Rightarrow> ([], None) | Some arr \<Rightarrow> (arr, Some 0))
      in bindR (chase_loop arr (rep_per_task a) cur) (\<lambda>_.
           let el = stop64_ts tsc1 - start64_ts tsc0
           in if arg_tid a < 0 \<or> int (length (run_time s)) \<le> arg_tid a then Inl OutOfBounds
              else
                let s = s\<lparr>run_time := (run_time s)[nat (arg_tid a) := el]\<rparr>
                in if rep_per_task a div REPS = 0 then Inl DivisionByZero
                   else Inr (RDTSC_TO_NS (el div of_nat REPS div of_nat (rep_per_task a div REPS)), s)))"

section \<open>The shuffled array is a permutation\<close>

lemma foldl_swaps_mset:
  assumes "n \<le> length perm" and "\<And>i. i < n \<Longrightarrow> d i < length perm"
  shows "mset (fold (\<lambda>i perm. swap_nth perm i (d i)) [0..<n] perm) = mset perm \<and>
    length (fold (\<lambda>i perm. swap_nth perm i (d i)) [0..<n] perm) = length perm"
  using assms
proof (induction n)
  case (Suc n)
  let ?p = "fold (\<lambda>i perm. swap_nth perm i (d i)) [0..<n] perm"
  have p: "mset ?p = mset perm" "length ?p = length perm" using Suc by simp_all
  have "mset (swap_nth ?p n (d n)) = mset ?p"
    using mset_swap [of "d n" ?p n] Suc.prems p by (simp add: swap_nth_def)
  then show ?case using p by simp
qed simp

definition permutes_upto :: "int list \<Rightarrow> nat \<Rightarrow> bool" where
  "permutes_upto perm n \<longleftrightarrow> length perm = n \<and> distinct perm \<and> set perm = int ` {..<n}"

lemma shuffle_permutes:
  assumes "n \<le> 2 ^ 31"
  shows "permutes_upto (shuffle rnd n (init_perm n)) n"
proof -
  have id: "init_perm n = map int [0..<n]"
    unfolding init_perm_def by (rule map_cong) (use assms in \<open>auto intro!: to_int_id\<close>)
  then have i: "length (init_perm n) = n" "distinct (init_perm n)" "set (init_perm n) = int ` {..<n}"
    by (auto simp: distinct_map lessThan_atLeast0)
  have m: "mset (shuffle rnd n (init_perm n)) = mset (init_perm n)"
      "length (shuffle rnd n (init_perm n)) = n"
    using foldl_swaps_mset [of n "init_perm n" "dst_idx rnd n"] i(1)
    by (auto simp: shuffle_def dst_idx_def)
  then show ?thesis
    using i mset_eq_setD [OF m(1)] mset_eq_imp_distinct_iff [OF m(1)] by (simp add: permutes_upto_def)
qed

section \<open>One cycle through all nodes\<close>

text \<open>\<open>out\<close> sends every entry of \<open>perm\<close> to the entry behind it, and the last to the first.\<close>

definition cyclic :: "int list \<Rightarrow> int option list \<Rightarrow> bool" where
  "cyclic perm out \<longleftrightarrow> permutes_upto perm (length out) \<and>
     (\<forall>i < length out. out ! nat (perm ! i) = Some (perm ! (Suc i mod length out)))"

lemma permutes_uptoD:
  assumes "permutes_upto perm n" and "i < n"
  shows "0 \<le> perm ! i" "nat (perm ! i) < n"
  using assms nth_mem [of i perm] by (auto simp: permutes_upto_def)

lemma permutes_upto_inj:
  assumes "permutes_upto perm n" and "i < n" and "j < n" and "nat (perm ! i) = nat (perm ! j)"
  shows "i = j"
proof -
  have "perm ! i = perm ! j"
    using assms(4) permutes_uptoD(1) [OF assms(1,2)] permutes_uptoD(1) [OF assms(1,3)] by (simp add: eq_nat_nat_iff)
  then show ?thesis using assms(1-3) by (auto simp: permutes_upto_def nth_eq_iff_index_eq)
qed

lemma gen_cycle_cyclic:
  assumes n: "n \<le> 2 ^ 31" and len: "length out = n"
  shows "ends (gen_cycle rnd out n) never (\<lambda>out'. length out' = n \<and>
    cyclic (shuffle rnd n (init_perm n)) out')"
proof -
  let ?p = "shuffle rnd n (init_perm n)"
  let ?I = "\<lambda>k out. length out = n \<and> (\<forall>i < k. out ! nat (?p ! i) = Some (?p ! (Suc i mod n)))"
  note perm = shuffle_permutes [OF n, of rnd]
  have "ends (foldR (link_step ?p n) [0..<n] out) never (?I n)"
  proof (rule foldR_upt_rule [where I = ?I])
    fix k o1 assume k: "k < n" and o1: "?I k o1"
    note d = permutes_uptoD [OF perm k]
    have ne: "nat (?p ! k) \<noteq> nat (?p ! i)" if "i < k" for i
      using permutes_upto_inj [OF perm, of i k] that k by auto
    have "?I (Suc k) (o1[nat (?p ! k) := Some (?p ! (Suc k mod n))])"
    proof (intro conjI allI impI)
      fix i assume "i < Suc k"
      then show "o1[nat (?p ! k) := Some (?p ! (Suc k mod n))] ! nat (?p ! i) = Some (?p ! (Suc i mod n))"
        using o1 d ne [of i] by (cases "i = k") simp_all
    qed (use o1 in simp)
    then show "ends (link_step ?p n k o1) never (?I (Suc k))"
      using d o1 by (simp add: link_step_def Let_def)
  qed (use len in simp_all)
  then show ?thesis
    unfolding gen_cycle_def Let_def by (rule ends_mono) (use perm in \<open>auto simp: cyclic_def\<close>)
qed

text \<open>A cycle may be read from any of its entries.\<close>

lemma cyclic_rotate:
  assumes "cyclic perm out"
  shows "cyclic (rotate j perm) out"
proof -
  let ?n = "length out"
  have len: "length perm = ?n" using assms by (simp add: cyclic_def permutes_upto_def)
  have "out ! nat (rotate j perm ! i) = Some (rotate j perm ! (Suc i mod ?n))" if i: "i < ?n" for i
  proof -
    have pos: "0 < ?n" using i by linarith
    then have "(j + i) mod ?n < ?n" by simp
    then have "out ! nat (perm ! ((j + i) mod ?n)) = Some (perm ! (Suc ((j + i) mod ?n) mod ?n))"
      using assms by (simp add: cyclic_def)
    moreover have "Suc i mod ?n < ?n" using pos by (rule mod_less_divisor)
    ultimately show ?thesis using i len by (simp add: nth_rotate mod_Suc_eq mod_add_right_eq)
  qed
  then show ?thesis using assms by (simp add: cyclic_def permutes_upto_def)
qed

lemma cyclic_from_zero:
  assumes "cyclic perm out" and "out \<noteq> []"
  obtains p where "cyclic p out" "p ! 0 = 0"
proof -
  have len: "length perm = length out" "0 \<in> set perm"
    using assms by (auto simp: cyclic_def permutes_upto_def image_iff)
  then obtain j where j: "j < length perm" "perm ! j = 0" by (metis in_set_conv_nth)
  then have "rotate j perm ! 0 = 0" using assms(2) len(1) by (simp add: nth_rotate)
  then show ?thesis using that cyclic_rotate [OF assms(1)] by blast
qed

text \<open>What the linking loop does from position \<open>k\<close> of the cycle on.\<close>

definition linked_from :: "int list \<Rightarrow> nat \<Rightarrow> nat \<Rightarrow> node list \<Rightarrow> node list \<Rightarrow> bool" where
  "linked_from p base k arr arr' \<longleftrightarrow> length arr' = length arr \<and>
     (\<forall>i. k \<le> i \<and> i < length p \<longrightarrow>
        next (arr' ! (base + nat (p ! i))) = Some (base + nat (p ! (Suc i mod length p)))) \<and>
     (\<forall>j. j \<notin> (\<lambda>i. base + nat (p ! i)) ` {k..<length p} \<longrightarrow> arr' ! j = arr ! j)"

text \<open>Linking one node and then the rest; after the last position there is no rest.\<close>

lemma linked_from_end: "linked_from p base (length p) arr arr"
  by (auto simp: linked_from_def)

lemma linked_from_Suc:
  assumes perm: "permutes_upto p n" and k: "k < n" and len: "base + n \<le> length arr"
    and rest: "linked_from p base (Suc k) (arr[base + nat (p ! k) := \<lparr>next = Some (base + nat (p ! (Suc k mod n)))\<rparr>]) arr'"
  shows "linked_from p base k arr arr'"
  unfolding linked_from_def
proof (intro conjI allI impI)
  let ?arr = "arr[base + nat (p ! k) := \<lparr>next = Some (base + nat (p ! (Suc k mod n)))\<rparr>]"
  have l: "length p = n" using perm by (simp add: permutes_upto_def)
  show "length arr' = length arr" using rest by (simp add: linked_from_def)
  show "next (arr' ! (base + nat (p ! i))) = Some (base + nat (p ! (Suc i mod length p)))"
    if i: "k \<le> i \<and> i < length p" for i
  proof (cases "i = k")
    case True
    have "base + nat (p ! k) \<notin> (\<lambda>i. base + nat (p ! i)) ` {Suc k..<length p}"
      using permutes_upto_inj [OF perm k] l by auto
    then have "arr' ! (base + nat (p ! k)) = ?arr ! (base + nat (p ! k))"
      using rest by (simp add: linked_from_def)
    then show ?thesis using True permutes_uptoD(2) [OF perm k] len l by simp
  qed (use rest i in \<open>simp add: linked_from_def\<close>)
  show "arr' ! j = arr ! j" if "j \<notin> (\<lambda>i. base + nat (p ! i)) ` {k..<length p}" for j
  proof -
    have "j \<noteq> base + nat (p ! k)" "j \<notin> (\<lambda>i. base + nat (p ! i)) ` {Suc k..<length p}"
      using that k l by auto
    then show ?thesis using rest by (simp add: linked_from_def)
  qed
qed

lemma link_nodes_ends:
  assumes c: "cyclic p out" and z: "p ! 0 = 0" and len: "base + length out \<le> length arr" and "k < length out"
  shows "\<exists>arr'. link_nodes out base (p ! k) arr = Some (Inr arr') \<and> linked_from p base k arr arr'"
  using assms(4) len
proof (induction "length out - Suc k" arbitrary: k arr)
  case (0 k arr)
  then have k: "Suc k = length out" by simp
  have perm: "permutes_upto p (length out)" using c by (simp add: cyclic_def)
  have o: "out ! nat (p ! k) = Some 0" using c 0(2) k z by (auto simp: cyclic_def)
  let ?arr = "arr[base + nat (p ! k) := \<lparr>next = Some (base + nat (p ! (Suc k mod length out)))\<rparr>]"
  have "link_nodes out base (p ! k) arr = Some (Inr ?arr)"
    using permutes_uptoD [OF perm 0(2)] o 0(3) k z by (subst link_nodes.simps) (simp add: Let_def not_le)
  moreover have "linked_from p base k arr ?arr"
    by (rule linked_from_Suc [OF perm 0(2,3)])
      (use linked_from_end [of p base ?arr] perm k in \<open>simp add: permutes_upto_def\<close>)
  ultimately show ?case by blast
next
  case (Suc m)
  have k: "Suc k < length out" and m: "m = length out - Suc (Suc k)" using Suc(2,3) by simp_all
  have perm: "permutes_upto p (length out)" using c by (simp add: cyclic_def)
  note d = permutes_uptoD [OF perm Suc(3)] and d' = permutes_uptoD [OF perm k]
  have o: "out ! nat (p ! k) = Some (p ! Suc k)" using c Suc(3) k by (auto simp: cyclic_def)
  have "0 < length out" using k by linarith
  then have nz: "p ! Suc k \<noteq> 0" using permutes_upto_inj [OF perm k, of 0] z by auto
  let ?arr = "arr[base + nat (p ! k) := \<lparr>next = Some (base + nat (p ! Suc k))\<rparr>]"
  obtain arr' where a: "link_nodes out base (p ! Suc k) ?arr = Some (Inr arr')" "linked_from p base (Suc k) ?arr arr'"
    using Suc(1) [OF m k, of ?arr] Suc(4) by auto
  have "link_nodes out base (p ! k) arr = Some (Inr arr')"
    using d d' o nz a(1) Suc(4) by (subst link_nodes.simps) (simp add: Let_def not_le nat_add_distrib)
  moreover have "linked_from p base k arr arr'"
    by (rule linked_from_Suc [OF perm Suc(3,4)]) (use a(2) k in simp)
  ultimately show ?case by blast
qed

section \<open>Initialisation and chasing\<close>

text \<open>
  The nodes form one cycle: they can be listed from node 0 on so that every node points to the
  one behind it and the last to node 0.
\<close>

definition single_cycle :: "node list \<Rightarrow> bool" where
  "single_cycle arr \<longleftrightarrow> (\<exists>p. distinct p \<and> set p = {..<length arr} \<and> p ! 0 = 0 \<and>
     (\<forall>i < length arr. next (arr ! (p ! i)) = Some (p ! (Suc i mod length arr))))"

lemma linked_single_cycle:
  assumes "permutes_upto p n" and "p ! 0 = 0" and "linked_from p 0 0 arr arr'" and "length arr = n" and "0 < n"
  shows "single_cycle arr'"
proof -
  let ?q = "map nat p"
  have l: "length p = n" "length arr' = n" using assms by (simp_all add: permutes_upto_def linked_from_def)
  have "distinct ?q" "set ?q = {..<n}"
    using assms(1) by (auto simp: permutes_upto_def distinct_map inj_on_def image_image)
  moreover have "next (arr' ! (?q ! i)) = Some (?q ! (Suc i mod n))" if "i < n" for i
    using that assms(3) l mod_less_divisor [OF assms(5), of "Suc i"] by (simp add: linked_from_def)
  ultimately show ?thesis
    unfolding single_cycle_def l using assms(2,5) l by (intro exI [of _ ?q]) simp
qed

lemma map_length_exact:
  assumes "n \<le> 2 ^ 31"
  shows "map_length n = 64 * n" "map_length n div sizeof_node = n"
proof -
  have "64 * n < 2 ^ 64" using assms by simp
  then show "map_length n = 64 * n" "map_length n div sizeof_node = n"
    by (simp_all add: map_length_def sizeof_node_def NODE_ALIGN_def CORE_NUM_def JOBS_PER_CORE_def)
qed

lemma init_run_ends:
  assumes n: "0 < n" "n \<le> 2 ^ 31" and m: "mmap_ok H (64 * n)" and null: "data_arr s = None"
  shows "\<exists>arr. init_run H n s = Some (Inr (s\<lparr>data_arr := Some arr, seed_randomizer := to_int (seed_randomizer s + 1)\<rparr>)) \<and>
    length arr = n \<and> single_cycle arr"
proof -
  let ?rnd = "rand_after H (seed_of H (seed_randomizer s))" and ?arr = "replicate n \<lparr>next = None\<rparr>"
  note ml = map_length_exact [OF n(2)]
  obtain out where out: "gen_cycle ?rnd (replicate n None) n = Inr out" "length out = n"
      "cyclic (shuffle ?rnd n (init_perm n)) out"
    using gen_cycle_cyclic [OF n(2), of "replicate n None" ?rnd] by (auto simp: ends_never)
  obtain p where p: "cyclic p out" "p ! 0 = 0" using cyclic_from_zero [OF out(3)] out(2) n(1) by auto
  obtain arr where arr: "link_nodes out 0 0 ?arr = Some (Inr arr)" "linked_from p 0 0 ?arr arr"
    using link_nodes_ends [OF p, of 0 ?arr 0] out(2) n(1) p(2) by auto
  have "single_cycle arr"
    by (rule linked_single_cycle [OF _ p(2) arr(2)]) (use p(1) out(2) n(1) in \<open>auto simp: cyclic_def\<close>)
  moreover have "length arr = n" using arr(2) by (simp add: linked_from_def)
  moreover have "init_jobs H n [0..<CORE_NUM * JOBS_PER_CORE] (replicate n None) (seed_randomizer s) ?arr =
      Some (Inr (to_int (seed_randomizer s + 1), arr))"
    using out(1) arr(1) by (simp add: CORE_NUM_def JOBS_PER_CORE_def)
  ultimately show ?thesis using m null ml by (intro exI [of _ arr]) (simp add: init_run_def Let_def)
qed

text \<open>
  C22. Setting up the array ends and links everything: for an array of at least one and at most
  \<open>2\<^sup>3\<^sup>1\<close> nodes and whatever values \<open>rand\<close> returns, the \<open>do ... while\<close> of \<open>init_run\<close> terminates, no
  access is out of bounds or reads an unwritten entry, and all nodes form one single cycle.
\<close>

theorem init_run_links_one_cycle:
  assumes "0 < n" and "n \<le> 2 ^ 31" and "mmap_ok H (64 * n)" and "data_arr s = None"
  shows "\<exists>s' arr. init_run H n s = Some (Inr s') \<and> data_arr s' = Some arr \<and> length arr = n \<and> single_cycle arr"
proof -
  obtain arr where "init_run H n s =
      Some (Inr (s\<lparr>data_arr := Some arr, seed_randomizer := to_int (seed_randomizer s + 1)\<rparr>))"
    "length arr = n" "single_cycle arr"
    using init_run_ends [OF assms] by blast
  then show ?thesis
    by (intro exI [of _ "s\<lparr>data_arr := Some arr, seed_randomizer := to_int (seed_randomizer s + 1)\<rparr>"] exI [of _ arr]) simp
qed

definition sample_lib :: host_lib where
  "sample_lib = \<lparr>time_now = 1700000000, rand_after = (\<lambda>sd k. int (k * k + 7)), mmap_ok = (\<lambda>n. n \<noteq> 0)\<rparr>"

definition fresh_chase :: chase where
  "fresh_chase = \<lparr>data_arr = None, seed_randomizer = 0, run_time = [0]\<rparr>"

theorem init_run_links_one_cycle_witness:
  "\<exists>s' arr. init_run sample_lib 5 fresh_chase = Some (Inr s') \<and> data_arr s' = Some arr \<and> length arr = 5 \<and>
     single_cycle arr"
  by (rule init_run_links_one_cycle) (simp_all add: sample_lib_def fresh_chase_def)

text \<open>
  An array of no nodes, as an argument \<open>0\<close> or one that is not a number gives it, never reaches the
  linking loop, which would read behind the cycle: \<open>mmap\<close> of no bytes fails, and the program exits.
\<close>

lemma empty_array_exits:
  "\<not> mmap_ok H 0 \<Longrightarrow> data_arr s = None \<Longrightarrow> init_run H 0 s = Some (Inl ExitFailure)"
  "link_nodes [] base 0 arr = Some (Inl OutOfBounds)"
  by (simp_all add: init_run_def map_length_def link_nodes.simps)

text \<open>The node that is reached after \<open>r\<close> steps from node 0.\<close>

lemma chase_loop_cycle:
  assumes n: "length arr = n" "0 < n" and p: "set p = {..<n}" "length p = n"
    and nx: "\<And>i. i < n \<Longrightarrow> next (arr ! (p ! i)) = Some (p ! (Suc i mod n))" and i: "i < n"
  shows "chase_loop arr r (Some (p ! i)) = Inr (Some (p ! ((i + r) mod n)))"
  using i
proof (induction r arbitrary: i)
  case (Suc r)
  have "p ! i < n" using p nth_mem [of i p] Suc.prems by auto
  then show ?case
    using Suc.IH [of "Suc i mod n"] nx [OF Suc.prems] n by (simp add: mod_add_left_eq)
qed simp

lemma visits_per_node:
  assumes "i < n"
  shows "card {r. r < n * m \<and> r mod n = i} = m"
proof -
  have "{r. r < n * m \<and> r mod n = i} = (\<lambda>q. q * n + i) ` {..<m}"
  proof (intro set_eqI iffI)
    fix r assume "r \<in> {r. r < n * m \<and> r mod n = i}"
    then have "r div n < m" "r = (r div n) * n + i"
      using assms div_mult_mod_eq [of r n] by (auto simp: less_mult_imp_div_less mult.commute)
    then show "r \<in> (\<lambda>q. q * n + i) ` {..<m}" by blast
  next
    fix r assume "r \<in> (\<lambda>q. q * n + i) ` {..<m}"
    then obtain q where q: "q < m" "r = q * n + i" by auto
    then have "r < Suc q * n" "Suc q * n \<le> m * n" using assms mult_le_mono1 [of "Suc q" m n] by simp_all
    then show "r \<in> {r. r < n * m \<and> r mod n = i}" using q assms by (simp add: mult.commute)
  qed
  moreover have "inj_on (\<lambda>q. q * n + i) {..<m}" using assms by (auto simp: inj_on_def)
  ultimately show ?thesis by (simp add: card_image)
qed

lemma chase_cycle:
  assumes "single_cycle arr" and "length arr = n" and "0 < n"
  shows "chase_loop arr (n * m) (Some 0) = Inr (Some 0)"
    and "k < n \<Longrightarrow> card {r. r < n * m \<and> chase_loop arr r (Some 0) = Inr (Some k)} = m"
proof -
  obtain p where p: "distinct p" "set p = {..<n}" "p ! 0 = 0"
      "\<And>i. i < n \<Longrightarrow> next (arr ! (p ! i)) = Some (p ! (Suc i mod n))"
    using assms(1,2) by (auto simp: single_cycle_def)
  have l: "length p = n" using p(1,2) distinct_card by fastforce
  note walk = chase_loop_cycle [OF assms(2,3) p(2) l p(4) assms(3), unfolded p(3)]
  show "chase_loop arr (n * m) (Some 0) = Inr (Some 0)" by (simp add: walk p(3))
  assume k: "k < n"
  obtain i where i: "i < n" "p ! i = k" using k p(2) l by (metis in_set_conv_nth lessThan_iff)
  have "p ! (r mod n) = k \<longleftrightarrow> r mod n = i" for r
    using i p(1) l assms(3) nth_eq_iff_index_eq [OF p(1), of "r mod n" i] by auto
  then have "{r. r < n * m \<and> chase_loop arr r (Some 0) = Inr (Some k)} = {r. r < n * m \<and> r mod n = i}"
    by (simp add: walk)
  then show "card {r. r < n * m \<and> chase_loop arr r (Some 0) = Inr (Some k)} = m"
    using visits_per_node [OF i(1)] by simp
qed

section \<open>Time\<close>

lemma time_stamps: "start64_ts x = x" "stop64_ts x = x"
  by (simp_all add: start64_ts_def stop64_ts_def start64_rdtsc_def stop64_rdtsc_def rdtsc_def rdtsc_halves)

text \<open>
  C23. The chase does what the benchmark measures: on a single cycle of \<open>n\<close> nodes the thread, whose
  loop has \<open>10 n\<close> steps, never meets a null or foreign pointer, stands on every node exactly 10
  times, ends on node 0 where it began, and records and prints the cycles of the whole loop
  and of one access.
\<close>

theorem ptrchase_visits_every_node:
  assumes "data_arr s = Some arr" and "single_cycle arr" and "length arr = n" and "0 < n"
    and "run_time s = [x]"
  shows "ptrchase_tq tsc0 tsc1 \<lparr>arg_tid = 0, rep_per_task = n * REPS\<rparr> s =
      Inr (RDTSC_TO_NS ((tsc1 - tsc0) div 10 div of_nat n), s\<lparr>run_time := [tsc1 - tsc0]\<rparr>) \<and>
    chase_loop arr (n * REPS) (Some 0) = Inr (Some 0) \<and>
    (\<forall>k < n. card {r. r < n * REPS \<and> chase_loop arr r (Some 0) = Inr (Some k)} = REPS)"
proof -
  have "chase_loop arr (n * REPS) (Some 0) = Inr (Some 0)" by (rule chase_cycle(1) [OF assms(2-4)])
  moreover from this have "ptrchase_tq tsc0 tsc1 \<lparr>arg_tid = 0, rep_per_task = n * REPS\<rparr> s =
      Inr (RDTSC_TO_NS ((tsc1 - tsc0) div 10 div of_nat n), s\<lparr>run_time := [tsc1 - tsc0]\<rparr>)"
    using assms(1,4,5) by (simp add: ptrchase_tq_def Let_def time_stamps REPS_def)
  ultimately show ?thesis using chase_cycle(2) [OF assms(2-4)] by blast
qed

definition triangle :: "node list" where
  "triangle = [\<lparr>next = Some 2\<rparr>, \<lparr>next = Some 0\<rparr>, \<lparr>next = Some 1\<rparr>]"

lemma triangle_cycle: "single_cycle triangle" "length triangle = 3"
proof -
  have "next (triangle ! ([0, 2, 1] ! i)) = Some ([0, 2, 1] ! (Suc i mod 3))" if "i < 3" for i
  proof -
    have "i = 0 \<or> i = 1 \<or> i = 2" using that by linarith
    then show ?thesis by (elim disjE) (simp_all add: triangle_def)
  qed
  then show "single_cycle triangle"
    unfolding single_cycle_def by (intro exI [of _ "[0, 2, 1]"]) (auto simp: triangle_def)
qed (simp add: triangle_def)

theorem ptrchase_visits_every_node_witness:
  "let s = fresh_chase\<lparr>data_arr := Some triangle\<rparr> in
   (\<exists>ns. ptrchase_tq 100 430 \<lparr>arg_tid = 0, rep_per_task = 3 * REPS\<rparr> s = Inr (ns, s\<lparr>run_time := [330]\<rparr>)) \<and>
   card {r. r < 3 * REPS \<and> chase_loop triangle r (Some 0) = Inr (Some 2)} = REPS"
proof -
  let ?s = "fresh_chase\<lparr>data_arr := Some triangle\<rparr>"
  have a: "data_arr ?s = Some triangle" "(0 :: nat) < 3" "run_time ?s = [0]" by (simp_all add: fresh_chase_def)
  note r = ptrchase_visits_every_node [OF a(1) triangle_cycle a(2,3), of 100 430]
  have "card {r. r < 3 * REPS \<and> chase_loop triangle r (Some 0) = Inr (Some 2)} = REPS"
    by (rule mp [OF spec [OF conjunct2 [OF conjunct2 [OF r]]]]) simp
  moreover have e: "[430 - 100] = [330 :: 64 word]" by simp
  ultimately show ?thesis
    unfolding Let_def by (intro conjI exI) (rule conjunct1 [OF r, unfolded e])
qed

text \<open>
  C33. The time stamps are exact: each of the two readings puts the halves of the counter together
  to the counter itself; so the difference of a reading at \<open>tsc\<close> and one at \<open>tsc + d\<close> is \<open>d\<close>, the
  number of cycles that passed, even if the counter wraps in between; and the conversion to
  nanoseconds at 2100 MHz is the exact quotient rounded down for every number of cycles
  below \<open>2\<^sup>6\<^sup>4 / 1000\<close>.
\<close>

theorem timing_is_exact:
  assumes "unat d * 1000 < 2 ^ 64"
  shows "start64_ts tsc = tsc \<and> stop64_ts tsc = tsc \<and> stop64_ts (tsc + d) - start64_ts tsc = d \<and>
    unat (RDTSC_TO_NS (stop64_ts (tsc + d) - start64_ts tsc)) = unat d * 10 div 21"
proof -
  have "unat (d * 1000) = unat d * 1000"
    using assms by (subst unat_mult_lem [THEN iffD1]) simp_all
  then have "unat (RDTSC_TO_NS d) = unat d * 1000 div 2100"
    by (simp add: RDTSC_TO_NS_def FREQ_MHZ_def unat_div)
  also have "\<dots> = unat d * 10 div 21" using div_mult2_eq [of "unat d * 1000" 100 21] by simp
  finally show ?thesis by (simp add: time_stamps)
qed

theorem timing_is_exact_witness:
  "start64_ts (- 5) = - 5 \<and> stop64_ts (- 5 + 21000) - start64_ts (- 5) = 21000 \<and>
   unat (RDTSC_TO_NS (stop64_ts (- 5 + 21000) - start64_ts (- 5))) = 10000"
proof -
  have "unat (21000 :: 64 word) * 1000 < 2 ^ 64" by simp
  note r = timing_is_exact [OF this, of "- 5"]
  have "unat (21000 :: 64 word) * 10 div 21 = 10000" by simp
  then show ?thesis using r by metis
qed

end
