(* ===== verification/Apps.thy ===== *)
theory Apps
  imports Lifecycle Ptrchase
begin

text \<open>
  The sample primaries on top of the wrappers: \<open>apps/src/primary/template.cpp\<close>, which creates and
  joins a thread that does nothing, and \<open>run\<close> and \<open>main\<close> of \<open>apps/src/primary/ptrchase.cpp\<close>. The
  functions \<open>pthread_create\<close> and \<open>pthread_join\<close> they call are those of \<open>libmsh/pthread.c\<close>.
\<close>

section \<open>Programs\<close>

definition THREAD_NUM :: nat where
  "THREAD_NUM = 1"

text \<open>Addresses of a program: its thread routine, \<open>&t[i]\<close> and \<open>&targ[i]\<close>, and the handles \<open>t[i]\<close>.\<close>

record addrs =
  routine_at :: "64 word"
  t_at :: "nat \<Rightarrow> 64 word"
  targ_at :: "nat \<Rightarrow> 64 word"
  t_val :: "nat \<Rightarrow> 64 word"

definition do_nothing :: "64 word \<Rightarrow> 64 word" where
  "do_nothing arg = 0"

definition join_threads :: "env \<Rightarrow> libc \<Rightarrow> addrs \<Rightarrow> tls \<Rightarrow> pt_state \<Rightarrow> pt_state res" where
  "join_threads E L A th s =
     foldR (\<lambda>i s. bindR (pthread_join E L (t_val A i) 0 th s) (\<lambda>(_, s). Inr s)) [0..<THREAD_NUM] s"

definition template_main :: "env \<Rightarrow> libc \<Rightarrow> addrs \<Rightarrow> tls \<Rightarrow> pt_state \<Rightarrow> (int \<times> pt_state) res" where
  "template_main E L A th s =
     bindR (foldR (\<lambda>i (th, s). bindR (pthread_create E L (t_at A i) 0 (routine_at A) 0 th s)
              (\<lambda>(_, th, s). Inr (th, s))) [0..<THREAD_NUM] (th, s)) (\<lambda>(th, s).
     bindR (join_threads E L A th s) (\<lambda>s. Inr (0, s)))"

text \<open>The arguments that \<open>run\<close> of \<open>ptrchase.cpp\<close> fills in.\<close>

definition targ :: "nat \<Rightarrow> nat \<Rightarrow> thread_arg" where
  "targ arr_len i = \<lparr>arg_tid = int i, rep_per_task = arr_len * REPS mod 2 ^ 64\<rparr>"

definition run :: "env \<Rightarrow> libc \<Rightarrow> host_lib \<Rightarrow> addrs \<Rightarrow> nat \<Rightarrow> tls \<Rightarrow> chase \<times> pt_state \<Rightarrow>
    (thread_arg list \<times> chase \<times> pt_state) res option" where
  "run E L H A arr_len th = (\<lambda>(c, s).
     case init_run H arr_len c of
       None \<Rightarrow> None
     | Some (Inl e) \<Rightarrow> Some (Inl e)
     | Some (Inr c) \<Rightarrow> Some (
         bindR (foldR (\<lambda>i (th, s).
             bindR (pthread_create E L (t_at A i) 0 (routine_at A) (targ_at A i) th s) (\<lambda>(ret, th, s).
               if ret \<noteq> 0 then Inl ExitFailure else Inr (th, s))) [0..<THREAD_NUM] (th, s)) (\<lambda>(th, s).
         bindR (join_threads E L A th s) (\<lambda>s. Inr (map (targ arr_len) [0..<THREAD_NUM], c, s)))))"

definition ptrchase_main :: "env \<Rightarrow> libc \<Rightarrow> host_lib \<Rightarrow> addrs \<Rightarrow> string list \<Rightarrow> tls \<Rightarrow> chase \<times> pt_state \<Rightarrow>
    (thread_arg list \<times> chase \<times> pt_state) res option" where
  "ptrchase_main E L H A av th s =
     run E L H A (if length av > 1 then nat (to_size_t (atoi (av ! 1))) else ARR_LEN) th s"

section \<open>A whole program\<close>

text \<open>
  The program's own code behind \<open>run_user\<close>: its thread routine is \<open>do_nothing\<close>. The created thread is
  \<open>msh_start_routine\<close> with that routine.
\<close>

definition template_code :: "libc \<Rightarrow> addrs \<Rightarrow> libc" where
  "template_code L A = L\<lparr>run_user := (\<lambda>r a th s.
     if r = routine_at A then (do_nothing a, s) else run_user L r a th s)\<rparr>"

definition template_arg :: "addrs \<Rightarrow> msh_start_routine_arg" where
  "template_arg A = \<lparr>start_routine = routine_at A, user_arg = 0, thread_id = 1\<rparr>"

text \<open>
  What the C library's part of thread creation and joining does to the shared state: nothing, or the
  whole run of the created thread. A thread that is joined runs at one of the two, unless it runs
  while \<open>pthread_join\<close> of the runtime cleans up.
\<close>

definition idle :: "(pt_state \<Rightarrow> int \<times> pt_state) \<Rightarrow> bool" where
  "idle act \<longleftrightarrow> (\<forall>s. act s = (0, s))"

definition runs_thread :: "env \<Rightarrow> libc \<Rightarrow> addrs \<Rightarrow> (pt_state \<Rightarrow> int \<times> pt_state) \<Rightarrow> bool" where
  "runs_thread E L A act \<longleftrightarrow> (\<forall>s v s'.
     msh_start_routine E (template_code L A) (template_arg A) s = Inr (v, s') \<longrightarrow> act s = (0, s'))"

lemma template_thread_lived:
  assumes td: "tidy E (runtime s)" and h: "hosts (runtime s) 1 = []" and il: "init_local E"
    and sy: "exports_symbols E" and cl: "getenv E ''SKIP_CLEANUP'' = None" and run: "runs_thread E L A act"
  obtains mx m' where "act s = (0, s\<lparr>runtime := m'\<rparr>)" "lived E 1 (runtime s) mx m'"
proof -
  have q: "run_user (template_code L A) (start_routine (template_arg A)) (user_arg (template_arg A)) th s = (0, s)" for th s
    by (simp add: template_code_def template_arg_def do_nothing_def)
  have "1 < MAX_THREAD_NUM" "thread_id (template_arg A) = int 1" by (simp_all add: capacities template_arg_def)
  from quiet_routine_lived [OF td this(1) h il sy cl this(2) q]
  obtain v mx m' where "msh_start_routine E (template_code L A) (template_arg A) s = Inr (v, s\<lparr>runtime := m'\<rparr>)"
      "lived E 1 (runtime s) mx m'"
    by (auto simp: ends_never simp del: One_nat_def)
  then show thesis using run that unfolding runs_thread_def by blast
qed

lemma pthread_join_step:
  assumes o: "owns th t" and t: "t < MAX_THREAD_NUM" and td: "tidy E (runtime s)"
    and cl: "getenv E ''SKIP_CLEANUP'' = None" and skip: "getenv E ''SKIP_FIRST_THREAD'' = None"
    and g: "target L s ''pthread_join'' = Some g" and j: "first_join s"
  obtains m where "cleaned E t (runtime s) (0, m)" "pthread_join E L thread retval th s =
    Inr (invoke L g [thread, retval] (s\<lparr>first_join := False, runtime := m,
      original := (original s)(''pthread_join'' := Some g)\<rparr>))"
  using pthread_join_eq [OF o t tidyD(1) [OF td] tidyD(4) [OF td t] cl skip g] j by auto

text \<open>
  C11. The template program runs to its end under the runtime. Start it in a fresh process with
  a pool that fits and whose libraries load, are all different and export \<open>argc\<close>, \<open>argv\<close> and
  \<open>crt_pos\<close>; let the created thread, \<open>msh_start_routine\<close> around \<open>do_nothing\<close>, run at once or only
  when \<open>main\<close> waits in the C library's \<open>pthread_join\<close>. Then \<open>main\<close> returns 0: no step exits, crashes
  or hangs. At the end the tables agree and no thread hosts a scavenger; and the whole pool has run
  to completion, or as many scavengers as two threads may have under \<open>MAX_SCAV_PER_THREAD\<close> (1 by
  default) and the size of a context.
\<close>

theorem template_runs_to_end:
  assumes boot: "unat (prim_base E) mod 64 = 0" "getenv E ''MSH_SCAV_POOL_PATH'' = Some path"
      "length path < 256" "fopen E path = Some content"
      "length (pool_commands content) \<le> MAX_ACTIVE_CRT_NUM_PER_APPLICATION"
      "\<forall>cmd \<in> set (pool_commands content). load_ok E cmd"
    and il: "init_local E" and skip: "getenv E ''SKIP_FIRST_THREAD'' = None"
    and libs: "distinct (map (cmd_handle E) (pool_commands content))" and sy: "exports_symbols E"
    and cl: "getenv E ''SKIP_CLEANUP'' = None"
    and sym: "next_sym L ''pthread_create'' = Some f" "next_sym L ''pthread_join'' = Some g"
    and schedule: "runs_thread E L A (spawn L f (t_at A 0) 0 (template_arg A)) \<and> idle (invoke L g [t_val A 0, 0]) \<or>
      idle (spawn L f (t_at A 0) 0 (template_arg A)) \<and> runs_thread E L A (invoke L g [t_val A 0, 0])"
  shows "ends (template_main E L A th (fresh_process zero_state)) never (\<lambda>(v, s'). v = 0 \<and>
    thread_cnt s' = 2 \<and> \<not> first_join s' \<and> msh_inv E (runtime s') \<and>
    (\<forall>u < MAX_THREAD_NUM. hosts (runtime s') u = []) \<and>
    ((\<forall>i < length (pool_commands content). gone (abs E (runtime s')) (int i)) \<or>
     2 * min (case getenv E ''MAX_SCAV_PER_THREAD'' of Some v \<Rightarrow> atoi v | None \<Rightarrow> 1) (int MAX_CRT_PER_THREAD)
       \<le> int (card {i. gone (abs E (runtime s')) i})))"
    (is "ends _ _ ?P")
proof -
  let ?s = "fresh_process zero_state" and ?T = "spawn L f (t_at A 0) 0 (template_arg A)"
  let ?J = "invoke L g [t_val A 0, 0]"
  have s: "thread_cnt ?s = 0" "runtime ?s = zero_state" "target L ?s ''pthread_create'' = Some f"
    using sym by (simp_all add: fresh_process_def target_def)
  have t: "0 < MAX_THREAD_NUM" "1 < MAX_THREAD_NUM" by (simp_all add: capacities)
  have eq: "template_main E L A th ?s = bindR (pthread_create E L (t_at A 0) 0 (routine_at A) 0 th ?s)
      (\<lambda>(_, th, s). bindR (pthread_join E L (t_val A 0) 0 th s) (\<lambda>(_, s). Inr (0, s)))"
    by (simp add: template_main_def join_threads_def THREAD_NUM_def bindR_assoc split_def)
  show ?thesis
  proof (rule first_create_steps [OF boot skip s, of th "t_at A 0" 0 "routine_at A" 0, folded template_arg_def])
    fix m
    assume fr: "\<forall>u < MAX_THREAD_NUM. free_context E u m \<and> \<not> reallocatable (prim m u)"
      and none: "\<forall>i. \<not> gone (abs E m) i"
      and pool: "\<forall>i < length (pool_commands content). lib_handle (SCAV_TABLE m ! i) \<noteq> None"
      and cap: "max_scav_per_thread m = (case getenv E ''MAX_SCAV_PER_THREAD'' of Some v \<Rightarrow> atoi v | None \<Rightarrow> 1)"
      and own: "distinct (map (cmd_handle E) (pool_commands content)) \<longrightarrow> own_libs m"
      and steps: "\<And>Q X. ends (msh_alloc_ctx E (int 0) th m) X (\<lambda>(v, th', m'). v = 0 \<and>
        Q (case ?T (created ?s f m') of (ret, s') \<Rightarrow> (ret, th', s'))) \<Longrightarrow>
        ends (pthread_create E L (t_at A 0) 0 (routine_at A) 0 th ?s) X Q"
    have td: "tidy E m" using free_tidy [OF fr] own libs by blast
    have h: "hosts m u = []" if "u < MAX_THREAD_NUM" for u using fr that unfolding free_context_def by blast
    have linked: "linked (abs E m) (int i)" if "i < length (pool_commands content)" for i
      using pool that boot(5) sy by (auto simp: abs_def scav_in_range_def exports_symbols_def)
    have fin: "?P (0, s')" if "pool_done E (max_scav_per_thread m) m (runtime s')" "thread_cnt s' = 2" "\<not> first_join s'" for s'
      using that linked tidyD(1) by (auto simp: pool_done_def cap)
    let ?Q = "\<lambda>(ret, th', s2). owns th' 0 \<and> (\<exists>m0. took E 0 m m0 \<and> ?T (created ?s f m0) = (ret, s2))"
    have create: "ends (pthread_create E L (t_at A 0) 0 (routine_at A) 0 th ?s) never ?Q"
      by (rule steps, rule ends_mono [OF alloc_ctx_took [OF td t(1) h [OF t(1)] il sy]]) (auto split: prod.split)
    have join: "ends (bindR (pthread_join E L (t_val A 0) 0 th' s2) (\<lambda>(_, s). Inr (0, s))) never ?P"
      if o: "owns th' 0" and tk: "took E 0 m m0" and sp: "?T (created ?s f m0) = (ret, s2)" for th' m0 ret s2
    proof -
      have td0: "tidy E m0" and p1: "prim m0 1 = prim m 1" using tk t by (simp_all add: took_def)
      have c: "thread_cnt (created ?s f m) = 2" "first_join (created ?s f m)" "runtime (created ?s f m) = m"
          "target L (created ?s f m) ''pthread_join'' = Some g" for m
        using sym(2) by (simp_all add: created_def fresh_process_def target_def)
      have h1: "hosts m0 1 = []" using h [OF t(2)] p1 by (simp add: hosts_def)
      note join = pthread_join_step [OF _ t(1) _ cl skip]
      from schedule show ?thesis
      proof (elim disjE conjE)
        assume run: "runs_thread E L A ?T" and idle: "idle ?J"
        obtain mx m1 where m1: "?T (created ?s f m0) = (0, (created ?s f m0)\<lparr>runtime := m1\<rparr>)" "lived E 1 m0 mx m1"
          by (rule template_thread_lived [OF _ _ il sy cl run, of "created ?s f m0", unfolded c, OF td0 h1]) (rule that)
        then have s2: "s2 = created ?s f m1" using sp by (auto simp: created_def fresh_process_def)
        obtain m' where m': "cleaned E 0 m1 (0, m')" "pthread_join E L (t_val A 0) 0 th' s2 =
            Inr (?J (s2\<lparr>first_join := False, runtime := m', original := (original s2)(''pthread_join'' := Some g)\<rparr>))"
          by (rule join [OF o, of s2 L g "t_val A 0" 0]) (use livedD(1) [OF m1(2) t(2)] in \<open>simp_all add: s2 c\<close>)
        have "pool_done E (max_scav_per_thread m) m m'"
          using second_thread_first [OF tk m1(2) m'(1)] none h by blast
        let ?s4 = "s2\<lparr>first_join := False, runtime := m', original := (original s2)(''pthread_join'' := Some g)\<rparr>"
        have fin4: "?P (0, ?s4)" by (rule fin) (use \<open>pool_done E _ m m'\<close> c(1) in \<open>simp_all add: s2\<close>)
        have "bindR (pthread_join E L (t_val A 0) 0 th' s2) (\<lambda>(_, s). Inr (0 :: int, s)) = Inr (0, ?s4)"
          using m'(2) idle by (simp add: idle_def)
        then show ?thesis using fin4 by (simp only: ends_Inr)
      next
        assume idle: "idle ?T" and run: "runs_thread E L A ?J"
        then have s2: "s2 = created ?s f m0" using sp by (simp add: idle_def)
        obtain m1 where m1: "cleaned E 0 m0 (0, m1)" "pthread_join E L (t_val A 0) 0 th' s2 =
            Inr (?J (s2\<lparr>first_join := False, runtime := m1, original := (original s2)(''pthread_join'' := Some g)\<rparr>))"
          by (rule join [OF o, of s2 L g "t_val A 0" 0]) (use td0 in \<open>simp_all add: s2 c\<close>)
        have l0: "lived E 0 m m0 m1" using tk m1(1) by (simp add: lived_def)
        let ?s3 = "s2\<lparr>first_join := False, runtime := m1, original := (original s2)(''pthread_join'' := Some g)\<rparr>"
        have r3: "runtime ?s3 = m1" by simp
        have "hosts m1 1 = []" using livedD(3) [OF l0 t(1) t(2)] h [OF t(2)] by (simp add: hosts_def)
        then obtain mx m' where m': "?J ?s3 = (0, ?s3\<lparr>runtime := m'\<rparr>)" "lived E 1 m1 mx m'"
          by (rule template_thread_lived [OF _ _ il sy cl run, of ?s3, unfolded r3, OF livedD(1) [OF l0 t(1)]]) (rule that)
        have "pool_done E (max_scav_per_thread m) m m'"
          using second_thread_last [OF l0 m'(2)] none h by blast
        then have fin4: "?P (0, ?s3\<lparr>runtime := m'\<rparr>)" using c(1) by (intro fin) (simp_all add: s2)
        have "bindR (pthread_join E L (t_val A 0) 0 th' s2) (\<lambda>(_, s). Inr (0 :: int, s)) = Inr (0, ?s3\<lparr>runtime := m'\<rparr>)"
          using m1(2) m'(1) by simp
        then show ?thesis using fin4 by (simp only: ends_Inr)
      qed
    qed
    show ?thesis
      unfolding eq by (rule ends_bindI [OF create]) (use join in auto)
  qed
qed

definition sample_addrs :: addrs where
  "sample_addrs = \<lparr>routine_at = 32, t_at = (\<lambda>_. 512), targ_at = (\<lambda>_. 768), t_val = (\<lambda>_. 1)\<rparr>"

text \<open>A process with two scavengers in its pool, and both ways to run the created thread.\<close>

definition pair_pool :: "string list" where
  "pair_pool = [''a.so'', ''bb.so'']"

definition pair_env :: env where
  "pair_env = (sample_env pair_pool)\<lparr>getenv :=
     (\<lambda>name. if name = ''MSH_SCAV_POOL_PATH'' then Some ''pool.txt'' else None)\<rparr>"

definition thread_act :: "pt_state \<Rightarrow> int \<times> pt_state" where
  "thread_act s = (case msh_start_routine pair_env (template_code quiet_libc sample_addrs) (template_arg sample_addrs) s of
     Inl _ \<Rightarrow> (11, s) | Inr (_, s') \<Rightarrow> (0, s'))"

definition early_libc :: libc where
  "early_libc = quiet_libc\<lparr>spawn := (\<lambda>_ _ _ _. thread_act)\<rparr>"

definition late_libc :: libc where
  "late_libc = quiet_libc\<lparr>invoke := (\<lambda>_ _. thread_act)\<rparr>"

lemma pair_commands: "map cut_newline (pool_commands (unlines pair_pool)) = pair_pool"
  by (subst pool_commands_unlines) (auto simp: pair_pool_def newline_def nul_def)

lemma distinct_pair_lengths: "distinct (map (\<lambda>c. Some (length c)) pair_pool)"
  by (simp add: pair_pool_def)

lemma pair_env_ok:
  "unat (prim_base pair_env) mod 64 = 0" "getenv pair_env ''MSH_SCAV_POOL_PATH'' = Some ''pool.txt''"
  "length ''pool.txt'' < 256" "fopen pair_env ''pool.txt'' = Some (unlines pair_pool)"
  "length (pool_commands (unlines pair_pool)) \<le> MAX_ACTIVE_CRT_NUM_PER_APPLICATION"
  "\<forall>cmd \<in> set (pool_commands (unlines pair_pool)). load_ok pair_env cmd"
  "init_local pair_env" "getenv pair_env ''SKIP_FIRST_THREAD'' = None"
  "distinct (map (cmd_handle pair_env) (pool_commands (unlines pair_pool)))"
  "exports_symbols pair_env" "getenv pair_env ''SKIP_CLEANUP'' = None"
proof -
  have "length (pool_commands (unlines pair_pool)) = 2"
    using arg_cong [OF pair_commands, of length] by (simp add: pair_pool_def)
  then show "length (pool_commands (unlines pair_pool)) \<le> MAX_ACTIVE_CRT_NUM_PER_APPLICATION"
    by (simp add: capacities)
  have "map (cmd_handle pair_env) cmds = map (\<lambda>c. Some (length c)) (map cut_newline cmds)" for cmds
    by (simp add: cmd_handle_def pair_env_def sample_env_def argv_0_def)
  from this [of "pool_commands (unlines pair_pool)"] show "distinct (map (cmd_handle pair_env) (pool_commands (unlines pair_pool)))"
    unfolding pair_commands by (metis (no_types, lifting) distinct_pair_lengths)
qed (simp_all add: pair_env_def sample_env_def load_ok_def argv_0_def init_local_def exports_symbols_def)

lemma thread_act_runs:
  assumes "run_user L = run_user quiet_libc"
  shows "runs_thread pair_env L sample_addrs thread_act"
proof -
  have eq: "run_user (template_code L sample_addrs) = run_user (template_code quiet_libc sample_addrs)"
    using assms by (simp add: template_code_def fun_eq_iff)
  have "msh_start_routine pair_env (template_code L sample_addrs) arg s =
      msh_start_routine pair_env (template_code quiet_libc sample_addrs) arg s" for arg s
    unfolding msh_start_routine_def eq ..
  then show ?thesis by (simp add: runs_thread_def thread_act_def)
qed

theorem template_runs_to_end_witness:
  "ends (template_main pair_env early_libc sample_addrs new_thread (fresh_process zero_state)) never (\<lambda>(v, s').
     v = 0 \<and> hosts (runtime s') 0 = [] \<and> hosts (runtime s') 1 = []) \<and>
   ends (template_main pair_env late_libc sample_addrs new_thread (fresh_process zero_state)) never (\<lambda>(v, s').
     v = 0 \<and> hosts (runtime s') 0 = [] \<and> hosts (runtime s') 1 = [])"
proof -
  have t: "0 < MAX_THREAD_NUM" "1 < MAX_THREAD_NUM" by (simp_all add: capacities)
  have q: "next_sym early_libc ''pthread_create'' = Some 16" "next_sym early_libc ''pthread_join'' = Some 16"
      "next_sym late_libc ''pthread_create'' = Some 16" "next_sym late_libc ''pthread_join'' = Some 16"
    by (simp_all add: early_libc_def late_libc_def quiet_libc_def)
  let ?sp = "\<lambda>L. spawn L 16 (t_at sample_addrs 0) 0 (template_arg sample_addrs)"
  let ?jn = "\<lambda>L. invoke L 16 [t_val sample_addrs 0, 0]"
  have e: "runs_thread pair_env early_libc sample_addrs (?sp early_libc) \<and> idle (?jn early_libc)"
    using thread_act_runs [of early_libc] by (simp add: early_libc_def quiet_libc_def idle_def)
  have l: "idle (?sp late_libc) \<and> runs_thread pair_env late_libc sample_addrs (?jn late_libc)"
    using thread_act_runs [of late_libc] by (simp add: late_libc_def quiet_libc_def idle_def)
  show ?thesis
    using template_runs_to_end [OF pair_env_ok q(1,2) disjI1 [OF e], of new_thread]
      template_runs_to_end [OF pair_env_ok q(3,4) disjI2 [OF l], of new_thread] t
    by (auto elim!: ends_mono)
qed

section \<open>The benchmark\<close>

text \<open>
  \<open>main\<close> of \<open>ptrchase.cpp\<close> always comes back from setting up its array when the argument is a number
  from 1 to \<open>2\<^sup>3\<^sup>1 - 1\<close> and \<open>mmap\<close> succeeds; the arguments of the threads then ask for ten rounds.
\<close>

lemma ptrchase_main_ends:
  assumes "0 < atoi a" and "mmap_ok H (64 * nat (atoi a))" and "data_arr c = None"
  shows "\<exists>r. ptrchase_main E L H A [prog, a] th (c, s) = Some r \<and> ends r (\<lambda>_. True) (\<lambda>(targs, c', _).
    (\<exists>arr. data_arr c' = Some arr \<and> length arr = nat (atoi a) \<and> single_cycle arr) \<and>
    targs = [\<lparr>arg_tid = 0, rep_per_task = nat (atoi a) * REPS\<rparr>])"
proof -
  let ?n = "nat (atoi a)"
  have hi: "atoi a < 2 ^ 31" unfolding atoi_def split_def Let_def to_int_def by (rule signed_take_bit_int_less_exp)
  then have n: "0 < ?n" "?n \<le> 2 ^ 31" "nat (to_size_t (atoi a)) = ?n"
    using assms(1) by (simp_all add: to_size_t_id)
  obtain arr where arr: "init_run H ?n c = Some (Inr (c\<lparr>data_arr := Some arr, seed_randomizer := to_int (seed_randomizer c + 1)\<rparr>))"
      "length arr = ?n" "single_cycle arr"
    using init_run_ends [OF n(1,2) assms(2,3)] by blast
  have "?n * REPS < 2 ^ 64" using n(2) by (simp add: REPS_def)
  then show ?thesis
    using arr n(3) by (auto simp: ptrchase_main_def run_def targ_def THREAD_NUM_def ends_def res_simps
        split: sum.splits prod.splits)
qed

end
