(* ===== verification/Compute.thy ===== *)
theory Compute
  imports C_Library Tsc
begin

text \<open>
  The sample scavenger \<open>apps/src/scavengers/compute.cpp\<close>: it sums numbers in a loop and returns the
  position that the runtime put into its variable \<open>crt_pos\<close>.
\<close>

section \<open>Time stamps\<close>

definition start64_rdtsc :: "64 word \<Rightarrow> 64 word" where
  "start64_rdtsc tsc = (let (rax, rdx) = rdtsc tsc; rdx = push_bit 32 rdx in or rax rdx)"

definition stop64_rdtsc :: "64 word \<Rightarrow> 64 word" where
  "stop64_rdtsc tsc = (let (rax, rdx) = rdtsc tsc; rdx = push_bit 32 rdx in or rax rdx)"

definition start64_ts :: "64 word \<Rightarrow> 64 word" where
  "start64_ts = start64_rdtsc"

definition stop64_ts :: "64 word \<Rightarrow> 64 word" where
  "stop64_ts = stop64_rdtsc"

definition RDTSC_TO_NS :: "64 word \<Rightarrow> 64 word" where
  "RDTSC_TO_NS x = x * 1000 div 2100"

section \<open>Globals\<close>

text \<open>\<open>argv\<close> is a vector of words that ends with a null pointer, or null.\<close>

record scavenger =
  total_reps :: nat
  gsum :: "64 word"
  run_time :: "64 word"
  comp_len :: int
  crt_pos :: int
  argc :: int
  argv :: "string list option"

definition loaded :: scavenger where
  "loaded = \<lparr>total_reps = 100 * 1000 * 1000, gsum = 0, run_time = 0, comp_len = 10, crt_pos = 0, argc = 0,
     argv = None\<rparr>"

text \<open>
  \<open>argv[k]\<close> where a string is made of it. \<open>argv[argc]\<close> is a null pointer, and a \<open>std::string\<close> or \<open>atoi\<close>
  of a null pointer is undefined behaviour, for which \<open>NullPointer\<close> stands (an implementation may
  crash or throw).
\<close>

definition argv_at :: "string list option \<Rightarrow> nat \<Rightarrow> string res" where
  "argv_at av k = (case av of
     None \<Rightarrow> Inl NullPointer
   | Some ws \<Rightarrow> if k < length ws then Inr (ws ! k) else if k = length ws then Inl NullPointer else Inl OutOfBounds)"

section \<open>Computing\<close>

text \<open>The inner loop \<open>for (int i = 0; i < comp_len; i++) x += i\<close>.\<close>

function sum_loop :: "int \<Rightarrow> int \<Rightarrow> int \<Rightarrow> int res" where
  "sum_loop len i x =
     (if i < len then if x + i \<ge> 2 ^ 31 then Inl SignedOverflow else sum_loop len (i + 1) (x + i) else Inr x)"
  by pat_completeness auto
termination by (relation "measure (\<lambda>(len, i, x). nat (len - i))") auto

text \<open>The outer loop \<open>while (++rep < total_reps)\<close>; \<open>gsum\<close> is 64 bits wide and wraps.\<close>

function rep_loop :: "int \<Rightarrow> nat \<Rightarrow> nat \<Rightarrow> 64 word \<Rightarrow> 64 word res" where
  "rep_loop len reps rep g =
     (let rep = rep + 1
      in if rep < reps then bindR (sum_loop len 0 0) (\<lambda>x. rep_loop len reps rep (g + of_int x)) else Inr g)"
  by pat_completeness auto
termination by (relation "measure (\<lambda>(len, reps, rep, g). reps - rep)") auto

declare sum_loop.simps [simp del] rep_loop.simps [simp del]

definition compute :: "64 word \<Rightarrow> 64 word \<Rightarrow> scavenger \<Rightarrow> scavenger res" where
  "compute tsc0 tsc1 s =
     bindR (rep_loop (comp_len s) (total_reps s) 0 (gsum s)) (\<lambda>g.
       Inr (s\<lparr>gsum := g, run_time := stop64_ts tsc1 - start64_ts tsc0\<rparr>))"

definition read_args :: "scavenger \<Rightarrow> scavenger res" where
  "read_args s =
     (if argc s > 1
      then bindR (argv_at (argv s) 1) (\<lambda>a.
           bindR (argv_at (argv s) 2) (\<lambda>b.
             case stoull b of
               None \<Rightarrow> Inl UncaughtException
             | Some v \<Rightarrow> Inr (s\<lparr>comp_len := atoi a, total_reps := nat v\<rparr>)))
      else Inr s)"

text \<open>\<open>entry\<close>; the time per task is what it prints.\<close>

definition entry :: "64 word \<Rightarrow> 64 word \<Rightarrow> scavenger \<Rightarrow> (int \<times> scavenger) res" where
  "entry tsc0 tsc1 s =
     bindR (read_args s) (\<lambda>s.
     bindR (compute tsc0 tsc1 s) (\<lambda>s.
       if total_reps s = 0 then Inl DivisionByZero else Inr (crt_pos s, s)))"

section \<open>The sums\<close>

text \<open>The sum of the numbers from 0 below \<open>c\<close>.\<close>

definition tri :: "int \<Rightarrow> int" where
  "tri c = c * (c - 1) div 2"

lemma tri_step: "tri (i + 1) = tri i + i"
proof -
  have "(i + 1) * (i + 1 - 1) = i * (i - 1) + i * 2" by algebra
  then show ?thesis by (simp add: tri_def)
qed

lemma tri_mono: "0 \<le> i \<Longrightarrow> i \<le> j \<Longrightarrow> tri i \<le> tri j"
proof -
  assume ij: "0 \<le> i" "i \<le> j"
  have "i * (i - 1) \<le> j * (j - 1)"
  proof (cases "i = 0")
    case True
    then show ?thesis using ij by (cases "j = 0") (auto intro: mult_nonneg_nonneg)
  qed (use ij in \<open>auto intro!: mult_mono\<close>)
  then show ?thesis unfolding tri_def by (rule zdiv_mono1) simp
qed

lemma sum_loop_tri:
  assumes "0 \<le> i" and "i \<le> c" and "tri c < 2 ^ 31"
  shows "sum_loop c i (tri i) = Inr (tri c)"
  using assms
proof (induction "nat (c - i)" arbitrary: i)
  case (Suc k)
  then have "tri (i + 1) \<le> tri c" by (intro tri_mono) auto
  then have "tri i + i < 2 ^ 31" using Suc.prems(3) by (simp add: tri_step)
  moreover have "sum_loop c (i + 1) (tri (i + 1)) = Inr (tri c)" using Suc by auto
  moreover have "i < c" using Suc.hyps(2) by linarith
  ultimately show ?case by (simp add: sum_loop.simps [of c i] tri_step)
qed (simp add: sum_loop.simps)

lemma sum_loop_overflow:
  assumes "0 \<le> i" and "i \<le> c" and "tri i < 2 ^ 31" and "2 ^ 31 \<le> tri c"
  shows "sum_loop c i (tri i) = Inl SignedOverflow"
  using assms
proof (induction "nat (c - i)" arbitrary: i)
  case (Suc k)
  have "sum_loop c (i + 1) (tri (i + 1)) = Inl SignedOverflow" if "tri (i + 1) < 2 ^ 31"
    using Suc that by auto
  moreover have "i < c" using Suc.hyps(2) by linarith
  ultimately show ?case by (auto simp: sum_loop.simps [of c i] tri_step)
qed auto

lemma inner_sum:
  "sum_loop c 0 0 = (if c \<le> 65536 then Inr (tri (max 0 c)) else Inl SignedOverflow)"
proof -
  have z: "tri 0 = 0" by (simp add: tri_def)
  consider "c < 0" | "0 \<le> c" "c \<le> 65536" | "65536 < c" by linarith
  then show ?thesis
  proof cases
    case 1
    then show ?thesis using z by (simp add: sum_loop.simps)
  next
    case 2
    then have "tri c < 2 ^ 31" using tri_mono [of c 65536] by (simp add: tri_def)
    then show ?thesis using 2 sum_loop_tri [of 0 c] z by simp
  next
    case 3
    then have "2 ^ 31 \<le> tri c" using tri_mono [of 65537 c] by (simp add: tri_def)
    then show ?thesis using 3 sum_loop_overflow [of 0 c] z by simp
  qed
qed

lemma rep_loop_sum:
  assumes "sum_loop c 0 0 = Inr x"
  shows "rep_loop c n r g = Inr (g + of_nat (n - 1 - r) * of_int x)"
proof (induction "n - r" arbitrary: r g)
  case (Suc k)
  show ?case
  proof (cases "Suc r < n")
    case True
    then have "k = n - Suc r" using Suc.hyps(2) by simp
    moreover have "n - 1 - r = Suc (n - 1 - Suc r)" using True by simp
    ultimately show ?thesis
      using Suc.hyps(1) [of "Suc r"] assms True by (simp add: rep_loop.simps [of c n r] algebra_simps)
  qed (simp add: rep_loop.simps)
qed (simp add: rep_loop.simps)

text \<open>
  C24. The scavenger computes what it should: for a \<open>comp_len\<close> of at most 65536 (negative values
  count as 0) the two loops terminate without signed overflow and add \<open>c (c - 1) / 2\<close> to \<open>gsum\<close>,
  modulo \<open>2\<^sup>6\<^sup>4\<close>, exactly \<open>total_reps - 1\<close> times (not at all for 0); nothing else but \<open>run_time\<close>
  changes. Above 65536 the inner sum leaves the range of \<open>int\<close> in the first repetition.
\<close>

theorem compute_closed_form:
  "compute tsc0 tsc1 s =
     (if comp_len s \<le> 65536
      then Inr (s\<lparr>gsum := gsum s + of_nat (total_reps s - 1) * of_int (max 0 (comp_len s) * (max 0 (comp_len s) - 1) div 2),
                  run_time := tsc1 - tsc0\<rparr>)
      else if total_reps s \<le> 1 then Inr (s\<lparr>run_time := tsc1 - tsc0\<rparr>)
      else Inl SignedOverflow)"
proof -
  have ts: "start64_ts x = x" "stop64_ts x = x" for x
    by (simp_all add: start64_ts_def stop64_ts_def start64_rdtsc_def stop64_rdtsc_def rdtsc_def rdtsc_halves)
  have big: "rep_loop (comp_len s) (total_reps s) 0 (gsum s) =
      (if total_reps s \<le> 1 then Inr (gsum s) else Inl SignedOverflow)" if "\<not> comp_len s \<le> 65536"
    using that inner_sum [of "comp_len s"] by (simp add: rep_loop.simps not_le)
  show ?thesis
  proof (cases "comp_len s \<le> 65536")
    case True
    then show ?thesis
      using rep_loop_sum [of "comp_len s" _ "total_reps s" 0 "gsum s"] inner_sum [of "comp_len s"]
      by (simp add: compute_def ts tri_def)
  qed (simp add: compute_def big ts)
qed

section \<open>The entry point\<close>

lemma sum_ends:
  assumes "comp_len s \<le> 65536"
  shows "\<exists>g rt. compute tsc0 tsc1 s = Inr (s\<lparr>gsum := g, run_time := rt\<rparr>)"
  using assms rep_loop_sum [of "comp_len s" _ "total_reps s" 0 "gsum s"] inner_sum [of "comp_len s"]
  by (simp add: compute_def) blast

text \<open>
  C25. The scavenger keeps its side of the contract with the scheduler: started with a length of
  at most 65536 and a positive number of repetitions as its two arguments, or with no argument, it
  terminates and returns the value the runtime stored in \<open>crt_pos\<close>.
\<close>

theorem entry_returns_crt_pos:
  assumes "(argc s \<le> 1 \<and> s' = s) \<or>
      (argc s > 1 \<and> argv s = Some [prog, a, b] \<and> stoull b = Some v \<and> s' = s\<lparr>comp_len := atoi a, total_reps := nat v\<rparr>)"
    and "comp_len s' \<le> 65536" and "total_reps s' > 0"
  shows "\<exists>s''. entry tsc0 tsc1 s = Inr (crt_pos s, s'') \<and> crt_pos s'' = crt_pos s"
proof -
  have r: "read_args s = Inr s'" using assms(1) by (auto simp: read_args_def argv_at_def)
  obtain g rt where c: "compute tsc0 tsc1 s' = Inr (s'\<lparr>gsum := g, run_time := rt\<rparr>)"
    using sum_ends [OF assms(2), of tsc0 tsc1] by blast
  have "crt_pos s' = crt_pos s" using assms(1) by auto
  then show ?thesis using r c assms(3) by (simp add: entry_def)
qed

text \<open>The arguments of a sample run: length 4, a thousand repetitions, slot offset 40.\<close>

definition started :: scavenger where
  "started = loaded\<lparr>crt_pos := 40, argc := 3, argv := Some [''compute.so'', ''4'', ''1000'']\<rparr>"

theorem entry_returns_crt_pos_witness:
  "(\<exists>s''. entry 0 5 started = Inr (40, s'')) \<and> (\<exists>s''. entry 0 5 (loaded\<lparr>crt_pos := 20\<rparr>) = Inr (20, s''))"
proof -
  have a: "atoi ''4'' = 4" "stoull ''1000'' = Some 1000" by code_simp+
  have "\<exists>s''. entry 0 5 started = Inr (crt_pos started, s'') \<and> crt_pos s'' = crt_pos started"
    by (rule entry_returns_crt_pos [of _ "started\<lparr>comp_len := 4, total_reps := 1000\<rparr>" "''compute.so''" "''4''" "''1000''" 1000])
      (simp_all add: a started_def loaded_def)
  moreover have "\<exists>s''. entry 0 5 (loaded\<lparr>crt_pos := 20\<rparr>) = Inr (crt_pos (loaded\<lparr>crt_pos := 20\<rparr>), s'') \<and>
      crt_pos s'' = crt_pos (loaded\<lparr>crt_pos := 20\<rparr>)"
    by (rule entry_returns_crt_pos [of _ "loaded\<lparr>crt_pos := 20\<rparr>"]) (simp_all add: loaded_def)
  ultimately show ?thesis by (auto simp: started_def)
qed

text \<open>
  C40. The error paths of the entry point: with one argument only, the guard \<open>argc > 1\<close> lets it
  read \<open>argv[2]\<close>, which is null; a repetition count that is not a number ends in an uncaught
  exception; and a count of 0 computes nothing and then divides by zero.
\<close>

theorem entry_error_paths:
  assumes "argc s > 1"
  shows "(argv s = Some [prog, a] \<longrightarrow> entry tsc0 tsc1 s = Inl NullPointer) \<and>
    (argv s = Some [prog, a, b] \<longrightarrow> stoull b = None \<longrightarrow> entry tsc0 tsc1 s = Inl UncaughtException) \<and>
    (argv s = Some [prog, a, b] \<longrightarrow> stoull b = Some 0 \<longrightarrow> entry tsc0 tsc1 s = Inl DivisionByZero)"
  using assms by (auto simp: entry_def read_args_def argv_at_def compute_def rep_loop.simps)

theorem entry_error_paths_witness:
  "entry 0 5 (started\<lparr>argc := 2, argv := Some [''compute.so'', ''4'']\<rparr>) = Inl NullPointer \<and>
   entry 0 5 (started\<lparr>argv := Some [''compute.so'', ''4'', ''x'']\<rparr>) = Inl UncaughtException \<and>
   entry 0 5 (started\<lparr>argv := Some [''compute.so'', ''4'', ''0'']\<rparr>) = Inl DivisionByZero"
proof -
  have a: "stoull ''x'' = None" "stoull ''0'' = Some 0" by code_simp+
  note e = entry_error_paths [of _ "''compute.so''" "''4''"]
  show ?thesis
    using e [of "started\<lparr>argc := 2, argv := Some [''compute.so'', ''4'']\<rparr>" 0 5]
      e [of "started\<lparr>argv := Some [''compute.so'', ''4'', ''x'']\<rparr>" 0 5 "''x''"]
      e [of "started\<lparr>argv := Some [''compute.so'', ''4'', ''0'']\<rparr>" 0 5 "''0''"] a
    by (simp add: started_def)
qed

end
