(* ===== verification/Spec2Isabelle.thy ===== *)
theory Spec2Isabelle
  imports Apps Compute
begin

text \<open>
  Verification library for MSH, the Memory Stall Software Harvester: the preloaded runtime
  \<open>libmsh\<close> (\<open>src/libmsh\<close>) and the sample programs of \<open>src/apps\<close>.

  \<^bold>\<open>The program.\<close> A latency-critical program (the primary) runs with \<open>libmsh\<close> preloaded. Each of its
  threads owns a \<open>primary_thread_ctx\<close>: slot 0 is the thread itself, slots 1 to 128 host scavengers,
  coroutines of shared objects from a pool file. Instrumented code yields along byte offsets stored
  in the slots (\<open>normal_next\<close>, \<open>special_next\<close>). A scavenger that finishes returns to the scheduler,
  which retires it, packs the slots, and refills the thread from threads that are blocked or from
  the pool. The wrappers of \<open>pthread.c\<close> start the runtime, give each thread a context, mark threads as
  blocked around blocking calls, and run the remaining scavengers when a thread ends.

  \<^bold>\<open>Theories and the code they model.\<close>
  \<^item> \<open>Prelude\<close>: results of fallible C code (\<open>msh_error\<close>, \<open>bindR\<close>, the outcome predicate \<open>ends\<close>), search
    and counting loops, C integer conversions, the locale \<open>inv_system\<close> of transition systems.
  \<^item> \<open>Layout\<close> (\<open>msh.h\<close>): the structs as byte layouts; offsets, sizes and alignment the instrumentation
    relies on; positions and their byte offsets.
  \<^item> \<open>Spinlock\<close> (\<open>spinlock.h\<close>): the operations, and their interleaving as a step relation with mutual
    exclusion and possible progress.
  \<^item> \<open>Index_List\<close>: the macros \<open>push_back_to_list\<close> and \<open>pop_back_from_list\<close>, as a stack interface.
  \<^item> \<open>Runtime_State\<close>: \<open>SCAV_TABLE\<close>, \<open>PRIM_TABLE\<close> and the other static variables as one record, and the
    environment \<open>env\<close>, the parameter for \<open>dlopen\<close>, \<open>dlsym\<close>, \<open>wordexp\<close>, \<open>fopen\<close>, \<open>getenv\<close>, the init
    functions of scavengers and what a scavenger leaves in its slot when it runs to completion. A store outside \<open>SCAV_TABLE\<close> is recorded in \<open>stray_writes\<close>.
  \<^item> \<open>Hosting\<close>: the abstract specification: who hosts which scavenger, with \<open>assign\<close>, \<open>release\<close> and
    \<open>move\<close>, and coherence as its invariant.
  \<^item> \<open>Slots\<close>, \<open>Packing\<close>: \<open>tl_swap_crts\<close>, \<open>tl_finish_crt\<close>, \<open>tl_update_next_map\<close>, \<open>tl_pack_crts\<close>,
    \<open>set_special_next\<close>; refinement of the abstract operations; packing is a stable compaction.
  \<^item> \<open>Pool\<close>: reading the pool file, \<open>init_scav_table\<close>, \<open>init_prim_table\<close>, \<open>msh_init\<close>.
  \<^item> \<open>Alloc\<close>, \<open>Realloc\<close>, \<open>Allocation\<close>: \<open>realloc_scav\<close>, \<open>_allocate_scav\<close>, \<open>call_init_for_new_scav\<close>,
    \<open>allocate_scav\<close>; what a thread has after allocation.
  \<^item> \<open>Scheduler\<close>: \<open>ret_to_scheduler\<close>, \<open>tl_sched_next_crt\<close>, \<open>msh_cleanup\<close>; a jump is an outcome.
  \<^item> \<open>Cleanup\<close>, \<open>Exports\<close>: cleanup with the scavengers it resumes terminates and finishes them all; the
    positions that scavengers export, and what happens when they are wrong.
  \<^item> \<open>Api\<close>: \<open>msh_alloc_ctx\<close>, \<open>msh_enter_blockable_call\<close>, \<open>msh_exit_blockable_call\<close> and the thread-local
    variables.
  \<^item> \<open>Flag_Protocol\<close>: the flag \<open>reallocatable\<close> between an owner and the threads that take from it,
    as a sequence of operations and under every interleaving.
  \<^item> \<open>Pthread\<close> (\<open>pthread.c\<close>): all wrappers, over the record \<open>libc\<close> of the functions behind them; the
    locale \<open>blocking_wrapper\<close> is the contract of the four blocking ones.
  \<^item> \<open>Lifecycle\<close>: threads that come and go while the runtime stays tidy; with libraries that export
    their symbols nothing exits.
  \<^item> \<open>C_Library\<close>, \<open>Tsc\<close>: \<open>atoi\<close>, \<open>std::stoull\<close> and the time stamp counter.
  \<^item> \<open>Ptrchase\<close>, \<open>Compute\<close>, \<open>Apps\<close> (\<open>src/apps\<close>): the sample primaries and the sample scavenger; the
    template program as a whole on top of the wrappers, its created thread included.
  \<^item> \<open>Samples\<close>: concrete states for the witnesses.

  \<^bold>\<open>What the theorems show.\<close> The invariant \<open>msh_inv\<close> (table shapes, the scavenger lock free, every
  index in a slot agrees with the slot its scavenger points to) is established by \<open>msh_init\<close> and
  kept by allocation, reallocation, packing, scheduling, cleanup, blockable calls and the wrappers.
  Each operation is specified on every branch: the outcome is \<open>ends r E P\<close>, where \<open>E\<close> lists the errors
  that can occur (\<open>never\<close>: it returns; \<open>may_exit\<close>: \<open>exit(1)\<close> on a missing symbol). Termination is proved
  as such: cleanup, the loops of the sample programs, the template program. Some theorems state
  what the code does where it does not do what it means to: the last slot, an oversized pool, two
  offers, threads without a context, moved scavengers.

  \<^bold>\<open>Bounds and fuel.\<close> The capacities are those of \<open>msh.h\<close>. The only fuel is that of \<open>cleanup_run\<close>, one
  unit per scheduling step; a thread hosts at most 128 scavengers, so \<open>NSLOT\<close> (129) units always
  suffice, which the proofs show. The \<open>do ... while\<close> loop of \<open>ptrchase.cpp\<close> is a partial function, whose
  termination is a theorem.

  \<^bold>\<open>Assumptions.\<close> \<open>init_local\<close>: the init function of a scavenger changes only registers and yield
  contexts of its thread. \<open>exports_ok\<close>: hosted scavengers export the offsets of their slots, which holds
  after allocation from the pool with one library per scavenger (\<open>own_libs\<close>) and fails after a move.
  \<open>exports_symbols\<close>: every library has the symbols that the runtime looks up, so that nothing exits.
  A scavenger that cleanup resumes writes in its own slot only (\<open>scav_writes\<close>). Between operations of
  one thread, other threads are described by what they leave behind: \<open>call_left\<close> for the duration of a
  wrapped call, \<open>routine_ok\<close> for a thread's own routine. In the template program the created thread is the
  code of \<open>msh_start_routine\<close>; it runs as a whole when it is created or when it is joined
  (\<open>runs_thread\<close>, \<open>idle\<close>). The interleaving itself is modelled for the spinlock and the flags. \<open>malloc\<close> is
  taken to succeed.

  \<^bold>\<open>Not modelled.\<close> \<open>print_prim_ctx\<close> and other messages; the contents of \<open>loop_counter\<close>, which only
  instrumented code writes; the patch \<open>msh_bolt.diff\<close> to a program outside the repository; the
  profiling scripts and build files.
\<close>

end
